(* ===== verification/Prelude.thy ===== *)
theory Prelude
  imports Complex_Main "HOL-Library.AList" "HOL-Library.Char_ord" "HOL-Library.List_Lexorder"
    "HOL-Library.Product_Lexorder" "HOL-Library.Multiset"
begin

text \<open>
  Shared vocabulary of the development: what the Go sources use of the language and its
  standard library (strings, 32-bit integers, IEEE doubles, sorted slices, maps with a zero
  default), and the generic lemmas on lists, association lists and relations that the
  component theories share.

  Strings are byte strings: Go compares strings byte by byte, which is the order that
  \<open>Char_ord\<close> and \<open>List_Lexorder\<close> put on \<^typ>\<open>string\<close>.
\<close>

named_theorems go_defs \<open>definitions that a concrete evaluation unfolds\<close>

section \<open>Go strings\<close>

text \<open>\<open>strings.Join\<close>, with the separator first.\<close>

fun join :: "string \<Rightarrow> string list \<Rightarrow> string" where
  "join sep [] = []"
| "join sep [x] = x"
| "join sep (x # y # ys) = x @ sep @ join sep (y # ys)"

text \<open>
  \<open>strings.TrimSpace\<close> cuts the Unicode white space at both ends. The table lists its UTF-8
  encodings; a byte string starts (ends) with a white-space rune exactly if one of these byte
  sequences is its prefix (suffix).
\<close>

definition space_seqs :: "string list" where
  "space_seqs =
     [[CHR 0x20], [CHR 0x09], [CHR 0x0A], [CHR 0x0B], [CHR 0x0C], [CHR 0x0D],
      [CHR 0xC2, CHR 0x85], [CHR 0xC2, CHR 0xA0], [CHR 0xE1, CHR 0x9A, CHR 0x80],
      [CHR 0xE2, CHR 0x80, CHR 0x80], [CHR 0xE2, CHR 0x80, CHR 0x81],
      [CHR 0xE2, CHR 0x80, CHR 0x82], [CHR 0xE2, CHR 0x80, CHR 0x83],
      [CHR 0xE2, CHR 0x80, CHR 0x84], [CHR 0xE2, CHR 0x80, CHR 0x85],
      [CHR 0xE2, CHR 0x80, CHR 0x86], [CHR 0xE2, CHR 0x80, CHR 0x87],
      [CHR 0xE2, CHR 0x80, CHR 0x88], [CHR 0xE2, CHR 0x80, CHR 0x89],
      [CHR 0xE2, CHR 0x80, CHR 0x8A], [CHR 0xE2, CHR 0x80, CHR 0xA8],
      [CHR 0xE2, CHR 0x80, CHR 0xA9], [CHR 0xE2, CHR 0x80, CHR 0xAF],
      [CHR 0xE2, CHR 0x81, CHR 0x9F], [CHR 0xE3, CHR 0x80, CHR 0x80]]"

definition is_prefix :: "string \<Rightarrow> string \<Rightarrow> bool" where
  "is_prefix p s \<longleftrightarrow> length p \<le> length s \<and> take (length p) s = p"

fun cut_prefix :: "string list \<Rightarrow> string \<Rightarrow> string option" where
  "cut_prefix [] s = None"
| "cut_prefix (p # ps) s =
     (if p \<noteq> [] \<and> is_prefix p s then Some (drop (length p) s) else cut_prefix ps s)"

lemma cut_prefix_shorter: "cut_prefix ps s = Some t \<Longrightarrow> length t < length s"
proof (induction ps)
  case (Cons p ps)
  show ?case
  proof (cases "p \<noteq> [] \<and> is_prefix p s")
    case True
    then have "0 < length p" "length p \<le> length s" by (auto simp: is_prefix_def)
    then have "length s - length p < length s" by linarith
    with True Cons.prems show ?thesis by auto
  next
    case False
    with Cons show ?thesis by auto
  qed
qed simp

function trim_left :: "string list \<Rightarrow> string \<Rightarrow> string" where
  "trim_left ps s = (case cut_prefix ps s of None \<Rightarrow> s | Some t \<Rightarrow> trim_left ps t)"
  by pat_completeness auto
termination
  by (relation "measure (\<lambda>(ps, s). length s)") (auto dest: cut_prefix_shorter)

declare trim_left.simps [simp del]

definition TrimSpace :: "string \<Rightarrow> string" where
  "TrimSpace s = rev (trim_left (map rev space_seqs) (rev (trim_left space_seqs s)))"

text \<open>A field counts as blank when trimming leaves nothing of it.\<close>

definition blank :: "string \<Rightarrow> bool" where
  "blank s \<longleftrightarrow> TrimSpace s = []"

lemma trim_left_Nil [simp]: "trim_left ps [] = []"
proof -
  have "cut_prefix ps [] = None" by (induction ps) (auto simp: is_prefix_def)
  then show ?thesis by (simp add: trim_left.simps)
qed

lemma blank_Nil [simp]: "blank []"
  by (simp add: blank_def TrimSpace_def)

definition HasPrefix :: "string \<Rightarrow> string \<Rightarrow> bool" where
  "HasPrefix s p = is_prefix p s"

definition HasSuffix :: "string \<Rightarrow> string \<Rightarrow> bool" where
  "HasSuffix s p = is_prefix (rev p) (rev s)"

definition TrimPrefix :: "string \<Rightarrow> string \<Rightarrow> string" where
  "TrimPrefix s p = (if is_prefix p s then drop (length p) s else s)"

text \<open>\<open>strconv.Itoa\<close>.\<close>

fun nat_digits :: "nat \<Rightarrow> string" where
  "nat_digits n =
     (if n < 10 then [char_of (48 + n)] else nat_digits (n div 10) @ [char_of (48 + n mod 10)])"

declare nat_digits.simps [simp del]

definition itoa :: "int \<Rightarrow> string" where
  "itoa i = (if i < 0 then CHR ''-'' # nat_digits (nat (- i)) else nat_digits (nat i))"

section \<open>Machine numbers\<close>

text \<open>\<open>int32(x)\<close>: two's complement wrap-around at 32 bits.\<close>

definition to_int32 :: "int \<Rightarrow> int" where
  "to_int32 x = (x + 2 ^ 31) mod 2 ^ 32 - 2 ^ 31"

text \<open>\<open>int64\<close> arithmetic wraps around at 64 bits.\<close>

definition to_int64 :: "int \<Rightarrow> int" where
  "to_int64 x = (x + 2 ^ 63) mod 2 ^ 64 - 2 ^ 63"

text \<open>Integer division truncates toward zero.\<close>

definition go_div :: "int \<Rightarrow> int \<Rightarrow> int" where
  "go_div a b = sgn a * sgn b * (\<bar>a\<bar> div \<bar>b\<bar>)"

lemma go_div_nonneg: "0 \<le> a \<Longrightarrow> 0 < b \<Longrightarrow> go_div a b = a div b"
  by (cases "a = 0") (simp_all add: go_div_def)

lemma to_int64_id: "- (2 ^ 63) \<le> x \<Longrightarrow> x < 2 ^ 63 \<Longrightarrow> to_int64 x = x"
  by (simp add: to_int64_def)

lemma to_int32_id: "- (2 ^ 31) \<le> x \<Longrightarrow> x < 2 ^ 31 \<Longrightarrow> to_int32 x = x"
  by (simp add: to_int32_def)

text \<open>
  \<open>float64\<close> as the comparisons of the code see it: a finite value, an infinity, or a NaN,
  which every ordered comparison answers with false.
\<close>

datatype float64 = Fin rat | PInf | NInf | NaN

fun flt_lt :: "float64 \<Rightarrow> float64 \<Rightarrow> bool" where
  "flt_lt (Fin a) (Fin b) = (a < b)"
| "flt_lt NaN _ = False"
| "flt_lt _ NaN = False"
| "flt_lt NInf b = (b \<noteq> NInf)"
| "flt_lt (Fin a) b = (b = PInf)"
| "flt_lt PInf _ = False"

definition flt_ge :: "float64 \<Rightarrow> float64 \<Rightarrow> bool" where
  "flt_ge a b \<longleftrightarrow> a \<noteq> NaN \<and> b \<noteq> NaN \<and> \<not> flt_lt a b"

section \<open>Sorted slices\<close>

text \<open>\<open>dedupe\<close> on a sorted slice keeps one of every run of equal elements.\<close>

lemma sorted_remdups_adj_distinct: "sorted (xs :: 'a::linorder list) \<Longrightarrow> distinct (remdups_adj xs)"
  by (induction xs rule: remdups_adj.induct) (auto simp: less_le)

lemma strict_sorted_unique:
  assumes "sorted (xs :: 'a::linorder list)" "distinct xs" "sorted ys" "distinct ys" "set xs = set ys"
  shows "xs = ys"
  using assms sorted_distinct_set_unique by blast

section \<open>Paths and cycles\<close>

text \<open>\<open>chain r xs\<close>: every element is related by \<open>r\<close> to the next one.\<close>

fun chain :: "('a \<Rightarrow> 'a \<Rightarrow> bool) \<Rightarrow> 'a list \<Rightarrow> bool" where
  "chain r [] = True"
| "chain r [x] = True"
| "chain r (x # y # ys) = (r x y \<and> chain r (y # ys))"

lemma chain_append:
  "chain r (xs @ ys) \<longleftrightarrow>
     chain r xs \<and> chain r ys \<and> (xs \<noteq> [] \<longrightarrow> ys \<noteq> [] \<longrightarrow> r (last xs) (hd ys))"
proof (induction r xs rule: chain.induct)
  case (2 r x)
  show ?case by (cases ys) auto
qed auto

lemma chain_drop: "chain r xs \<Longrightarrow> chain r (drop n xs)"
  by (metis append_take_drop_id chain_append)

lemma chain_take: "chain r xs \<Longrightarrow> chain r (take n xs)"
  by (metis append_take_drop_id chain_append)

lemma chain_rtranclp: "chain r xs \<Longrightarrow> xs \<noteq> [] \<Longrightarrow> r\<^sup>*\<^sup>* (hd xs) (last xs)"
  by (induction r xs rule: chain.induct) (auto intro: converse_rtranclp_into_rtranclp)

text \<open>A closed walk: a non-empty path whose last element is related to its first.\<close>

definition closed_walk :: "('a \<Rightarrow> 'a \<Rightarrow> bool) \<Rightarrow> 'a list \<Rightarrow> bool" where
  "closed_walk r xs \<longleftrightarrow> xs \<noteq> [] \<and> chain r xs \<and> r (last xs) (hd xs)"

lemma closed_walk_tranclp: "closed_walk r xs \<Longrightarrow> r\<^sup>+\<^sup>+ (hd xs) (hd xs)"
  unfolding closed_walk_def by (metis chain_rtranclp rtranclp_into_tranclp1)

lemma closed_walk_rotate:
  assumes "closed_walk r (xs @ ys)" shows "closed_walk r (ys @ xs)"
  using assms unfolding closed_walk_def
  by (cases "xs = []"; cases "ys = []") (auto simp: chain_append)

lemma find_append: "find p (xs @ ys) = (case find p xs of None \<Rightarrow> find p ys | Some x \<Rightarrow> Some x)"
  by (induction xs) auto

lemma find_key: "distinct (map k xs) \<Longrightarrow> x \<in> set xs \<Longrightarrow> find (\<lambda>y. k y = k x) xs = Some x"
  by (induction xs) auto

end
