(* ===== verification/MissionModel.thy ===== *)
theory MissionModel
  imports Prelude
begin

text \<open>
  The mission definition as \<open>internal/engine/mission/graph\<close> reads it, and the first half of
  \<open>analyse\<close>: the flat node index (\<open>collectNode\<close>), the edge list with its dangling ends
  (\<open>buildEdges\<close>), the degrees and the derived endpoints.

  The protobuf messages are generated in another repository. They are data: a record field per
  getter the code calls. A nil sub-node reads like a node with an empty id, because the getters
  of a nil message return zero values and \<open>collectNode\<close> skips both.
\<close>

section \<open>Data\<close>

datatype node_type =
    NODE_TYPE_AGENT | NODE_TYPE_TOOL | NODE_TYPE_PLUGIN | NODE_TYPE_CONDITION
  | NODE_TYPE_PARALLEL | NODE_TYPE_JOIN | NODE_TYPE_JOB | NODE_TYPE_FOR_EACH
  | NODE_TYPE_UNSPECIFIED

record plugin_config =
  plugin_name :: string
  plugin_method :: string

record condition_config =
  expression :: string
  true_branch :: "string list"
  false_branch :: "string list"

datatype 'n parallel_config =
  ParallelConfig (sub_nodes: "'n list") (parallel_max_concurrency: int)

text \<open>The for-each source is an enum whose generated \<open>String()\<close> the code prints.\<close>

datatype 'n for_each_config =
  ForEachConfig (template: "'n option") (for_each_source: string) (for_each_max_concurrency: int)

record node_fields =
  nf_id :: string
  nf_name :: string
  nf_type :: node_type
  nf_starts_from :: string
  nf_agent_config :: "string option"
  nf_tool_config :: "string option"
  nf_plugin_config :: "plugin_config option"
  nf_condition_config :: "condition_config option"
  nf_join_config :: "string list option"
  nf_job_config :: "string option"

datatype mission_node =
  MissionNode (nfields: node_fields)
    (parallel_config: "mission_node parallel_config option")
    (for_each_config: "mission_node for_each_config option")

abbreviation node_id :: "mission_node \<Rightarrow> string" where
  "node_id n \<equiv> nf_id (nfields n)"

record edge =
  e_from :: string
  e_to :: string
  e_condition :: string
  e_role :: string

record mission_edge =
  me_from :: string
  me_to :: string
  me_condition :: string

record mission_definition =
  def_nodes :: "(string \<times> mission_node option) list"
  def_edges :: "mission_edge list"
  def_entry_points :: "string list"
  def_exit_points :: "string list"

record dangling_edge =
  de_from :: string
  de_to :: string
  de_missing :: string
  de_source :: string

text \<open>
  The Go map from node id to node: an association list with distinct keys, written with
  \<^const>\<open>AList.update\<close> and read with \<^const>\<open>map_of\<close>.
\<close>

type_synonym nodes = "(string \<times> mission_node) list"

definition roleDefault :: string where "roleDefault = []"
definition roleConditionTrue :: string where "roleConditionTrue = ''true''"
definition roleConditionFalse :: string where "roleConditionFalse = ''false''"

definition sortedNodeKeys :: "(string \<times> 'a) list \<Rightarrow> string list" where
  "sortedNodeKeys m = sort (map fst m)"

section \<open>The flat node index\<close>

lemma size_list_member: "x \<in> set xs \<Longrightarrow> f x < Suc (size_list f xs)"
  by (induction xs) auto

lemma size_sub_node:
  assumes "parallel_config n = Some p" "c \<in> set (sub_nodes p)"
  shows "size c < size n"
proof (cases n)
  case (MissionNode fs pc fc)
  with assms(1) have pc: "pc = Some p" by simp
  obtain cs k where p: "p = ParallelConfig cs k" by (cases p)
  with assms(2) have "c \<in> set cs" by simp
  then have "size c < Suc (size_list size cs)" by (rule size_list_member)
  with MissionNode pc p show ?thesis by simp
qed

lemma size_template:
  assumes "for_each_config n = Some f" "template f = Some t"
  shows "size t < size n"
  using assms by (cases n; cases f) auto

function collectNode :: "string \<Rightarrow> mission_node \<Rightarrow> nodes \<times> edge list \<Rightarrow> nodes \<times> edge list" where
  "collectNode i n acc =
     (if i = [] then acc
      else
        let acc = (AList.update i n (fst acc), snd acc);
            acc = (case parallel_config n of
                     None \<Rightarrow> acc
                   | Some p \<Rightarrow>
                       fold (\<lambda>child acc.
                               if node_id child = [] then acc
                               else collectNode (node_id child) child
                                      (fst acc, snd acc @ [\<lparr>e_from = i, e_to = node_id child,
                                                 e_condition = [], e_role = []\<rparr>]))
                         (sub_nodes p) acc)
        in (case for_each_config n of
              None \<Rightarrow> acc
            | Some f \<Rightarrow>
                (case template f of
                   None \<Rightarrow> acc
                 | Some tpl \<Rightarrow>
                     if node_id tpl = [] then acc
                     else collectNode (node_id tpl) tpl
                            (fst acc, snd acc @ [\<lparr>e_from = i, e_to = node_id tpl,
                                       e_condition = [], e_role = []\<rparr>]))))"
  by pat_completeness auto
termination
  by (relation "measure (\<lambda>(i, n, acc). size n)") (auto simp: size_sub_node size_template)

declare collectNode.simps [simp del]

text \<open>The loop of \<open>analyse\<close> over the definition's own node map; a nil node is skipped.\<close>

definition collect_nodes :: "mission_definition \<Rightarrow> nodes \<times> edge list" where
  "collect_nodes def =
     fold (\<lambda>i acc. case map_of (def_nodes def) i of
                      Some (Some n) \<Rightarrow> collectNode i n acc
                    | _ \<Rightarrow> acc)
       (sortedNodeKeys (def_nodes def)) ([], [])"

section \<open>The edge list\<close>

record edge_acc =
  seen :: "string \<times> string \<Rightarrow> nat option"
  outs :: "edge list"
  dangling :: "dangling_edge list"

text \<open>The closure \<open>add\<close> of \<open>buildEdges\<close>.\<close>

definition add_edge :: "nodes \<Rightarrow> string \<Rightarrow> edge \<Rightarrow> edge_acc \<Rightarrow> edge_acc" where
  "add_edge nodes src e acc =
     (if seen acc (e_from e, e_to e) \<noteq> None then acc
      else if map_of nodes (e_from e) = None then
        acc\<lparr>dangling := dangling acc @ [\<lparr>de_from = e_from e, de_to = e_to e,
                                          de_missing = e_from e, de_source = src\<rparr>]\<rparr>
      else if map_of nodes (e_to e) = None then
        acc\<lparr>dangling := dangling acc @ [\<lparr>de_from = e_from e, de_to = e_to e,
                                          de_missing = e_to e, de_source = src\<rparr>]\<rparr>
      else acc\<lparr>seen := (seen acc)((e_from e, e_to e) \<mapsto> length (outs acc)),
               outs := outs acc @ [e]\<rparr>)"

definition tagRole :: "string \<Rightarrow> string \<Rightarrow> string \<Rightarrow> edge_acc \<Rightarrow> edge_acc" where
  "tagRole f t role acc =
     (case seen acc (f, t) of
        None \<Rightarrow> acc
      | Some idx \<Rightarrow>
          if e_role (outs acc ! idx) = roleDefault
          then acc\<lparr>outs := (outs acc)[idx := (outs acc ! idx)\<lparr>e_role := role\<rparr>]\<rparr>
          else acc)"

definition add_branch :: "nodes \<Rightarrow> string \<Rightarrow> string \<Rightarrow> string \<Rightarrow> string \<Rightarrow> edge_acc \<Rightarrow> edge_acc" where
  "add_branch nodes i role src t acc =
     tagRole i t role
       (add_edge nodes src \<lparr>e_from = i, e_to = t, e_condition = [], e_role = role\<rparr> acc)"

definition add_condition :: "nodes \<Rightarrow> string \<Rightarrow> edge_acc \<Rightarrow> edge_acc" where
  "add_condition nodes i acc =
     (case map_of nodes i of
        None \<Rightarrow> acc
      | Some n \<Rightarrow>
          (case nf_condition_config (nfields n) of
             None \<Rightarrow> acc
           | Some c \<Rightarrow>
               fold (add_branch nodes i roleConditionFalse ''condition.false'') (false_branch c)
                 (fold (add_branch nodes i roleConditionTrue ''condition.true'') (true_branch c)
                    acc)))"

definition add_join :: "nodes \<Rightarrow> string \<Rightarrow> edge_acc \<Rightarrow> edge_acc" where
  "add_join nodes i acc =
     (case map_of nodes i of
        None \<Rightarrow> acc
      | Some n \<Rightarrow>
          (case nf_join_config (nfields n) of
             None \<Rightarrow> acc
           | Some ups \<Rightarrow>
               fold (\<lambda>up. add_edge nodes ''join.wait_for''
                             \<lparr>e_from = up, e_to = i, e_condition = [], e_role = []\<rparr>) ups acc))"

definition edges_acc :: "mission_definition \<Rightarrow> nodes \<Rightarrow> edge list \<Rightarrow> edge_acc" where
  "edges_acc def nodes synthesized =
     fold (add_join nodes) (sortedNodeKeys nodes)
       (fold (add_condition nodes) (sortedNodeKeys nodes)
          (fold (add_edge nodes ''parallel'') synthesized
             (fold (\<lambda>e. add_edge nodes ''edge''
                           \<lparr>e_from = me_from e, e_to = me_to e, e_condition = me_condition e,
                            e_role = []\<rparr>)
                (def_edges def) \<lparr>seen = Map.empty, outs = [], dangling = []\<rparr>)))"

definition buildEdges ::
  "mission_definition \<Rightarrow> nodes \<Rightarrow> edge list \<Rightarrow> edge list \<times> dangling_edge list" where
  "buildEdges def nodes synthesized =
     (let acc = edges_acc def nodes synthesized
      in (sort_key (\<lambda>e. (e_from e, e_to e, e_role e)) (outs acc), dangling acc))"

section \<open>Degrees and endpoints\<close>

text \<open>A Go map of counters reads as 0 where it has no entry.\<close>

definition degrees :: "edge list \<Rightarrow> (string \<Rightarrow> int) \<times> (string \<Rightarrow> int)" where
  "degrees edges =
     fold (\<lambda>e (inn, out). (inn(e_to e := inn (e_to e) + 1), out(e_from e := out (e_from e) + 1)))
       edges (\<lambda>_. 0, \<lambda>_. 0)"

fun dedupe :: "string list \<Rightarrow> string list" where
  "dedupe [] = []"
| "dedupe (s # ss) = rev (fold (\<lambda>x out. if x \<noteq> hd out then x # out else out) ss [s])"

definition deriveEndpoints :: "string list \<Rightarrow> nodes \<Rightarrow> (string \<Rightarrow> int) \<Rightarrow> string list" where
  "deriveEndpoints declared nodes deg =
     dedupe (sort (if declared \<noteq> [] then filter (\<lambda>i. map_of nodes i \<noteq> None) declared
                   else filter (\<lambda>i. deg i = 0) (map fst nodes)))"

text \<open>A for-each whose template is itself a for-each.\<close>

definition nested_for_each :: "mission_node \<Rightarrow> bool" where
  "nested_for_each n =
     (case for_each_config n of
        None \<Rightarrow> False
      | Some f \<Rightarrow> (case template f of None \<Rightarrow> False | Some t \<Rightarrow> for_each_config t \<noteq> None))"

definition findNestedForEach :: "nodes \<Rightarrow> string list" where
  "findNestedForEach nodes = sort (map fst (filter (\<lambda>(i, n). nested_for_each n) nodes))"

definition RefuseUnsupportedFanOut :: "nodes \<Rightarrow> string list option" where
  "RefuseUnsupportedFanOut nodes =
     (let nested = findNestedForEach nodes in if nested = [] then None else Some nested)"

end
