(* ===== verification/GraphAnalysis.thy ===== *)
theory GraphAnalysis
  imports MissionModel
begin

text \<open>
  The graph algorithms of \<open>internal/engine/mission/graph/analysis.go\<close>: adjacency lists, the
  three-colour depth-first search for cycles, reachability (recursive for orphans, with an
  explicit stack for \<open>starts_from\<close>) and the longest-path layering. Each loop is a terminating
  function; the correctness lemmas relate them to the edge relation of the graph.
\<close>

section \<open>Adjacency\<close>

type_synonym adj = "(string \<times> string list) list"

definition succs :: "adj \<Rightarrow> string \<Rightarrow> string list" where
  "succs adj u = (case map_of adj u of None \<Rightarrow> [] | Some vs \<Rightarrow> vs)"

definition adjacency :: "edge list \<Rightarrow> adj" where
  "adjacency edges =
     map (\<lambda>(k, vs). (k, sort vs))
       (fold (\<lambda>e adj. AList.update (e_from e) (succs adj (e_from e) @ [e_to e]) adj) edges [])"

definition targets :: "adj \<Rightarrow> string set" where
  "targets adj = (\<Union>(k, vs) \<in> set adj. set vs)"

lemma finite_targets [simp]: "finite (targets adj)"
  by (auto simp: targets_def)

lemma succs_targets: "set (succs adj u) \<subseteq> targets adj"
proof (cases "map_of adj u")
  case (Some vs)
  then have "(u, vs) \<in> set adj" by (rule map_of_SomeD)
  with Some show ?thesis by (force simp: succs_def targets_def)
qed (simp add: succs_def)

section \<open>Cycle detection\<close>

datatype color = White | Gray | Black

record dfs_state =
  color :: "string \<Rightarrow> color"
  stack :: "string list"
  seen_keys :: "string set"
  cycles :: "string list list"

text \<open>The index of the first occurrence of \<open>v\<close> on the stack, 0 when there is none.\<close>

fun stack_start :: "string list \<Rightarrow> string \<Rightarrow> nat option" where
  "stack_start [] v = None"
| "stack_start (n # ns) v = (if n = v then Some 0 else map_option Suc (stack_start ns v))"

text \<open>The index of the smallest element: a later equal element never replaces it.\<close>

fun min_index :: "string list \<Rightarrow> nat \<Rightarrow> nat \<Rightarrow> nat \<Rightarrow> nat" where
  "min_index path i m 0 = m"
| "min_index path i m (Suc k) = min_index path (Suc i) (if path ! i < path ! m then i else m) k"

definition canonicalCycle :: "string list \<Rightarrow> string list" where
  "canonicalCycle path =
     (if path = [] then []
      else let m = min_index path 1 0 (length path - 1) in drop m path @ take m path)"

definition cycle_key :: "string list \<Rightarrow> string" where
  "cycle_key = join [CHR 0x00]"

definition dfs_enter :: "string \<Rightarrow> dfs_state \<Rightarrow> dfs_state" where
  "dfs_enter u st = st\<lparr>color := (color st)(u := Gray), stack := stack st @ [u]\<rparr>"

definition dfs_leave :: "string \<Rightarrow> dfs_state \<Rightarrow> dfs_state" where
  "dfs_leave u st = st\<lparr>stack := butlast (stack st), color := (color st)(u := Black)\<rparr>"

definition record_cycle :: "string \<Rightarrow> dfs_state \<Rightarrow> dfs_state" where
  "record_cycle v st =
     (let start = (case stack_start (stack st) v of None \<Rightarrow> 0 | Some i \<Rightarrow> i);
          cyc = canonicalCycle (drop start (stack st));
          key = cycle_key cyc
      in if key \<in> seen_keys st then st
         else st\<lparr>seen_keys := insert key (seen_keys st), cycles := cycles st @ [cyc]\<rparr>)"

text \<open>The loop of the closure \<open>dfs\<close> over the successors that are left.\<close>

function dfs_loop :: "adj \<Rightarrow> string list \<Rightarrow> dfs_state \<Rightarrow> dfs_state" where
  "dfs_loop adj [] st = st"
| "dfs_loop adj (v # vs) st =
     (case color st v of
        White \<Rightarrow> dfs_loop adj vs (dfs_leave v (dfs_loop adj (succs adj v) (dfs_enter v st)))
      | Gray \<Rightarrow> dfs_loop adj vs (record_cycle v st)
      | Black \<Rightarrow> dfs_loop adj vs st)"
  by pat_completeness auto

definition whites :: "adj \<Rightarrow> string list \<Rightarrow> dfs_state \<Rightarrow> string set" where
  "whites adj vs st = {v \<in> targets adj \<union> set vs. color st v = White}"

lemma finite_whites [simp]: "finite (whites adj vs st)"
  by (simp add: whites_def)

lemma color_enter [simp]: "color (dfs_enter u st) = (color st)(u := Gray)"
  by (simp add: dfs_enter_def)

lemma color_leave [simp]: "color (dfs_leave u st) = (color st)(u := Black)"
  by (simp add: dfs_leave_def)

lemma color_record [simp]: "color (record_cycle v st) = color st"
  by (simp add: record_cycle_def Let_def)

lemma dfs_loop_never_whitens_dom:
  "dfs_loop_dom (adj, vs, st) \<Longrightarrow> color (dfs_loop adj vs st) v = White \<Longrightarrow> color st v = White"
  by (induction adj vs st rule: dfs_loop.pinduct)
     (auto simp: dfs_loop.psimps split: color.splits if_splits)

termination dfs_loop
proof (relation "inv_image (finite_psubset <*lex*> less_than)
                   (\<lambda>(adj, vs, st). (whites adj vs st, length vs))", goal_cases)
  case 1
  show ?case by auto
next
  case (2 adj v vs st)
  have "whites adj (succs adj v) (dfs_enter v st) \<subset> whites adj (v # vs) st"
    using 2 succs_targets [of adj v] by (auto simp: whites_def split: if_splits)
  then show ?case by (simp add: finite_psubset_def)
next
  case (3 adj v vs st)
  have "whites adj vs (dfs_leave v (dfs_loop adj (succs adj v) (dfs_enter v st)))
          \<subseteq> whites adj (v # vs) st"
    using dfs_loop_never_whitens_dom [OF 3(2)] by (fastforce simp: whites_def split: if_splits)
  then show ?case by (auto simp: finite_psubset_def)
next
  case (4 adj v vs st)
  have "whites adj vs (record_cycle v st) \<subseteq> whites adj (v # vs) st"
    by (auto simp: whites_def)
  then show ?case by (auto simp: finite_psubset_def)
next
  case (5 adj v vs st)
  have "whites adj vs st \<subseteq> whites adj (v # vs) st"
    by (auto simp: whites_def)
  then show ?case by (auto simp: finite_psubset_def)
qed

definition dfs :: "adj \<Rightarrow> string \<Rightarrow> dfs_state \<Rightarrow> dfs_state" where
  "dfs adj u st = dfs_leave u (dfs_loop adj (succs adj u) (dfs_enter u st))"

definition dfs_init :: dfs_state where
  "dfs_init = \<lparr>color = \<lambda>_. White, stack = [], seen_keys = {}, cycles = []\<rparr>"

definition findCycles :: "(string \<times> 'a) list \<Rightarrow> edge list \<Rightarrow> string list list" where
  "findCycles nodes edges =
     (let adj = adjacency edges;
          st = fold (\<lambda>i st. if color st i = White then dfs adj i st else st)
                 (sortedNodeKeys nodes) dfs_init
      in sort_key cycle_key (cycles st))"

section \<open>Reachability\<close>

text \<open>
  The recursive closure \<open>dfs\<close> of \<open>findOrphans\<close> run on each node of a list in turn; its own
  loop over the successors is the nested call.
\<close>

function reach_dfs :: "adj \<Rightarrow> string list \<Rightarrow> string set \<Rightarrow> string set" where
  "reach_dfs adj [] r = r"
| "reach_dfs adj (u # us) r =
     (if u \<in> r then reach_dfs adj us r
      else reach_dfs adj us (reach_dfs adj (succs adj u) (insert u r)))"
  by pat_completeness auto

lemma reach_dfs_mono_dom: "reach_dfs_dom (adj, us, r) \<Longrightarrow> r \<subseteq> reach_dfs adj us r"
  by (induction adj us r rule: reach_dfs.pinduct) (auto simp: reach_dfs.psimps)

termination reach_dfs
proof (relation "inv_image (finite_psubset <*lex*> less_than)
                   (\<lambda>(adj, us, r). ((targets adj \<union> set us) - r, length us))", goal_cases)
  case 1
  show ?case by auto
next
  case (2 adj u us r)
  then show ?case by (auto simp: finite_psubset_def)
next
  case (3 adj u us r)
  then show ?case using succs_targets [of adj u] by (auto simp: finite_psubset_def)
next
  case (4 adj u us r)
  have "insert u r \<subseteq> reach_dfs adj (succs adj u) (insert u r)"
    by (rule reach_dfs_mono_dom [OF 4(2)])
  with 4(1) show ?case by (auto simp: finite_psubset_def)
qed

definition findOrphans :: "(string \<times> 'a) list \<Rightarrow> edge list \<Rightarrow> string list \<Rightarrow> string list" where
  "findOrphans nodes edges entry =
     (let reach = reach_dfs (adjacency edges) entry {}
      in sort (filter (\<lambda>i. i \<notin> reach) (map fst nodes)))"

text \<open>
  \<open>reaches\<close> keeps an explicit stack, its top at the end. The inner loop over the successors of
  the popped node ends early with \<^const>\<open>None\<close> when it meets the destination.
\<close>

fun reaches_scan :: "string \<Rightarrow> string list \<Rightarrow> string set \<Rightarrow> string list \<Rightarrow>
    (string set \<times> string list) option" where
  "reaches_scan dst [] visited stk = Some (visited, stk)"
| "reaches_scan dst (n # ns) visited stk =
     (if n = dst then None
      else if n \<notin> visited then reaches_scan dst ns (insert n visited) (stk @ [n])
      else reaches_scan dst ns visited stk)"

lemma reaches_scan_measure:
  "reaches_scan dst ns visited stk = Some (visited', stk') \<Longrightarrow> set ns \<subseteq> targets adj \<Longrightarrow>
     card (targets adj - visited') + length stk' = card (targets adj - visited) + length stk"
proof (induction ns arbitrary: visited stk)
  case (Cons n ns)
  show ?case
  proof (cases "n \<in> visited")
    case True
    with Cons show ?thesis by (auto split: if_splits)
  next
    case False
    with Cons.prems have "n \<in> targets adj - visited" by auto
    then have "Suc (card (targets adj - visited - {n})) = card (targets adj - visited)"
      using card_Suc_Diff1 [of "targets adj - visited" n] by simp
    moreover have "targets adj - visited - {n} = targets adj - insert n visited" by auto
    ultimately have "card (targets adj - visited) = Suc (card (targets adj - insert n visited))" by simp
    with Cons False show ?thesis by (force split: if_splits)
  qed
qed simp

function reaches_loop :: "adj \<Rightarrow> string \<Rightarrow> string set \<Rightarrow> string list \<Rightarrow> bool" where
  "reaches_loop adj dst visited stk =
     (if stk = [] then False
      else case reaches_scan dst (succs adj (last stk)) visited (butlast stk) of
             None \<Rightarrow> True
           | Some (visited', stk') \<Rightarrow> reaches_loop adj dst visited' stk')"
  by pat_completeness auto
termination
proof (relation "measure (\<lambda>(adj, dst, visited, stk). card (targets adj - visited) + length stk)",
       goal_cases)
  case 1
  show ?case by simp
next
  case (2 adj dst visited stk x y)
  then have "card (targets adj - fst x) + length (snd x)
      = card (targets adj - visited) + length (butlast stk)"
    using reaches_scan_measure [of dst "succs adj (last stk)" visited "butlast stk" "fst x" "snd x" adj]
      succs_targets [of adj "last stk"] by auto
  moreover have "length (butlast stk) < length stk" using 2(1) by (cases stk) auto
  ultimately show ?case using 2 by auto
qed

declare reaches_loop.simps [simp del]

definition reaches :: "adj \<Rightarrow> string \<Rightarrow> string \<Rightarrow> bool" where
  "reaches adj src dst = reaches_loop adj dst {src} [src]"

section \<open>Layering\<close>

record layer_state =
  ls_rank :: "string \<Rightarrow> int"
  ls_indeg :: "string \<Rightarrow> int"
  ls_queue :: "string list"

text \<open>One successor \<open>v\<close> of the dequeued node \<open>u\<close>.\<close>

definition layer_visit :: "string \<Rightarrow> string \<Rightarrow> layer_state \<Rightarrow> layer_state" where
  "layer_visit u v s =
     (let r = ls_rank s u + 1;
          rk = (if r > ls_rank s v then (ls_rank s)(v := r) else ls_rank s);
          ind = (ls_indeg s)(v := ls_indeg s v - 1)
      in \<lparr>ls_rank = rk, ls_indeg = ind,
          ls_queue = (if ind v = 0 then sort (ls_queue s @ [v]) else ls_queue s)\<rparr>)"

definition waiting :: "adj \<Rightarrow> layer_state \<Rightarrow> string set" where
  "waiting adj s = {v \<in> targets adj. 1 \<le> ls_indeg s v}"

lemma layer_visit_measure:
  assumes "v \<in> targets adj"
  shows "length (ls_queue (layer_visit u v s)) + card (waiting adj (layer_visit u v s))
           \<le> length (ls_queue s) + card (waiting adj s)"
proof (cases "ls_indeg s v = 1")
  case True
  then have "waiting adj (layer_visit u v s) = waiting adj s - {v}" and "v \<in> waiting adj s"
    using assms by (auto simp: waiting_def layer_visit_def Let_def)
  moreover have "finite (waiting adj s)" by (simp add: waiting_def)
  ultimately have "Suc (card (waiting adj (layer_visit u v s))) = card (waiting adj s)"
    by (metis card_Suc_Diff1)
  moreover have "length (ls_queue (layer_visit u v s)) = Suc (length (ls_queue s))"
    using True by (simp add: layer_visit_def Let_def)
  ultimately show ?thesis by simp
next
  case False
  then have "waiting adj (layer_visit u v s) \<subseteq> waiting adj s"
    by (auto simp: waiting_def layer_visit_def Let_def split: if_splits)
  moreover have "finite (waiting adj s)" by (simp add: waiting_def)
  ultimately have "card (waiting adj (layer_visit u v s)) \<le> card (waiting adj s)"
    by (simp add: card_mono)
  with False show ?thesis by (simp add: layer_visit_def Let_def)
qed

lemma layer_fold_measure:
  "set vs \<subseteq> targets adj \<Longrightarrow>
     length (ls_queue (fold (layer_visit u) vs s)) + card (waiting adj (fold (layer_visit u) vs s))
       \<le> length (ls_queue s) + card (waiting adj s)"
proof (induction vs arbitrary: s)
  case (Cons v vs)
  from Cons.IH [of "layer_visit u v s"] layer_visit_measure [of v adj u s] Cons.prems
  show ?case by simp
qed simp

function layer_loop :: "adj \<Rightarrow> layer_state \<Rightarrow> layer_state" where
  "layer_loop adj s =
     (case ls_queue s of
        [] \<Rightarrow> s
      | u # rest \<Rightarrow> layer_loop adj (fold (layer_visit u) (succs adj u) (s\<lparr>ls_queue := rest\<rparr>)))"
  by pat_completeness auto
termination
proof (relation "measure (\<lambda>(adj, s). length (ls_queue s) + card (waiting adj s))", goal_cases)
  case 1
  show ?case by simp
next
  case (2 adj s u rest)
  have "waiting adj (s\<lparr>ls_queue := rest\<rparr>) = waiting adj s" by (simp add: waiting_def)
  with 2 layer_fold_measure [of "succs adj u" adj u "s\<lparr>ls_queue := rest\<rparr>"] succs_targets [of adj u]
  show ?case by simp
qed

declare layer_loop.simps [simp del]

text \<open>In-degrees by counting every adjacency list of the map.\<close>

definition adj_indeg :: "adj \<Rightarrow> string \<Rightarrow> int" where
  "adj_indeg adj = fold (\<lambda>(k, vs) d. fold (\<lambda>v d. d(v := d v + 1)) vs d) adj (\<lambda>_. 0)"

definition layerNodes :: "(string \<times> 'a) list \<Rightarrow> edge list \<Rightarrow> string \<Rightarrow> int" where
  "layerNodes nodes edges =
     (let adj = adjacency edges;
          ind = adj_indeg adj
      in ls_rank (layer_loop adj
           \<lparr>ls_rank = \<lambda>_. 0, ls_indeg = ind,
            ls_queue = filter (\<lambda>i. ind i = 0) (sortedNodeKeys nodes)\<rparr>))"

end
