(* ===== verification/GraphCorrectness.thy ===== *)
theory GraphCorrectness
  imports GraphAnalysis
begin

text \<open>
  Correctness of the graph algorithms against the edge relation: the depth-first search finds a
  cycle exactly if there is one, the reachability searches compute the reflexive (transitive)
  closure, and the layering is the longest-path rank.
\<close>

section \<open>The edge relation\<close>

definition edge_rel :: "edge list \<Rightarrow> string \<Rightarrow> string \<Rightarrow> bool" where
  "edge_rel edges u v \<longleftrightarrow> (\<exists>e \<in> set edges. e_from e = u \<and> e_to e = v)"

abbreviation adj_rel :: "adj \<Rightarrow> string \<Rightarrow> string \<Rightarrow> bool" where
  "adj_rel adj u v \<equiv> v \<in> set (succs adj u)"

lemma succs_update:
  "succs (AList.update k vs adj) u = (if u = k then vs else succs adj u)"
  by (simp add: succs_def update_conv)

lemma succs_fold_update:
  "succs (fold (\<lambda>e adj. AList.update (e_from e) (succs adj (e_from e) @ [e_to e]) adj) es adj) u
     = succs adj u @ map e_to (filter (\<lambda>e. e_from e = u) es)"
  by (induction es arbitrary: adj) (auto simp: succs_update)

lemma succs_map_sort: "succs (map (\<lambda>(k, vs). (k, sort vs)) adj) u = sort (succs adj u)"
  by (simp add: succs_def map_of_map split: option.splits)

lemma succs_adjacency:
  "succs (adjacency edges) u = sort (map e_to (filter (\<lambda>e. e_from e = u) edges))"
  by (simp add: adjacency_def succs_map_sort succs_fold_update succs_def [of "[]"])

lemma adj_rel_iff: "v \<in> set (succs (adjacency edges) u) \<longleftrightarrow> edge_rel edges u v"
  by (auto simp: succs_adjacency edge_rel_def)

lemma adj_rel_adjacency: "adj_rel (adjacency edges) = edge_rel edges"
  by (auto simp: fun_eq_iff adj_rel_iff)

section \<open>Cycle detection\<close>

lemma dfs_leave_enter_simps [simp]:
  "stack (dfs_enter u st) = stack st @ [u]"
  "cycles (dfs_enter u st) = cycles st"
  "seen_keys (dfs_enter u st) = seen_keys st"
  "stack (dfs_leave u st) = butlast (stack st)"
  "cycles (dfs_leave u st) = cycles st"
  "seen_keys (dfs_leave u st) = seen_keys st"
  "stack (record_cycle v st) = stack st"
  by (simp_all add: dfs_enter_def dfs_leave_def record_cycle_def Let_def)

text \<open>What the search keeps of the stack and the colours: a frame lemma.\<close>

lemma dfs_loop_stack [simp]: "stack (dfs_loop adj vs st) = stack st"
  by (induction adj vs st rule: dfs_loop.induct) (auto split: color.splits)

lemma dfs_loop_gray: "color (dfs_loop adj vs st) v = Gray \<longleftrightarrow> color st v = Gray"
  by (induction adj vs st rule: dfs_loop.induct) (auto split: color.splits if_splits)

lemma dfs_loop_black: "color st v = Black \<Longrightarrow> color (dfs_loop adj vs st) v = Black"
  by (induction adj vs st rule: dfs_loop.induct) (auto split: color.splits)

lemma cycles_record_mono: "set (cycles st) \<subseteq> set (cycles (record_cycle v st))"
  by (auto simp: record_cycle_def Let_def)

lemma dfs_loop_cycles_mono: "set (cycles st) \<subseteq> set (cycles (dfs_loop adj vs st))"
proof (induction adj vs st rule: dfs_loop.induct)
  case (2 adj v vs st)
  then show ?case using cycles_record_mono [of st v] by (fastforce split: color.splits)
qed simp

lemma dfs_loop_no_cycles: "cycles (dfs_loop adj vs st) = [] \<Longrightarrow> cycles st = []"
  using dfs_loop_cycles_mono [of st adj vs] by (cases "cycles st") auto

text \<open>
  The state while no cycle was met: nothing is marked as seen, the black nodes are closed under
  successors, and no cycle runs through them.
\<close>

definition clean :: "adj \<Rightarrow> dfs_state \<Rightarrow> bool" where
  "clean adj st \<longleftrightarrow>
     seen_keys st = {} \<and>
     (\<forall>u v. color st u = Black \<longrightarrow> adj_rel adj u v \<longrightarrow> color st v = Black) \<and>
     (\<forall>u. color st u = Black \<longrightarrow> \<not> (adj_rel adj)\<^sup>+\<^sup>+ u u)"

lemma black_closed_tranclp:
  assumes "\<And>u v. P u \<Longrightarrow> r u v \<Longrightarrow> P v" and "r\<^sup>+\<^sup>+ u v" and "P u"
  shows "P v"
  using assms(2,3) by (induction rule: tranclp_induct) (auto intro: assms(1))

lemma clean_leave:
  assumes "clean adj st" "color st v \<noteq> Black" "\<forall>w \<in> set (succs adj v). color st w = Black"
  shows "clean adj (dfs_leave v st)"
proof -
  have closed: "\<And>u w. color st u = Black \<Longrightarrow> adj_rel adj u w \<Longrightarrow> color st w = Black"
    and acyc: "\<And>u. color st u = Black \<Longrightarrow> \<not> (adj_rel adj)\<^sup>+\<^sup>+ u u"
    using assms(1) by (auto simp: clean_def)
  have "\<not> (adj_rel adj)\<^sup>+\<^sup>+ v v"
  proof
    assume "(adj_rel adj)\<^sup>+\<^sup>+ v v"
    then obtain w where w: "adj_rel adj v w" "(adj_rel adj)\<^sup>*\<^sup>* w v"
      by (metis tranclpD)
    then have "color st w = Black" using assms(3) by simp
    with w(2) have "color st v = Black"
      by (induction rule: rtranclp_induct) (auto intro: closed)
    with assms(2) show False by simp
  qed
  with assms closed acyc show ?thesis by (auto simp: clean_def)
qed

lemma record_cycle_clean:
  "seen_keys st = {} \<Longrightarrow> cycles (record_cycle v st) \<noteq> []"
  by (simp add: record_cycle_def Let_def)

lemma dfs_loop_clean:
  assumes "cycles (dfs_loop adj vs st) = []" "clean adj st"
  shows "clean adj (dfs_loop adj vs st) \<and>
         (\<forall>v \<in> set vs. color (dfs_loop adj vs st) v = Black)"
  using assms
proof (induction adj vs st rule: dfs_loop.induct)
  case (2 adj v vs st)
  show ?case
  proof (cases "color st v")
    case White
    let ?s1 = "dfs_loop adj (succs adj v) (dfs_enter v st)"
    let ?s2 = "dfs_leave v ?s1"
    have loop: "dfs_loop adj (v # vs) st = dfs_loop adj vs ?s2" using White by simp
    have nc2: "cycles ?s2 = []" using 2(5) loop dfs_loop_no_cycles by metis
    have "clean adj (dfs_enter v st)"
      using 2(6) White by (auto simp: clean_def)
    with 2(1) [OF White] nc2 have s1: "clean adj ?s1"
      and all: "\<forall>w \<in> set (succs adj v). color ?s1 w = Black" by auto
    have "color ?s1 v = Gray" by (simp add: dfs_loop_gray)
    with s1 all have "clean adj ?s2" by (intro clean_leave) auto
    with 2(2) [OF White] 2(5) loop have "clean adj (dfs_loop adj vs ?s2)"
      and "\<forall>w \<in> set vs. color (dfs_loop adj vs ?s2) w = Black" by auto
    moreover have "color (dfs_loop adj vs ?s2) v = Black" by (rule dfs_loop_black) simp
    ultimately show ?thesis by (simp add: White)
  next
    case Gray
    then have "cycles (record_cycle v st) = []"
      using 2(5) dfs_loop_no_cycles by auto
    moreover have "cycles (record_cycle v st) \<noteq> []"
      using 2(6) by (intro record_cycle_clean) (simp add: clean_def)
    ultimately show ?thesis by simp
  next
    case Black
    with 2 show ?thesis by (auto intro: dfs_loop_black)
  qed
qed simp

text \<open>Soundness: the stack is a path of grey nodes, so what is recorded is a closed walk.\<close>

lemma stack_start_Some:
  "v \<in> set xs \<Longrightarrow> \<exists>i < length xs. stack_start xs v = Some i \<and> xs ! i = v"
  by (induction xs) auto

lemma min_index_correct:
  assumes "i + k = length path" "m < length path" "\<forall>j < i. path ! m \<le> path ! j"
  shows "min_index path i m k < length path \<and>
         (\<forall>j < length path. path ! min_index path i m k \<le> path ! j)"
  using assms
proof (induction path i m k rule: min_index.induct)
  case (2 path i m k)
  let ?m = "if path ! i < path ! m then i else m"
  have "Suc i + k = length path" using 2(2) by simp
  moreover have "?m < length path" using 2(2,3) by simp
  moreover have "\<forall>j < Suc i. path ! ?m \<le> path ! j"
    using 2(4) by (auto simp: less_Suc_eq not_less intro: order_trans less_imp_le)
  ultimately show ?case using 2(1) by simp
qed simp

lemma canonicalCycle_min:
  assumes "path \<noteq> []"
  defines "m \<equiv> min_index path 1 0 (length path - 1)"
  shows "m < length path" and "\<forall>x \<in> set path. path ! m \<le> x"
proof -
  have "1 + (length path - 1) = length path" using assms(1) by (cases path) auto
  then have "m < length path \<and> (\<forall>j < length path. path ! m \<le> path ! j)"
    unfolding m_def using assms(1) by (intro min_index_correct) auto
  then show "m < length path" and "\<forall>x \<in> set path. path ! m \<le> x"
    by (auto simp: in_set_conv_nth)
qed

lemma canonicalCycle_closed_walk:
  assumes "closed_walk r path" shows "closed_walk r (canonicalCycle path)"
proof -
  have "path \<noteq> []" using assms by (simp add: closed_walk_def)
  then show ?thesis
    using assms closed_walk_rotate [of r "take m path" "drop m path" for m]
    by (simp add: canonicalCycle_def Let_def)
qed

lemma canonicalCycle_hd_le:
  assumes "path \<noteq> []" "x \<in> set path" shows "hd (canonicalCycle path) \<le> x"
  using canonicalCycle_min [OF assms(1)] assms
  by (simp add: canonicalCycle_def Let_def hd_drop_conv_nth)

lemma set_canonicalCycle: "set (canonicalCycle path) = set path"
proof -
  have "set (drop m path) \<union> set (take m path) = set path" for m
    by (metis append_take_drop_id set_append sup_commute)
  then show ?thesis by (simp add: canonicalCycle_def Let_def)
qed

definition on_path :: "adj \<Rightarrow> dfs_state \<Rightarrow> bool" where
  "on_path adj st \<longleftrightarrow>
     chain (adj_rel adj) (stack st) \<and> (\<forall>v. color st v = Gray \<longleftrightarrow> v \<in> set (stack st))"

lemma on_path_loop [simp]: "on_path adj (dfs_loop adj' vs st) = on_path adj st"
  by (simp add: on_path_def dfs_loop_gray)

lemma on_path_record [simp]: "on_path adj (record_cycle v st) = on_path adj st"
  by (simp add: on_path_def)

lemma on_path_enter:
  assumes "on_path adj st" "stack st \<noteq> [] \<Longrightarrow> adj_rel adj (last (stack st)) v"
  shows "on_path adj (dfs_enter v st)"
  using assms by (auto simp: on_path_def chain_append)

lemma on_path_leave:
  assumes "on_path adj s" "stack s = xs @ [v]" "v \<notin> set xs"
  shows "on_path adj (dfs_leave v s)"
  using assms by (auto simp: on_path_def chain_append)

definition walks :: "adj \<Rightarrow> dfs_state \<Rightarrow> bool" where
  "walks adj st \<longleftrightarrow> (\<forall>c \<in> set (cycles st). closed_walk (adj_rel adj) c \<and> (\<forall>x \<in> set c. hd c \<le> x))"

lemma walks_record:
  assumes "walks adj st" "on_path adj st" "color st v = Gray"
    and "adj_rel adj (last (stack st)) v"
  shows "walks adj (record_cycle v st)"
proof -
  have "v \<in> set (stack st)" using assms by (simp add: on_path_def)
  then obtain i where i: "i < length (stack st)" "stack_start (stack st) v = Some i"
    "stack st ! i = v" using stack_start_Some by blast
  have "closed_walk (adj_rel adj) (drop i (stack st))"
    using assms i by (auto simp: closed_walk_def on_path_def chain_drop hd_drop_conv_nth)
  then have "closed_walk (adj_rel adj) (canonicalCycle (drop i (stack st)))"
    by (rule canonicalCycle_closed_walk)
  moreover have "\<forall>x \<in> set (canonicalCycle (drop i (stack st))).
      hd (canonicalCycle (drop i (stack st))) \<le> x"
    using i(1) by (auto simp: set_canonicalCycle intro: canonicalCycle_hd_le)
  ultimately show ?thesis using assms(1) i(2) by (auto simp: walks_def record_cycle_def Let_def)
qed

lemma dfs_loop_walks:
  assumes "walks adj st" "on_path adj st" "stack st \<noteq> []"
    and "\<forall>v \<in> set vs. adj_rel adj (last (stack st)) v"
  shows "walks adj (dfs_loop adj vs st)"
  using assms
proof (induction adj vs st rule: dfs_loop.induct)
  case (2 adj v vs st)
  show ?case
  proof (cases "color st v")
    case White
    let ?s1 = "dfs_loop adj (succs adj v) (dfs_enter v st)"
    have enter: "on_path adj (dfs_enter v st)" using 2(6,8) by (intro on_path_enter) auto
    have "walks adj (dfs_enter v st)" using 2(5) by (simp add: walks_def)
    with 2(1) [OF White] enter have "walks adj ?s1" by simp
    moreover have "v \<notin> set (stack st)" using White 2(6) unfolding on_path_def by (metis color.distinct(1))
    then have "on_path adj (dfs_leave v ?s1)" using enter by (intro on_path_leave) auto
    ultimately show ?thesis using 2(2) [OF White] 2(7,8) White by (simp add: walks_def)
  next
    case Gray
    then have "walks adj (record_cycle v st)" using 2(5,6,8) by (intro walks_record) auto
    with 2(3) [OF Gray] 2(6-8) Gray show ?thesis by simp
  next
    case Black
    with 2 show ?thesis by simp
  qed
qed simp

section \<open>The search over all nodes\<close>

definition dfs_all :: "adj \<Rightarrow> string list \<Rightarrow> dfs_state \<Rightarrow> dfs_state" where
  "dfs_all adj ids = fold (\<lambda>i st. if color st i = White then dfs adj i st else st) ids"

definition idle_state :: "dfs_state \<Rightarrow> bool" where
  "idle_state st \<longleftrightarrow> stack st = [] \<and> (\<forall>v. color st v \<noteq> Gray)"

lemma dfs_idle:
  assumes "idle_state st" "color st u = White"
  shows "idle_state (dfs adj u st)" and "color (dfs adj u st) u = Black"
    and "color st v = Black \<Longrightarrow> color (dfs adj u st) v = Black"
    and "set (cycles st) \<subseteq> set (cycles (dfs adj u st))"
    and "walks adj st \<Longrightarrow> walks adj (dfs adj u st)"
    and "cycles (dfs adj u st) = [] \<Longrightarrow> clean adj st \<Longrightarrow> clean adj (dfs adj u st)"
proof -
  show "idle_state (dfs adj u st)"
    using assms by (auto simp: idle_state_def dfs_def dfs_loop_gray)
  show "color (dfs adj u st) u = Black" by (simp add: dfs_def)
  show "color st v = Black \<Longrightarrow> color (dfs adj u st) v = Black"
    by (auto simp: dfs_def intro: dfs_loop_black)
  show "set (cycles st) \<subseteq> set (cycles (dfs adj u st))"
    using dfs_loop_cycles_mono [of "dfs_enter u st"] by (simp add: dfs_def)
  have "on_path adj (dfs_enter u st)" using assms by (auto simp: on_path_def idle_state_def)
  then show "walks adj (dfs adj u st)" if "walks adj st"
    using that assms dfs_loop_walks [of adj "dfs_enter u st" "succs adj u"]
    by (simp add: walks_def dfs_def idle_state_def)
  show "clean adj (dfs adj u st)" if "cycles (dfs adj u st) = []" "clean adj st"
  proof -
    have "clean adj (dfs_enter u st)" using that(2) assms(2) by (auto simp: clean_def)
    with that(1) have "clean adj (dfs_loop adj (succs adj u) (dfs_enter u st))"
      and "\<forall>w \<in> set (succs adj u).
             color (dfs_loop adj (succs adj u) (dfs_enter u st)) w = Black"
      using dfs_loop_clean [of adj "succs adj u" "dfs_enter u st"] by (auto simp: dfs_def)
    moreover have "color (dfs_loop adj (succs adj u) (dfs_enter u st)) u \<noteq> Black"
      using dfs_loop_gray [of adj "succs adj u" "dfs_enter u st" u] by simp
    ultimately show ?thesis by (simp add: dfs_def clean_leave)
  qed
qed

lemma dfs_all_Cons:
  "dfs_all adj (i # ids) st = dfs_all adj ids (if color st i = White then dfs adj i st else st)"
  by (simp add: dfs_all_def)

lemma dfs_all_invariants:
  assumes "idle_state st"
  shows "idle_state (dfs_all adj ids st)"
    and "color st v = Black \<Longrightarrow> color (dfs_all adj ids st) v = Black"
    and "set (cycles st) \<subseteq> set (cycles (dfs_all adj ids st))"
    and "walks adj st \<Longrightarrow> walks adj (dfs_all adj ids st)"
  using assms
proof (induction ids arbitrary: st)
  case Nil
  { case 1 then show ?case by (simp add: dfs_all_def) }
  { case 2 then show ?case by (simp add: dfs_all_def) }
  { case 3 then show ?case by (simp add: dfs_all_def) }
  { case 4 then show ?case by (simp add: dfs_all_def) }
next
  case (Cons i ids)
  { case 1 with Cons.IH(1) show ?case by (simp add: dfs_all_Cons dfs_idle) }
  { case 2 with Cons.IH(2) show ?case by (simp add: dfs_all_Cons dfs_idle) }
  { case 3 with Cons.IH(3) dfs_idle(4) [OF 3] show ?case
      by (simp add: dfs_all_Cons) (meson dfs_idle(1) order_trans) }
  { case 4 with Cons.IH(4) show ?case by (simp add: dfs_all_Cons dfs_idle) }
qed

lemma dfs_all_clean:
  assumes "idle_state st" "clean adj st" "cycles (dfs_all adj ids st) = []"
  shows "clean adj (dfs_all adj ids st) \<and> (\<forall>v \<in> set ids. color (dfs_all adj ids st) v = Black)"
  using assms
proof (induction ids arbitrary: st)
  case (Cons i ids)
  let ?s = "if color st i = White then dfs adj i st else st"
  have idle: "idle_state ?s" using Cons.prems(1) by (simp add: dfs_idle)
  have nc: "cycles ?s = []"
    using dfs_all_invariants(3) [OF idle, of adj ids] Cons.prems(3) by (simp add: dfs_all_Cons)
  have "clean adj ?s" using Cons.prems(1,2) nc by (auto intro: dfs_idle(6))
  moreover have "color ?s i = Black"
    using Cons.prems(1) dfs_idle(2) by (cases "color st i") (auto simp: idle_state_def)
  ultimately show ?case
    using Cons.IH [OF idle] Cons.prems(3) dfs_all_invariants(2) [OF idle]
    by (auto simp: dfs_all_Cons)
qed (simp add: dfs_all_def)

lemma findCycles_dfs_all:
  "findCycles nodes edges =
     sort_key cycle_key (cycles (dfs_all (adjacency edges) (sortedNodeKeys nodes) dfs_init))"
  by (simp add: findCycles_def dfs_all_def Let_def)

lemma dfs_init_props [simp]:
  "idle_state dfs_init" "clean adj dfs_init" "walks adj dfs_init"
  by (simp_all add: dfs_init_def idle_state_def clean_def walks_def)

lemma findCycles_sound:
  assumes "c \<in> set (findCycles nodes edges)"
  shows "closed_walk (edge_rel edges) c" and "\<forall>x \<in> set c. hd c \<le> x"
proof -
  have w: "walks (adjacency edges) (dfs_all (adjacency edges) (sortedNodeKeys nodes) dfs_init)"
    by (rule dfs_all_invariants(4)) simp_all
  then show "closed_walk (edge_rel edges) c"
    using assms by (auto simp: findCycles_dfs_all walks_def adj_rel_adjacency)
  show "\<forall>x \<in> set c. hd c \<le> x" using w assms by (auto simp: findCycles_dfs_all walks_def)
qed

lemma findCycles_Nil_iff:
  assumes "\<forall>e \<in> set edges. e_from e \<in> fst ` set nodes"
  shows "findCycles nodes edges = [] \<longleftrightarrow> (\<forall>u. \<not> (edge_rel edges)\<^sup>+\<^sup>+ u u)"
proof
  assume nil: "findCycles nodes edges = []"
  let ?st = "dfs_all (adjacency edges) (sortedNodeKeys nodes) dfs_init"
  have "length (cycles ?st) = 0"
    using nil by (metis findCycles_dfs_all length_sort list.size(3))
  then have "clean (adjacency edges) ?st" and
    black: "\<forall>v \<in> set (sortedNodeKeys nodes). color ?st v = Black"
    using dfs_all_clean [of dfs_init "adjacency edges" "sortedNodeKeys nodes"] by auto
  then have acyc: "color ?st u = Black \<Longrightarrow> \<not> (edge_rel edges)\<^sup>+\<^sup>+ u u" for u
    by (simp add: clean_def adj_rel_adjacency)
  show "\<forall>u. \<not> (edge_rel edges)\<^sup>+\<^sup>+ u u"
  proof (intro allI notI)
    fix u assume cyc: "(edge_rel edges)\<^sup>+\<^sup>+ u u"
    then obtain w where "edge_rel edges u w" by (metis tranclpD)
    then have "u \<in> fst ` set nodes" using assms by (auto simp: edge_rel_def)
    then have "color ?st u = Black" using black by (auto simp: sortedNodeKeys_def)
    with acyc cyc show False by blast
  qed
next
  assume acyc: "\<forall>u. \<not> (edge_rel edges)\<^sup>+\<^sup>+ u u"
  show "findCycles nodes edges = []"
  proof (rule ccontr)
    assume "findCycles nodes edges \<noteq> []"
    then obtain c where "c \<in> set (findCycles nodes edges)" by (cases "findCycles nodes edges") auto
    then have "closed_walk (edge_rel edges) c" by (rule findCycles_sound)
    then show False using acyc closed_walk_tranclp by metis
  qed
qed

section \<open>Reachability\<close>

lemma reach_dfs_mono: "r \<subseteq> reach_dfs adj us r"
  by (induction adj us r rule: reach_dfs.induct) auto

lemma reach_dfs_start: "set us \<subseteq> reach_dfs adj us r"
proof (induction adj us r rule: reach_dfs.induct)
  case (2 adj u us r)
  let ?r = "reach_dfs adj (succs adj u) (insert u r)"
  have "u \<in> reach_dfs adj us ?r"
    using reach_dfs_mono [of "insert u r" adj "succs adj u"] reach_dfs_mono [of ?r adj us] by auto
  moreover have "u \<in> r \<Longrightarrow> u \<in> reach_dfs adj us r" using reach_dfs_mono by blast
  ultimately show ?case using 2 by auto
qed simp

lemma reach_dfs_new_closed:
  "x \<in> reach_dfs adj us r \<Longrightarrow> x \<notin> r \<Longrightarrow> set (succs adj x) \<subseteq> reach_dfs adj us r"
proof (induction adj us r rule: reach_dfs.induct)
  case (2 adj u us r)
  show ?case
  proof (cases "u \<in> r")
    case True
    with 2 show ?thesis by simp
  next
    case False
    let ?r = "reach_dfs adj (succs adj u) (insert u r)"
    have sub: "?r \<subseteq> reach_dfs adj us ?r" by (rule reach_dfs_mono)
    consider "x \<notin> ?r" | "x = u" | "x \<in> ?r" "x \<notin> insert u r" using 2(5) by blast
    then show ?thesis
    proof cases
      case 1
      with 2(3) [OF False] 2(4) False show ?thesis by simp
    next
      case 2
      with reach_dfs_start [of "succs adj u" adj "insert u r"] sub False show ?thesis by auto
    next
      case 3
      with 2(2) [OF False] sub False show ?thesis by auto
    qed
  qed
qed simp

lemma reach_dfs_sound:
  "x \<in> reach_dfs adj us r \<Longrightarrow> x \<in> r \<or> (\<exists>u \<in> set us. (adj_rel adj)\<^sup>*\<^sup>* u x)"
proof (induction adj us r rule: reach_dfs.induct)
  case (2 adj u us r)
  show ?case
  proof (cases "u \<in> r")
    case True
    with 2 show ?thesis by auto
  next
    case False
    with 2(3) [OF False] 2(4) consider "x \<in> reach_dfs adj (succs adj u) (insert u r)"
      | "\<exists>w \<in> set us. (adj_rel adj)\<^sup>*\<^sup>* w x" by auto
    then show ?thesis
    proof cases
      case 1
      with 2(2) [OF False] show ?thesis by (auto intro: converse_rtranclp_into_rtranclp)
    qed auto
  qed
qed simp

lemma reach_dfs_correct:
  "reach_dfs adj us {} = {x. \<exists>u \<in> set us. (adj_rel adj)\<^sup>*\<^sup>* u x}"
proof (intro set_eqI iffI)
  fix x assume "x \<in> reach_dfs adj us {}"
  then show "x \<in> {x. \<exists>u \<in> set us. (adj_rel adj)\<^sup>*\<^sup>* u x}" using reach_dfs_sound by blast
next
  fix x assume "x \<in> {x. \<exists>u \<in> set us. (adj_rel adj)\<^sup>*\<^sup>* u x}"
  then obtain u where u: "u \<in> set us" "(adj_rel adj)\<^sup>*\<^sup>* u x" by auto
  from u(2) show "x \<in> reach_dfs adj us {}"
  proof (induction rule: rtranclp_induct)
    case base
    show ?case using u(1) reach_dfs_start by blast
  next
    case (step y z)
    then show ?case using reach_dfs_new_closed [of y adj us "{}"] by auto
  qed
qed

lemma set_findOrphans:
  "set (findOrphans nodes edges entry) =
     {i \<in> fst ` set nodes. \<not> (\<exists>u \<in> set entry. (edge_rel edges)\<^sup>*\<^sup>* u i)}"
  by (auto simp: findOrphans_def reach_dfs_correct adj_rel_adjacency)

lemma findOrphans_Nil_iff:
  "findOrphans nodes edges entry = [] \<longleftrightarrow>
     (\<forall>i \<in> fst ` set nodes. \<exists>u \<in> set entry. (edge_rel edges)\<^sup>*\<^sup>* u i)"
  using set_findOrphans [of nodes edges entry] by (auto simp flip: set_empty)

lemma reaches_scan_None: "reaches_scan dst ns V S = None \<longleftrightarrow> dst \<in> set ns"
  by (induction dst ns V S rule: reaches_scan.induct) auto

lemma reaches_scan_Some:
  "reaches_scan dst ns V S = Some (V', S') \<Longrightarrow>
     V' = V \<union> set ns \<and> set S' = set S \<union> (set ns - V)"
  by (induction dst ns V S rule: reaches_scan.induct) (auto split: if_splits)

lemma reaches_loop_sound:
  "reaches_loop adj dst V S \<Longrightarrow> \<exists>s \<in> set S. (adj_rel adj)\<^sup>+\<^sup>+ s dst"
proof (induction adj dst V S rule: reaches_loop.induct)
  case (1 adj dst V S)
  have ne: "S \<noteq> []" using 1(2) by (subst (asm) reaches_loop.simps) (auto split: if_splits)
  then have l: "last S \<in> set S" by simp
  show ?case
  proof (cases "reaches_scan dst (succs adj (last S)) V (butlast S)")
    case None
    then have "adj_rel adj (last S) dst" by (simp add: reaches_scan_None)
    with l show ?thesis by blast
  next
    case (Some vs)
    obtain V' S' where vs: "vs = (V', S')" by (cases vs)
    then have "reaches_loop adj dst V' S'"
      using 1(2) ne Some by (subst (asm) reaches_loop.simps) simp
    with 1(1) [OF ne Some vs [symmetric]] obtain s where s: "s \<in> set S'" "(adj_rel adj)\<^sup>+\<^sup>+ s dst" by blast
    have "set S' = set (butlast S) \<union> (set (succs adj (last S)) - V)"
      using reaches_scan_Some Some vs by blast
    with s(1) consider "s \<in> set (butlast S)" | "adj_rel adj (last S) s" by blast
    then show ?thesis
    proof cases
      case 1
      with s(2) show ?thesis by (auto dest: in_set_butlastD)
    next
      case 2
      with s(2) l show ?thesis by (meson tranclp_into_tranclp2)
    qed
  qed
qed

lemma reaches_loop_complete:
  assumes "\<not> reaches_loop adj dst V S" "set S \<subseteq> V"
    and "\<forall>x \<in> V - set S. set (succs adj x) \<subseteq> V \<and> dst \<notin> set (succs adj x)"
  shows "\<exists>W. V \<subseteq> W \<and> (\<forall>x \<in> W. set (succs adj x) \<subseteq> W \<and> dst \<notin> set (succs adj x))"
  using assms
proof (induction adj dst V S rule: reaches_loop.induct)
  case (1 adj dst V S)
  show ?case
  proof (cases "S = []")
    case True
    with 1(4) show ?thesis by (intro exI [of _ V]) auto
  next
    case ne: False
    show ?thesis
    proof (cases "reaches_scan dst (succs adj (last S)) V (butlast S)")
      case None
      with 1(2) ne show ?thesis by (subst (asm) reaches_loop.simps) simp
    next
      case (Some vs)
      obtain V' S' where vs: "vs = (V', S')" by (cases vs)
      have nl: "\<not> reaches_loop adj dst V' S'"
        using 1(2) ne Some vs by (subst (asm) reaches_loop.simps) simp
      have V': "V' = V \<union> set (succs adj (last S))"
        and S': "set S' = set (butlast S) \<union> (set (succs adj (last S)) - V)"
        using reaches_scan_Some Some vs by blast+
      have nd: "dst \<notin> set (succs adj (last S))" using Some reaches_scan_None by (metis option.distinct(1))
      have "set S' \<subseteq> V'" using V' S' 1(3) by (auto dest: in_set_butlastD)
      moreover have "\<forall>x \<in> V' - set S'. set (succs adj x) \<subseteq> V' \<and> dst \<notin> set (succs adj x)"
      proof
        fix x assume x: "x \<in> V' - set S'"
        then have xV: "x \<in> V" and "x \<notin> set (butlast S)" using V' S' by auto
        moreover have "set S = insert (last S) (set (butlast S))"
          using ne by (cases S rule: rev_cases) auto
        ultimately have "x = last S \<or> x \<in> V - set S" by auto
        with V' nd 1(4) show "set (succs adj x) \<subseteq> V' \<and> dst \<notin> set (succs adj x)" by auto
      qed
      ultimately obtain W where "V' \<subseteq> W"
        "\<forall>x \<in> W. set (succs adj x) \<subseteq> W \<and> dst \<notin> set (succs adj x)"
        using 1(1) [OF ne Some vs [symmetric] nl] by blast
      with V' show ?thesis by (intro exI [of _ W]) auto
    qed
  qed
qed

lemma reaches_correct: "reaches adj src dst \<longleftrightarrow> (adj_rel adj)\<^sup>+\<^sup>+ src dst"
proof
  assume "reaches adj src dst"
  then show "(adj_rel adj)\<^sup>+\<^sup>+ src dst" using reaches_loop_sound by (fastforce simp: reaches_def)
next
  assume path: "(adj_rel adj)\<^sup>+\<^sup>+ src dst"
  show "reaches adj src dst"
  proof (rule ccontr)
    assume "\<not> reaches adj src dst"
    then obtain W where W: "{src} \<subseteq> W"
      and closed: "\<forall>x \<in> W. set (succs adj x) \<subseteq> W \<and> dst \<notin> set (succs adj x)"
      using reaches_loop_complete [of adj dst "{src}" "[src]"] by (auto simp: reaches_def)
    from path obtain y where y: "(adj_rel adj)\<^sup>*\<^sup>* src y" "adj_rel adj y dst"
      by (cases rule: tranclp.cases) (auto dest: tranclp_into_rtranclp)
    from y(1) have "y \<in> W"
      by (induction rule: rtranclp_induct) (use W closed in auto)
    with closed y(2) show False by auto
  qed
qed

section \<open>Layering\<close>

lemma count_list_pos: "v \<in> set xs \<Longrightarrow> 0 < count_list xs v"
  by (induction xs) auto

lemma layer_visit_sel:
  "ls_indeg (layer_visit u v s) = (ls_indeg s)(v := ls_indeg s v - 1)"
  "ls_rank (layer_visit u v s) = (ls_rank s)(v := max (ls_rank s v) (ls_rank s u + 1))"
  "set (ls_queue (layer_visit u v s)) =
     set (ls_queue s) \<union> (if ls_indeg s v = 1 then {v} else {})"
  by (auto simp: layer_visit_def Let_def fun_eq_iff)

definition queue_ok :: "layer_state \<Rightarrow> bool" where
  "queue_ok s \<longleftrightarrow> distinct (ls_queue s) \<and> (\<forall>v \<in> set (ls_queue s). ls_indeg s v \<le> 0)"

lemma queue_ok_visit: "queue_ok s \<Longrightarrow> queue_ok (layer_visit u v s)"
  by (auto simp: queue_ok_def layer_visit_def Let_def)

lemma layer_fold:
  assumes "u \<notin> set vs" "queue_ok s"
  shows "ls_indeg (fold (layer_visit u) vs s) v = ls_indeg s v - int (count_list vs v)"
    and "ls_rank (fold (layer_visit u) vs s) v =
           (if v \<in> set vs then max (ls_rank s v) (ls_rank s u + 1) else ls_rank s v)"
    and "set (ls_queue (fold (layer_visit u) vs s)) =
           set (ls_queue s) \<union> {v. 1 \<le> ls_indeg s v \<and> ls_indeg s v \<le> int (count_list vs v)}"
    and "queue_ok (fold (layer_visit u) vs s)"
proof -
  have "\<forall>v. ls_indeg (fold (layer_visit u) vs s) v = ls_indeg s v - int (count_list vs v)"
    by (induction vs arbitrary: s) (auto simp: layer_visit_sel)
  then show "ls_indeg (fold (layer_visit u) vs s) v = ls_indeg s v - int (count_list vs v)" by simp
  show "ls_rank (fold (layer_visit u) vs s) v =
      (if v \<in> set vs then max (ls_rank s v) (ls_rank s u + 1) else ls_rank s v)"
    using assms(1) by (induction vs arbitrary: s) (auto simp: layer_visit_sel)
  show "set (ls_queue (fold (layer_visit u) vs s)) =
      set (ls_queue s) \<union> {v. 1 \<le> ls_indeg s v \<and> ls_indeg s v \<le> int (count_list vs v)}"
    by (induction vs arbitrary: s) (auto simp: layer_visit_sel split: if_splits)
  show "queue_ok (fold (layer_visit u) vs s)"
    using assms(2) by (induction vs arbitrary: s) (auto simp: queue_ok_visit)
qed

text \<open>
  The invariant of Kahn's loop, with the ghost set \<open>P\<close> of dequeued nodes: in-degrees count the
  edges from nodes not yet dequeued, the queue holds the other nodes with in-degree 0, and a rank
  is the largest that a dequeued predecessor gives.
\<close>

definition pred_ranks :: "adj \<Rightarrow> string set \<Rightarrow> (string \<Rightarrow> int) \<Rightarrow> string \<Rightarrow> int set" where
  "pred_ranks adj P rank v = (\<lambda>u. rank u + 1) ` {u \<in> P. adj_rel adj u v}"

definition layer_inv :: "adj \<Rightarrow> string set \<Rightarrow> string set \<Rightarrow> layer_state \<Rightarrow> bool" where
  "layer_inv adj N P s \<longleftrightarrow>
     P \<subseteq> N \<and>
     (\<forall>v. ls_indeg s v = (\<Sum>u \<in> N - P. int (count_list (succs adj u) v))) \<and>
     queue_ok s \<and> set (ls_queue s) \<inter> P = {} \<and>
     P \<union> set (ls_queue s) = {v \<in> N. ls_indeg s v = 0} \<and>
     (\<forall>v. ls_rank s v = Max (insert 0 (pred_ranks adj P (ls_rank s) v)))"

lemma pred_ranks_insert:
  "pred_ranks adj (insert u P) rank v =
     pred_ranks adj P rank v \<union> (if adj_rel adj u v then {rank u + 1} else {})"
  by (auto simp: pred_ranks_def)

lemma finite_pred_ranks: "finite P \<Longrightarrow> finite (pred_ranks adj P rank v)"
  by (simp add: pred_ranks_def)

lemma pred_ranks_cong:
  "(\<And>u. u \<in> P \<Longrightarrow> rank u = rank' u) \<Longrightarrow> pred_ranks adj P rank v = pred_ranks adj P rank' v"
  unfolding pred_ranks_def by (rule image_cong) auto

lemma layer_inv_step:
  assumes inv: "layer_inv adj N P s" and q: "ls_queue s = u # rest" and fin: "finite N"
    and tgt: "targets adj \<subseteq> N" and loopfree: "\<not> adj_rel adj u u"
  shows "layer_inv adj N (insert u P) (fold (layer_visit u) (succs adj u) (s\<lparr>ls_queue := rest\<rparr>))"
proof -
  let ?s = "s\<lparr>ls_queue := rest\<rparr>" and ?vs = "succs adj u"
  let ?t = "fold (layer_visit u) ?vs ?s"
  have P: "P \<subseteq> N" and ind: "\<And>v. ls_indeg s v = (\<Sum>u \<in> N - P. int (count_list (succs adj u) v))"
    and qok: "queue_ok s" and dis: "set (ls_queue s) \<inter> P = {}"
    and zero: "P \<union> set (ls_queue s) = {v \<in> N. ls_indeg s v = 0}"
    and rank: "\<And>v. ls_rank s v = Max (insert 0 (pred_ranks adj P (ls_rank s) v))"
    using inv by (auto simp: layer_inv_def)
  have uN: "u \<in> N" "u \<notin> P" "u \<notin> set rest" using zero dis qok q by (auto simp: queue_ok_def)
  have finP: "finite P" using P fin by (rule finite_subset)
  have "queue_ok ?s" using qok q by (auto simp: queue_ok_def)
  note fold = layer_fold [OF loopfree this]
  have ind': "ls_indeg ?t v = (\<Sum>w \<in> N - insert u P. int (count_list (succs adj w) v))" for v
  proof -
    have "N - P - {u} = N - insert u P" by auto
    then have "ls_indeg s v = int (count_list ?vs v)
        + (\<Sum>w \<in> N - insert u P. int (count_list (succs adj w) v))"
      using ind [of v] fin uN sum.remove [of "N - P" u "\<lambda>w. int (count_list (succs adj w) v)"]
      by (metis DiffI finite_Diff)
    then show ?thesis by (simp add: fold(1))
  qed
  have nonneg: "0 \<le> ls_indeg ?t v" for v unfolding ind' by (simp add: sum_nonneg)
  have nonneg0: "0 \<le> ls_indeg s v" for v unfolding ind by (simp add: sum_nonneg)
  have preds_done: "\<not> adj_rel adj u w" if "w \<in> P" for w
  proof
    assume "adj_rel adj u w"
    then have "0 < count_list ?vs w" by (rule count_list_pos)
    moreover have "ls_indeg s w = 0" using that zero by blast
    ultimately show False using nonneg [of w] by (simp add: fold(1))
  qed
  have zero': "insert u P \<union> set (ls_queue ?t) = {v \<in> N. ls_indeg ?t v = 0}"
  proof -
    have "v \<in> set ?vs" if "1 \<le> ls_indeg s v" "ls_indeg s v \<le> int (count_list ?vs v)" for v
      using that by (cases "v \<in> set ?vs") (auto simp: count_notin)
    then have inN: "v \<in> N" if "1 \<le> ls_indeg s v" "ls_indeg s v \<le> int (count_list ?vs v)" for v
      using that tgt succs_targets [of adj u] by blast
    have stays: "ls_indeg ?t v = 0" if "ls_indeg s v = 0" for v
      using nonneg [of v] that by (simp add: fold(1))
    have hits: "1 \<le> ls_indeg s v \<and> ls_indeg s v \<le> int (count_list ?vs v) \<longleftrightarrow>
        ls_indeg s v \<noteq> 0 \<and> ls_indeg ?t v = 0" for v
      using nonneg [of v] nonneg0 [of v] by (auto simp: fold(1))
    have "v \<in> insert u P \<union> set (ls_queue ?t) \<longleftrightarrow> v \<in> N \<and> ls_indeg ?t v = 0" for v
    proof -
      have "v \<in> insert u P \<union> set (ls_queue ?t) \<longleftrightarrow>
          v \<in> P \<union> set (ls_queue s) \<or> 1 \<le> ls_indeg s v \<and> ls_indeg s v \<le> int (count_list ?vs v)"
        using q by (auto simp: fold(3))
      also have "\<dots> \<longleftrightarrow> v \<in> N \<and> ls_indeg ?t v = 0"
        using zero stays hits inN by blast
      finally show ?thesis .
    qed
    then show ?thesis by blast
  qed
  have "ls_rank ?t v = Max (insert 0 (pred_ranks adj (insert u P) (ls_rank ?t) v))" for v
  proof -
    have same: "ls_rank ?t w = ls_rank s w" if "w \<in> insert u P" for w
      using that preds_done loopfree by (auto simp: fold(2))
    have "pred_ranks adj (insert u P) (ls_rank ?t) v = pred_ranks adj (insert u P) (ls_rank s) v"
      by (rule pred_ranks_cong) (rule same)
    moreover have "Max (insert 0 (pred_ranks adj P (ls_rank s) v \<union> {c})) = max (ls_rank s v) c" for c
      using Max_insert [of "insert 0 (pred_ranks adj P (ls_rank s) v)" c]
        finite_pred_ranks [OF finP, of adj "ls_rank s" v]
      by (simp add: rank [of v, symmetric] insert_commute max.commute)
    ultimately show ?thesis
      using rank [of v] by (simp only: fold(2) pred_ranks_insert) simp
  qed
  moreover have "set (ls_queue ?t) \<inter> insert u P = {}"
  proof -
    have "ls_indeg s v = 0" if "v \<in> insert u P" for v using that zero q by auto
    then show ?thesis using dis q uN by (auto simp: fold(3))
  qed
  ultimately show ?thesis
    using P uN ind' fold(4) zero' by (simp add: layer_inv_def)
qed

lemma layer_loop_inv:
  assumes "layer_inv adj N P s" "finite N" "targets adj \<subseteq> N" "\<forall>u. \<not> adj_rel adj u u"
  shows "\<exists>P'. layer_inv adj N P' (layer_loop adj s) \<and> ls_queue (layer_loop adj s) = []"
  using assms
proof (induction adj s arbitrary: P rule: layer_loop.induct)
  case (1 adj s)
  show ?case
  proof (cases "ls_queue s")
    case Nil
    then have "layer_loop adj s = s" by (subst layer_loop.simps) simp
    with 1(2) Nil show ?thesis by auto
  next
    case (Cons u rest)
    have "layer_inv adj N (insert u P)
        (fold (layer_visit u) (succs adj u) (s\<lparr>ls_queue := rest\<rparr>))"
      using layer_inv_step [OF 1(2) Cons 1(3,4)] 1(5) by blast
    moreover have "layer_loop adj s =
        layer_loop adj (fold (layer_visit u) (succs adj u) (s\<lparr>ls_queue := rest\<rparr>))"
      using Cons by (subst layer_loop.simps) simp
    ultimately show ?thesis using 1(1) [OF Cons _ 1(3-5)] by simp
  qed
qed

lemma acyclic_minimal:
  assumes "finite A" "A \<noteq> {}" "\<forall>u. \<not> r\<^sup>+\<^sup>+ u u"
  shows "\<exists>x \<in> A. \<forall>u \<in> A. \<not> r u x"
proof -
  let ?R = "{(u, v). u \<in> A \<and> v \<in> A \<and> r u v}"
  have "?R \<subseteq> A \<times> A" by auto
  then have "finite ?R" using assms(1) by (meson finite_SigmaI finite_subset)
  moreover have "acyclic ?R"
  proof -
    have "r\<^sup>+\<^sup>+ u v" if "(u, v) \<in> ?R\<^sup>+" for u v
      using that by (induction rule: trancl_induct) (auto intro: tranclp.trancl_into_trancl)
    then show ?thesis using assms(3) by (auto simp: acyclic_def)
  qed
  ultimately have "wf ?R" by (rule finite_acyclic_wf)
  moreover obtain a where "a \<in> A" using assms(2) by blast
  ultimately obtain x where "x \<in> A" and "\<And>y. (y, x) \<in> ?R \<Longrightarrow> y \<notin> A" by (rule wfE_min) blast
  then show ?thesis by blast
qed

lemma layer_inv_final:
  assumes "layer_inv adj N P s" "ls_queue s = []" "finite N" "\<forall>u. \<not> (adj_rel adj)\<^sup>+\<^sup>+ u u"
  shows "P = N"
proof (rule ccontr)
  assume "P \<noteq> N"
  with assms(1) have "N - P \<noteq> {}" by (auto simp: layer_inv_def)
  then obtain x where x: "x \<in> N - P" "\<forall>u \<in> N - P. \<not> adj_rel adj u x"
    using acyclic_minimal [of "N - P" "adj_rel adj"] assms(3,4) by auto
  then have "(\<Sum>u \<in> N - P. int (count_list (succs adj u) x)) = 0"
    by (intro sum.neutral) (simp add: count_notin)
  moreover have "P \<union> set (ls_queue s) = {v \<in> N. ls_indeg s v = 0}"
    and "ls_indeg s x = (\<Sum>u \<in> N - P. int (count_list (succs adj u) x))"
    using assms(1) by (simp_all only: layer_inv_def)
  ultimately have "x \<in> P" using assms(2) x(1) by auto
  with x(1) show False by simp
qed

lemma adj_indeg_sum: "adj_indeg adj v = (\<Sum>(k, vs) \<leftarrow> adj. int (count_list vs v))"
proof -
  have inner: "fold (\<lambda>v d. d(v := d v + 1)) vs d v = d v + int (count_list vs v)"
    for vs and d :: "string \<Rightarrow> int" and v
    by (induction vs arbitrary: d) auto
  have "fold (\<lambda>(k, vs) d. fold (\<lambda>v d. d(v := d v + 1)) vs d) adj d v =
      d v + (\<Sum>(k, vs) \<leftarrow> adj. int (count_list vs v))" for d :: "string \<Rightarrow> int"
    by (induction adj arbitrary: d) (auto simp: inner)
  then show ?thesis by (simp add: adj_indeg_def)
qed

lemma distinct_adjacency: "distinct (map fst (adjacency edges))"
proof -
  have "distinct (map fst adj) \<Longrightarrow> distinct (map fst
      (fold (\<lambda>e adj. AList.update (e_from e) (succs adj (e_from e) @ [e_to e]) adj) edges adj))" for adj
    by (induction edges arbitrary: adj) (auto simp: distinct_update)
  then show ?thesis by (simp add: adjacency_def case_prod_beta comp_def)
qed

lemma adj_indeg_succs:
  assumes "distinct (map fst adj)" "finite N" "fst ` set adj \<subseteq> N"
  shows "adj_indeg adj v = (\<Sum>u \<in> N. int (count_list (succs adj u) v))"
proof -
  have "adj_indeg adj v = (\<Sum>(k, vs) \<in> set adj. int (count_list vs v))"
    using assms(1) by (simp add: adj_indeg_sum sum_list_distinct_conv_sum_set distinct_map)
  also have "\<dots> = (\<Sum>(k, vs) \<in> set adj. int (count_list (succs adj k) v))"
    using assms(1) by (intro sum.cong) (auto simp: succs_def)
  also have "\<dots> = (\<Sum>u \<in> fst ` set adj. int (count_list (succs adj u) v))"
    using assms(1) by (subst sum.reindex) (auto simp: distinct_map case_prod_beta)
  also have "\<dots> = (\<Sum>u \<in> N. int (count_list (succs adj u) v))"
  proof (intro sum.mono_neutral_left assms ballI)
    fix u assume "u \<in> N - fst ` set adj"
    then have "map_of adj u = None" by (simp add: map_of_eq_None_iff)
    then have "succs adj u = []" by (simp add: succs_def)
    then show "int (count_list (succs adj u) v) = 0" by simp
  qed
  finally show ?thesis .
qed

lemma adjacency_keys: "fst ` set (adjacency edges) = e_from ` set edges"
proof -
  have "fst ` set (fold (\<lambda>e adj. AList.update (e_from e) (succs adj (e_from e) @ [e_to e]) adj) es adj)
      = fst ` set adj \<union> e_from ` set es" for es adj
    by (induction es arbitrary: adj) (auto simp: dom_update)
  from this [of edges "[]"] show ?thesis by (simp add: adjacency_def image_image case_prod_beta)
qed

text \<open>The rank of a node is one more than the largest rank of a predecessor, 0 without one.\<close>

lemma layerNodes_rank:
  assumes "\<forall>e \<in> set edges. e_from e \<in> fst ` set nodes \<and> e_to e \<in> fst ` set nodes"
    and "distinct (map fst nodes)" and "\<forall>u. \<not> (edge_rel edges)\<^sup>+\<^sup>+ u u"
  shows "layerNodes nodes edges v =
           Max (insert 0 ((\<lambda>u. layerNodes nodes edges u + 1) ` {u. edge_rel edges u v}))"
proof -
  let ?adj = "adjacency edges" and ?N = "fst ` set nodes"
  let ?s = "\<lparr>ls_rank = \<lambda>_. 0, ls_indeg = adj_indeg ?adj,
              ls_queue = filter (\<lambda>i. adj_indeg ?adj i = 0) (sortedNodeKeys nodes)\<rparr>"
  have keys: "fst ` set ?adj \<subseteq> ?N" using assms(1) by (auto simp: adjacency_keys)
  have tgt: "targets ?adj \<subseteq> ?N"
  proof
    fix v assume "v \<in> targets ?adj"
    then obtain k vs where "(k, vs) \<in> set ?adj" "v \<in> set vs" by (auto simp: targets_def)
    then have "adj_rel ?adj k v" using distinct_adjacency by (simp add: succs_def)
    then show "v \<in> ?N" using assms(1) by (auto simp: adj_rel_iff edge_rel_def)
  qed
  have noloop: "\<forall>u. \<not> adj_rel ?adj u u" using assms(3) by (auto simp: adj_rel_iff)
  have "layer_inv ?adj ?N {} ?s"
    using adj_indeg_succs [OF distinct_adjacency _ keys] assms(2)
    by (auto simp: layer_inv_def queue_ok_def pred_ranks_def sortedNodeKeys_def)
  then obtain P where P: "layer_inv ?adj ?N P (layer_loop ?adj ?s)" "ls_queue (layer_loop ?adj ?s) = []"
    using layer_loop_inv [OF _ _ tgt noloop] by blast
  have "P = ?N" using layer_inv_final [OF P] assms(3) by (simp add: adj_rel_adjacency)
  moreover have "ls_rank (layer_loop ?adj ?s) v =
      Max (insert 0 (pred_ranks ?adj P (ls_rank (layer_loop ?adj ?s)) v))"
    using P(1) by (simp only: layer_inv_def)
  moreover have "{u \<in> ?N. edge_rel edges u v} = {u. edge_rel edges u v}"
    using assms(1) by (auto simp: edge_rel_def)
  ultimately show ?thesis
    by (simp add: layerNodes_def Let_def pred_ranks_def adj_rel_iff)
qed

lemma layerNodes_mono:
  assumes "\<forall>e \<in> set edges. e_from e \<in> fst ` set nodes \<and> e_to e \<in> fst ` set nodes"
    and "distinct (map fst nodes)" and "\<forall>u. \<not> (edge_rel edges)\<^sup>+\<^sup>+ u u" and "edge_rel edges u v"
  shows "layerNodes nodes edges u < layerNodes nodes edges v"
proof -
  let ?S = "(\<lambda>u. layerNodes nodes edges u + 1) ` {u. edge_rel edges u v}"
  have "{u. edge_rel edges u v} \<subseteq> e_from ` set edges" by (auto simp: edge_rel_def)
  then have "finite ?S" by (meson List.finite_set finite_imageI finite_subset)
  then have "layerNodes nodes edges u + 1 \<le> Max (insert 0 ?S)"
    using assms(4) by (intro Max_ge) auto
  then show ?thesis using layerNodes_rank [OF assms(1-3), of v] by simp
qed

end
