(* ===== verification/MissionGraph.thy ===== *)
theory MissionGraph
  imports GraphCorrectness
begin

text \<open>
  \<open>analyse\<close>, \<open>Validate\<close> and \<open>Project\<close> of \<open>internal/engine/mission/graph\<close>: the structural
  checks that decide whether a mission definition may be stored and run, and the renderable
  graph the mission view shows.
\<close>

section \<open>Structural checks\<close>

datatype starts_from_reason =
    Is_the_node_itself | Does_not_exist | Does_not_run_before_it | Is_not_an_agent_node
  | Runs_another_agent

record starts_from_refusal =
  sr_node :: string
  sr_starts_from :: string
  sr_reason :: starts_from_reason

record validation_error =
  ve_empty :: bool
  ve_dangling_edges :: "dangling_edge list"
  ve_orphan_nodes :: "string list"
  ve_cycles :: "string list list"
  ve_nested_for_each :: "string list"
  ve_starts_from :: "starts_from_refusal list"

record analysis =
  an_nodes :: nodes
  an_edges :: "edge list"
  an_entry :: "string list"
  an_exit :: "string list"

definition starts_from_reason ::
  "nodes \<Rightarrow> adj \<Rightarrow> bool \<Rightarrow> string \<Rightarrow> mission_node \<Rightarrow> starts_from_reason option" where
  "starts_from_reason nodes adj hasCycle i n =
     (let frm = nf_starts_from (nfields n) in
      if frm = [] then None
      else if frm = i then Some Is_the_node_itself
      else case map_of nodes frm of
             None \<Rightarrow> Some Does_not_exist
           | Some m \<Rightarrow>
               if \<not> hasCycle \<and> \<not> reaches adj frm i then Some Does_not_run_before_it
               else case (nf_agent_config (nfields m), nf_agent_config (nfields n)) of
                      (Some a, Some b) \<Rightarrow> if a \<noteq> b then Some Runs_another_agent else None
                    | _ \<Rightarrow> Some Is_not_an_agent_node)"

definition findStartsFromRefusals ::
  "nodes \<Rightarrow> edge list \<Rightarrow> string list list \<Rightarrow> starts_from_refusal list" where
  "findStartsFromRefusals nodes edges cycs =
     concat (map (\<lambda>i. case map_of nodes i of
                         None \<Rightarrow> []
                       | Some n \<Rightarrow>
                           (case starts_from_reason nodes (adjacency edges) (cycs \<noteq> []) i n of
                              None \<Rightarrow> []
                            | Some r \<Rightarrow> [\<lparr>sr_node = i, sr_starts_from = nf_starts_from (nfields n),
                                         sr_reason = r\<rparr>]))
               (sortedNodeKeys nodes))"

definition analyse :: "mission_definition option \<Rightarrow> validation_error + analysis" where
  "analyse def_opt =
     (case def_opt of
        None \<Rightarrow> Inl \<lparr>ve_empty = True, ve_dangling_edges = [], ve_orphan_nodes = [],
                     ve_cycles = [], ve_nested_for_each = [], ve_starts_from = []\<rparr>
      | Some def \<Rightarrow>
          let (nodes, synthesized) = collect_nodes def;
              (edges, dang) = buildEdges def nodes synthesized;
              (inDeg, outDeg) = degrees edges;
              entry = deriveEndpoints (def_entry_points def) nodes inDeg;
              exit = deriveEndpoints (def_exit_points def) nodes outDeg;
              cycs = findCycles nodes edges;
              orphans = findOrphans nodes edges entry;
              nested = findNestedForEach nodes;
              startsFrom = findStartsFromRefusals nodes edges cycs
          in if dang \<noteq> [] \<or> orphans \<noteq> [] \<or> cycs \<noteq> [] \<or> nested \<noteq> [] \<or> startsFrom \<noteq> []
             then Inl \<lparr>ve_empty = False, ve_dangling_edges = dang, ve_orphan_nodes = orphans,
                       ve_cycles = cycs, ve_nested_for_each = nested, ve_starts_from = startsFrom\<rparr>
             else Inr \<lparr>an_nodes = nodes, an_edges = edges, an_entry = entry, an_exit = exit\<rparr>)"

definition Validate :: "mission_definition option \<Rightarrow> validation_error option" where
  "Validate def_opt = (case analyse def_opt of Inl e \<Rightarrow> Some e | Inr _ \<Rightarrow> None)"

section \<open>The renderable graph\<close>

record graph_node =
  gn_id :: string
  gn_kind :: string
  gn_name :: string
  gn_summary :: string
  gn_is_entry :: bool
  gn_is_exit :: bool
  gn_rank :: int
  gn_x :: float64
  gn_y :: float64
  gn_layout_source :: string

record viewport =
  vp_x :: float64
  vp_y :: float64
  vp_zoom :: float64

record mission_layout =
  ly_nodes :: "(string \<times> float64 \<times> float64) list"
  ly_viewport :: "viewport option"

record mission_graph =
  g_nodes :: "graph_node list"
  g_edges :: "edge list"
  g_entry_points :: "string list"
  g_exit_points :: "string list"
  g_viewport :: "viewport option"

fun kindOf :: "node_type \<Rightarrow> string" where
  "kindOf NODE_TYPE_AGENT = ''agent''"
| "kindOf NODE_TYPE_TOOL = ''tool''"
| "kindOf NODE_TYPE_PLUGIN = ''plugin''"
| "kindOf NODE_TYPE_CONDITION = ''condition''"
| "kindOf NODE_TYPE_PARALLEL = ''parallel''"
| "kindOf NODE_TYPE_JOIN = ''join''"
| "kindOf NODE_TYPE_JOB = ''job''"
| "kindOf NODE_TYPE_FOR_EACH = ''for_each''"
| "kindOf NODE_TYPE_UNSPECIFIED = ''unknown''"

definition displayName :: "mission_node \<Rightarrow> string" where
  "displayName n =
     (let name = TrimSpace (nf_name (nfields n)) in if name \<noteq> [] then name else node_id n)"

definition summarize :: "mission_node \<Rightarrow> string" where
  "summarize n =
     (case nf_agent_config (nfields n) of Some a \<Rightarrow> a | None \<Rightarrow>
      case nf_tool_config (nfields n) of Some t \<Rightarrow> t | None \<Rightarrow>
      case nf_plugin_config (nfields n) of
        Some p \<Rightarrow> (if plugin_method p \<noteq> [] then plugin_name p @ ''.'' @ plugin_method p
                  else plugin_name p)
      | None \<Rightarrow>
      case nf_condition_config (nfields n) of Some c \<Rightarrow> expression c | None \<Rightarrow>
      case parallel_config n of
        Some p \<Rightarrow> (if parallel_max_concurrency p > 0
                  then ''max_concurrency='' @ itoa (parallel_max_concurrency p) else [])
      | None \<Rightarrow>
      case for_each_config n of
        Some f \<Rightarrow> TrimPrefix (for_each_source f) ''SOURCE_'' @
                  (if for_each_max_concurrency f > 0
                   then '' max_concurrency='' @ itoa (for_each_max_concurrency f) else [])
      | None \<Rightarrow>
      case nf_join_config (nfields n) of Some ws \<Rightarrow> join '', '' ws | None \<Rightarrow>
      case nf_job_config (nfields n) of Some b \<Rightarrow> b | None \<Rightarrow> [])"

text \<open>The last saved position of a node wins, as the map write does.\<close>

definition savedPositions :: "mission_layout option \<Rightarrow> string \<Rightarrow> (float64 \<times> float64) option" where
  "savedPositions layout =
     (case layout of None \<Rightarrow> Map.empty
      | Some l \<Rightarrow> fold (\<lambda>(i, x, y) out. out(i \<mapsto> (x, y))) (ly_nodes l) Map.empty)"

text \<open>
  \<open>x\<close> grows with the rank, \<open>y\<close> with the place among the nodes of the same rank; both factors
  are small integers, so the products are exact doubles.
\<close>

definition autoPositions :: "nodes \<Rightarrow> (string \<Rightarrow> int) \<Rightarrow> string \<Rightarrow> float64 \<times> float64" where
  "autoPositions nodes ranks i =
     (let ids = sort (filter (\<lambda>k. ranks k = ranks i) (sortedNodeKeys nodes))
      in case stack_start ids i of
           None \<Rightarrow> (Fin 0, Fin 0)
         | Some k \<Rightarrow> (Fin (of_int (ranks i) * 240), Fin (of_nat k * 120)))"

definition project_node ::
  "analysis \<Rightarrow> mission_layout option \<Rightarrow> (string \<Rightarrow> int) \<Rightarrow> string \<Rightarrow> mission_node \<Rightarrow> graph_node" where
  "project_node a layout ranks i n =
     (let (ax, ay) = autoPositions (an_nodes a) ranks i;
          (x, y, src) = (case savedPositions layout i of
                           Some (sx, sy) \<Rightarrow> (sx, sy, ''saved'') | None \<Rightarrow> (ax, ay, ''auto''))
      in \<lparr>gn_id = i, gn_kind = kindOf (nf_type (nfields n)), gn_name = displayName n,
          gn_summary = summarize n, gn_is_entry = i \<in> set (an_entry a),
          gn_is_exit = i \<in> set (an_exit a), gn_rank = to_int32 (ranks i),
          gn_x = x, gn_y = y, gn_layout_source = src\<rparr>)"

definition Project ::
  "mission_definition option \<Rightarrow> mission_layout option \<Rightarrow> validation_error + mission_graph" where
  "Project def_opt layout =
     (case analyse def_opt of
        Inl e \<Rightarrow> Inl e
      | Inr a \<Rightarrow>
          let ranks = layerNodes (an_nodes a) (an_edges a)
          in Inr \<lparr>g_nodes = concat (map (\<lambda>i. case map_of (an_nodes a) i of
                                               None \<Rightarrow> []
                                             | Some n \<Rightarrow> [project_node a layout ranks i n])
                                     (sortedNodeKeys (an_nodes a))),
                  g_edges = an_edges a, g_entry_points = an_entry a, g_exit_points = an_exit a,
                  g_viewport = Option.bind layout ly_viewport\<rparr>)"

section \<open>The node index\<close>

lemma distinct_collectNode:
  "distinct (map fst (fst acc)) \<Longrightarrow> distinct (map fst (fst (collectNode i n acc)))"
proof (induction i n acc rule: collectNode.induct)
  case (1 i n acc)
  have step: "distinct (map fst (fst acc')) \<Longrightarrow> distinct (map fst (fst (fold (\<lambda>child acc.
      if node_id child = [] then acc
      else collectNode (node_id child) child
             (fst acc, snd acc @ [\<lparr>e_from = i, e_to = node_id child,
                e_condition = [], e_role = []\<rparr>])) cs acc')))"
    if "i \<noteq> []" "parallel_config n = Some p" "set cs \<subseteq> set (sub_nodes p)" for p cs acc'
    using that(3)
  proof (induction cs arbitrary: acc')
    case (Cons c cs)
    then show ?case
      using 1(1) [OF that(1) refl that(2), of c] by (simp add: that)
  qed simp
  let ?upd = "(AList.update i n (fst acc), snd acc)"
  let ?par = "case parallel_config n of None \<Rightarrow> ?upd
    | Some p \<Rightarrow> fold (\<lambda>child acc.
        if node_id child = [] then acc
        else collectNode (node_id child) child
               (fst acc, snd acc @ [\<lparr>e_from = i, e_to = node_id child,
                  e_condition = [], e_role = []\<rparr>])) (sub_nodes p) ?upd"
  show ?case
  proof (cases "i = []")
    case True
    with 1(3) show ?thesis by (simp add: collectNode.simps)
  next
    case False
    have par: "distinct (map fst (fst ?par))"
      using step [OF False _ subset_refl] 1(3) by (auto simp: distinct_update split: option.splits)
    show ?thesis
    proof (cases "Option.bind (for_each_config n) template")
      case None
      with False par show ?thesis
        by (subst collectNode.simps) (auto simp: Let_def split: option.splits)
    next
      case (Some tpl)
      then obtain f where f: "for_each_config n = Some f" "template f = Some tpl"
        by (cases "for_each_config n") auto
      show ?thesis
        using 1(2) [OF False refl refl f] par False f
        by (subst collectNode.simps) (simp add: Let_def)
    qed
  qed
qed

lemma distinct_collect_nodes: "distinct (map fst (fst (collect_nodes def)))"
proof -
  have "distinct (map fst (fst acc)) \<Longrightarrow> distinct (map fst (fst (fold (\<lambda>i acc.
      case map_of (def_nodes def) i of Some (Some n) \<Rightarrow> collectNode i n acc | _ \<Rightarrow> acc) ids acc)))"
    for ids acc
    by (induction ids arbitrary: acc) (auto simp: distinct_collectNode split: option.splits)
  then show ?thesis by (simp add: collect_nodes_def)
qed

section \<open>The edge list\<close>

abbreviation pair_of :: "edge \<Rightarrow> string \<times> string" where
  "pair_of e \<equiv> (e_from e, e_to e)"

definition in_nodes :: "nodes \<Rightarrow> string \<times> string \<Rightarrow> bool" where
  "in_nodes nodes p \<longleftrightarrow> fst p \<in> fst ` set nodes \<and> snd p \<in> fst ` set nodes"

lemma map_of_None_keys: "map_of nodes i = None \<longleftrightarrow> i \<notin> fst ` set nodes"
  by (rule map_of_eq_None_iff)

text \<open>The \<open>seen\<close> map indexes the edge list: one entry per pair, at the pair's own position.\<close>

definition acc_ok :: "nodes \<Rightarrow> edge_acc \<Rightarrow> bool" where
  "acc_ok nodes acc \<longleftrightarrow>
     (\<forall>p i. seen acc p = Some i \<longleftrightarrow> i < length (outs acc) \<and> pair_of (outs acc ! i) = p) \<and>
     (\<forall>e \<in> set (outs acc). in_nodes nodes (pair_of e))"

definition pairs :: "edge_acc \<Rightarrow> (string \<times> string) set" where
  "pairs acc = pair_of ` set (outs acc)"

definition adds :: "nodes \<Rightarrow> (edge_acc \<Rightarrow> edge_acc) \<Rightarrow> (string \<times> string) set \<Rightarrow> bool" where
  "adds nodes f Q \<longleftrightarrow>
     (\<forall>acc. acc_ok nodes acc \<longrightarrow>
        acc_ok nodes (f acc) \<and> pairs (f acc) = pairs acc \<union> {p \<in> Q. in_nodes nodes p} \<and>
        (dangling (f acc) = [] \<longleftrightarrow> dangling acc = [] \<and> (\<forall>p \<in> Q. in_nodes nodes p)))"

lemma adds_id: "adds nodes (\<lambda>acc. acc) {}"
  by (simp add: adds_def)

lemma adds_comp: "adds nodes f Q \<Longrightarrow> adds nodes g R \<Longrightarrow> adds nodes (\<lambda>acc. g (f acc)) (Q \<union> R)"
  by (auto simp: adds_def)

lemma adds_fold:
  "(\<And>x. x \<in> set xs \<Longrightarrow> adds nodes (f x) (Q x)) \<Longrightarrow> adds nodes (fold f xs) (\<Union>x \<in> set xs. Q x)"
proof (induction xs)
  case Nil
  show ?case by (simp add: adds_def id_def)
next
  case (Cons x xs)
  then have "adds nodes (f x) (Q x)" "adds nodes (fold f xs) (\<Union>x \<in> set xs. Q x)" by auto
  from adds_comp [OF this] show ?case by (simp add: comp_def)
qed

lemma acc_ok_dangling [simp]: "acc_ok nodes (acc\<lparr>dangling := ds\<rparr>) = acc_ok nodes acc"
  by (simp add: acc_ok_def)

lemma adds_add_edge: "adds nodes (add_edge nodes src e) {pair_of e}"
proof -
  have "acc_ok nodes (add_edge nodes src e acc) \<and>
        pairs (add_edge nodes src e acc) = pairs acc \<union> {p \<in> {pair_of e}. in_nodes nodes p} \<and>
        (dangling (add_edge nodes src e acc) = [] \<longleftrightarrow>
           dangling acc = [] \<and> (\<forall>p \<in> {pair_of e}. in_nodes nodes p))"
    if ok: "acc_ok nodes acc" for acc
  proof (cases "seen acc (pair_of e)")
    case (Some i)
    then have "outs acc ! i \<in> set (outs acc)" "pair_of (outs acc ! i) = pair_of e"
      using ok by (auto simp: acc_ok_def)
    then have "in_nodes nodes (pair_of e)" "pair_of e \<in> pairs acc"
      using ok by (auto simp: acc_ok_def pairs_def intro: rev_image_eqI)
    with Some ok show ?thesis by (auto simp: add_edge_def)
  next
    case None
    show ?thesis
    proof (cases "in_nodes nodes (pair_of e)")
      case True
      have fresh: "\<not> (i < length (outs acc) \<and> e_from (outs acc ! i) = e_from e \<and>
                      e_to (outs acc ! i) = e_to e)" for i
        using ok None unfolding acc_ok_def by (metis option.distinct(1))
      have "acc_ok nodes (acc\<lparr>seen := (seen acc)(pair_of e \<mapsto> length (outs acc)),
                              outs := outs acc @ [e]\<rparr>)"
        using ok True fresh by (auto simp: acc_ok_def nth_append less_Suc_eq)
      moreover have "map_of nodes (e_from e) \<noteq> None" "map_of nodes (e_to e) \<noteq> None"
        using True by (simp_all add: in_nodes_def map_of_None_keys)
      ultimately show ?thesis
        using True None by (auto simp: add_edge_def pairs_def simp del: map_of_eq_None_iff)
    next
      case False
      then have "map_of nodes (e_from e) = None \<or> map_of nodes (e_to e) = None"
        by (simp add: in_nodes_def map_of_None_keys)
      with None ok False show ?thesis
        by (auto simp: add_edge_def pairs_def simp del: map_of_eq_None_iff)
    qed
  qed
  then show ?thesis by (simp add: adds_def)
qed

lemma acc_okD:
  assumes "acc_ok nodes acc"
  shows "seen acc p = Some i \<longleftrightarrow> i < length (outs acc) \<and> pair_of (outs acc ! i) = p"
    and "q \<in> pair_of ` set (outs acc) \<Longrightarrow> in_nodes nodes q"
  using assms unfolding acc_ok_def by blast+

lemma acc_okI:
  assumes "\<And>p i. seen acc p = Some i \<longleftrightarrow> i < length (outs acc) \<and> pair_of (outs acc ! i) = p"
    and "\<And>q. q \<in> pair_of ` set (outs acc) \<Longrightarrow> in_nodes nodes q"
  shows "acc_ok nodes acc"
  using assms unfolding acc_ok_def by blast

lemma acc_ok_same_pairs:
  assumes "acc_ok nodes acc" "map pair_of xs = map pair_of (outs acc)"
  shows "acc_ok nodes (acc\<lparr>outs := xs\<rparr>)" "pairs (acc\<lparr>outs := xs\<rparr>) = pairs acc"
proof -
  have len: "length xs = length (outs acc)" using assms(2) by (rule map_eq_imp_length_eq)
  have nth: "pair_of (xs ! k) = pair_of (outs acc ! k)" if "k < length (outs acc)" for k
    using that arg_cong [OF assms(2), of "\<lambda>ys. ys ! k"] by (simp add: len)
  have img: "pair_of ` set xs = pair_of ` set (outs acc)"
    using arg_cong [OF assms(2), of set] by (simp only: list.set_map)
  then show "pairs (acc\<lparr>outs := xs\<rparr>) = pairs acc" by (simp add: pairs_def)
  show "acc_ok nodes (acc\<lparr>outs := xs\<rparr>)"
  proof (rule acc_okI)
    show "seen (acc\<lparr>outs := xs\<rparr>) p = Some k \<longleftrightarrow>
        k < length (outs (acc\<lparr>outs := xs\<rparr>)) \<and> pair_of (outs (acc\<lparr>outs := xs\<rparr>) ! k) = p" for p k
      using acc_okD(1) [OF assms(1), of p k] nth [of k] len by auto
    show "in_nodes nodes q" if "q \<in> pair_of ` set (outs (acc\<lparr>outs := xs\<rparr>))" for q
      using acc_okD(2) [OF assms(1)] that img by simp
  qed
qed

lemma adds_tagRole: "adds nodes (tagRole f t role) {}"
proof -
  have "acc_ok nodes (tagRole f t role acc) \<and> pairs (tagRole f t role acc) = pairs acc \<and>
        dangling (tagRole f t role acc) = dangling acc" if ok: "acc_ok nodes acc" for acc
  proof (cases "seen acc (f, t)")
    case (Some i)
    then have "i < length (outs acc)" using acc_okD(1) [OF ok] by simp
    then have "map pair_of ((outs acc)[i := (outs acc ! i)\<lparr>e_role := role\<rparr>]) = map pair_of (outs acc)"
      by (intro nth_equalityI) (simp_all add: nth_list_update)
    from acc_ok_same_pairs [OF ok this] show ?thesis
      by (simp add: tagRole_def Some ok)
  qed (simp add: tagRole_def ok)
  then show ?thesis unfolding adds_def by simp
qed

lemma adds_add_branch: "adds nodes (add_branch nodes i role src t) {(i, t)}"
proof -
  let ?e = "\<lparr>e_from = i, e_to = t, e_condition = [], e_role = role\<rparr>"
  have "adds nodes (\<lambda>acc. tagRole i t role (add_edge nodes src ?e acc)) ({pair_of ?e} \<union> {})"
    by (rule adds_comp [OF adds_add_edge adds_tagRole])
  then show ?thesis by (simp add: add_branch_def [abs_def])
qed

text \<open>The pairs a definition declares, whether or not their ends exist.\<close>

definition branch_pairs :: "nodes \<Rightarrow> string \<Rightarrow> (string \<times> string) set" where
  "branch_pairs nodes i =
     (case Option.bind (map_of nodes i) (\<lambda>n. nf_condition_config (nfields n)) of
        None \<Rightarrow> {} | Some c \<Rightarrow> Pair i ` set (true_branch c @ false_branch c))"

definition wait_pairs :: "nodes \<Rightarrow> string \<Rightarrow> (string \<times> string) set" where
  "wait_pairs nodes i =
     (case Option.bind (map_of nodes i) (\<lambda>n. nf_join_config (nfields n)) of
        None \<Rightarrow> {} | Some ups \<Rightarrow> (\<lambda>u. (u, i)) ` set ups)"

definition declared_pairs ::
  "mission_definition \<Rightarrow> nodes \<Rightarrow> edge list \<Rightarrow> (string \<times> string) set" where
  "declared_pairs def nodes synthesized =
     (\<lambda>e. (me_from e, me_to e)) ` set (def_edges def) \<union> pair_of ` set synthesized \<union>
     (\<Union>i \<in> fst ` set nodes. branch_pairs nodes i \<union> wait_pairs nodes i)"

lemma adds_add_condition: "adds nodes (add_condition nodes i) (branch_pairs nodes i)"
proof (cases "Option.bind (map_of nodes i) (\<lambda>n. nf_condition_config (nfields n))")
  case None
  then have "add_condition nodes i = (\<lambda>acc. acc)"
    by (auto simp: add_condition_def fun_eq_iff bind_eq_None_conv split: option.splits)
  with None show ?thesis by (simp add: branch_pairs_def adds_id)
next
  case (Some c)
  then have eq: "add_condition nodes i =
      (\<lambda>acc. fold (add_branch nodes i roleConditionFalse ''condition.false'') (false_branch c)
         (fold (add_branch nodes i roleConditionTrue ''condition.true'') (true_branch c) acc))"
    by (auto simp: add_condition_def fun_eq_iff bind_eq_Some_conv split: option.splits)
  have sets: "(\<Union>t \<in> set (true_branch c). {(i, t)}) \<union> (\<Union>t \<in> set (false_branch c). {(i, t)}) =
      Pair i ` set (true_branch c @ false_branch c)" by auto
  show ?thesis
    unfolding eq branch_pairs_def Some option.case sets [symmetric]
    by (rule adds_comp [OF adds_fold [OF adds_add_branch] adds_fold [OF adds_add_branch]])
qed

lemma adds_add_join: "adds nodes (add_join nodes i) (wait_pairs nodes i)"
proof (cases "Option.bind (map_of nodes i) (\<lambda>n. nf_join_config (nfields n))")
  case None
  then have "add_join nodes i = (\<lambda>acc. acc)"
    by (auto simp: add_join_def fun_eq_iff bind_eq_None_conv split: option.splits)
  with None show ?thesis by (simp add: wait_pairs_def adds_id)
next
  case (Some ups)
  then have eq: "add_join nodes i =
      fold (\<lambda>up. add_edge nodes ''join.wait_for''
              \<lparr>e_from = up, e_to = i, e_condition = [], e_role = []\<rparr>) ups"
    by (auto simp: add_join_def fun_eq_iff bind_eq_Some_conv split: option.splits)
  have "adds nodes (add_join nodes i) (\<Union>u \<in> set ups. {(u, i)})"
    unfolding eq
    by (rule adds_fold) (use adds_add_edge [of nodes _ "\<lparr>e_from = _, e_to = i, e_condition = [], e_role = []\<rparr>"] in simp)
  moreover have "(\<Union>u \<in> set ups. {(u, i)}) = wait_pairs nodes i"
    by (auto simp: wait_pairs_def Some)
  ultimately show ?thesis by simp
qed

lemma set_sortedNodeKeys: "set (sortedNodeKeys m) = fst ` set m"
  by (simp add: sortedNodeKeys_def)

lemma adds_edges:
  "adds nodes (\<lambda>acc. fold (add_join nodes) (sortedNodeKeys nodes)
       (fold (add_condition nodes) (sortedNodeKeys nodes)
          (fold (add_edge nodes ''parallel'') synthesized
             (fold (\<lambda>e. add_edge nodes ''edge''
                           \<lparr>e_from = me_from e, e_to = me_to e, e_condition = me_condition e,
                            e_role = []\<rparr>)
                (def_edges def) acc)))) (declared_pairs def nodes synthesized)"
proof -
  have explicit: "adds nodes (add_edge nodes ''edge''
      \<lparr>e_from = me_from e, e_to = me_to e, e_condition = me_condition e, e_role = []\<rparr>)
      {(me_from e, me_to e)}" for e
    using adds_add_edge [of nodes "''edge''"
        "\<lparr>e_from = me_from e, e_to = me_to e, e_condition = me_condition e, e_role = []\<rparr>"] by simp
  have sets: "(\<Union>e \<in> set (def_edges def). {(me_from e, me_to e)}) \<union>
      (\<Union>e \<in> set synthesized. {pair_of e}) \<union>
      (\<Union>i \<in> set (sortedNodeKeys nodes). branch_pairs nodes i) \<union>
      (\<Union>i \<in> set (sortedNodeKeys nodes). wait_pairs nodes i) =
      declared_pairs def nodes synthesized"
    by (auto simp: declared_pairs_def set_sortedNodeKeys)
  show ?thesis
    unfolding sets [symmetric]
    by (rule adds_comp [OF adds_comp [OF adds_comp [OF
              adds_fold [OF explicit] adds_fold [OF adds_add_edge]]
            adds_fold [OF adds_add_condition]] adds_fold [OF adds_add_join]])
qed

lemma buildEdges_props:
  assumes "buildEdges def nodes synthesized = (edges, dang)"
  shows "edge_rel edges u v \<longleftrightarrow>
           (u, v) \<in> declared_pairs def nodes synthesized \<and> in_nodes nodes (u, v)"
    and "dang = [] \<longleftrightarrow> (\<forall>p \<in> declared_pairs def nodes synthesized. in_nodes nodes p)"
    and "distinct (map pair_of edges)"
proof -
  let ?acc = "edges_acc def nodes synthesized"
  have "acc_ok nodes \<lparr>seen = Map.empty, outs = [], dangling = []\<rparr>"
    by (simp add: acc_ok_def)
  with adds_edges [of nodes synthesized def]
  have *: "acc_ok nodes ?acc"
    "pairs ?acc = {p \<in> declared_pairs def nodes synthesized. in_nodes nodes p}"
    "dangling ?acc = [] \<longleftrightarrow> (\<forall>p \<in> declared_pairs def nodes synthesized. in_nodes nodes p)"
    by (simp_all add: adds_def edges_acc_def pairs_def)
  have edges: "mset edges = mset (outs ?acc)" and dang: "dang = dangling ?acc"
    using assms by (auto simp: buildEdges_def Let_def)
  have "pairs ?acc = pair_of ` set edges"
    using mset_eq_setD [OF edges] by (simp add: pairs_def)
  then show "edge_rel edges u v \<longleftrightarrow>
      (u, v) \<in> declared_pairs def nodes synthesized \<and> in_nodes nodes (u, v)"
    using *(2) by (auto simp: edge_rel_def image_iff set_eq_iff)
  show "dang = [] \<longleftrightarrow> (\<forall>p \<in> declared_pairs def nodes synthesized. in_nodes nodes p)"
    by (simp add: dang *(3))
  have "distinct (map pair_of (outs ?acc))"
  proof (subst distinct_conv_nth, intro allI impI notI)
    fix i j
    assume ij: "i < length (map pair_of (outs ?acc))" "j < length (map pair_of (outs ?acc))"
      "i \<noteq> j" "map pair_of (outs ?acc) ! i = map pair_of (outs ?acc) ! j"
    then have "seen ?acc (pair_of (outs ?acc ! i)) = Some i" "seen ?acc (pair_of (outs ?acc ! i)) = Some j"
      using *(1) by (simp_all add: acc_ok_def)
    with ij(3) show False by simp
  qed
  then show "distinct (map pair_of edges)"
    using mset_eq_imp_distinct_iff [of "map pair_of edges" "map pair_of (outs ?acc)"]
    by (simp add: edges)
qed

section \<open>Soundness and completeness of the checks\<close>

definition starts_from_ok :: "nodes \<Rightarrow> edge list \<Rightarrow> string \<Rightarrow> mission_node \<Rightarrow> bool" where
  "starts_from_ok nodes edges i n \<longleftrightarrow>
     (let f = nf_starts_from (nfields n) in
      f = [] \<or>
      f \<noteq> i \<and> (\<exists>m a. map_of nodes f = Some m \<and> (edge_rel edges)\<^sup>+\<^sup>+ f i \<and>
                    nf_agent_config (nfields m) = Some a \<and> nf_agent_config (nfields n) = Some a))"

text \<open>
  What a sound mission is, without reference to the search algorithms: every declared edge has
  both ends, no node waits on itself, every node is reached from an entry point, no for-each is
  the template of another, and a node may start only from an ancestor that runs the same agent.
\<close>

definition mission_sound :: "mission_definition \<Rightarrow> nodes \<Rightarrow> edge list \<Rightarrow> edge list \<Rightarrow> bool" where
  "mission_sound def nodes synthesized edges \<longleftrightarrow>
     (\<forall>p \<in> declared_pairs def nodes synthesized. in_nodes nodes p) \<and>
     (\<forall>u. \<not> (edge_rel edges)\<^sup>+\<^sup>+ u u) \<and>
     (\<forall>i \<in> fst ` set nodes. \<exists>s \<in> set (deriveEndpoints (def_entry_points def) nodes (fst (degrees edges))).
          (edge_rel edges)\<^sup>*\<^sup>* s i) \<and>
     (\<forall>(i, n) \<in> set nodes. \<not> nested_for_each n \<and> starts_from_ok nodes edges i n)"

lemma sources_in_nodes:
  "buildEdges def nodes synthesized = (edges, dang) \<Longrightarrow> e \<in> set edges \<Longrightarrow> e_from e \<in> fst ` set nodes"
  "buildEdges def nodes synthesized = (edges, dang) \<Longrightarrow> e \<in> set edges \<Longrightarrow> e_to e \<in> fst ` set nodes"
  using buildEdges_props(1) [of def nodes synthesized edges dang "e_from e" "e_to e"]
  by (auto simp: edge_rel_def in_nodes_def)

lemma findNestedForEach_Nil_iff:
  "findNestedForEach nodes = [] \<longleftrightarrow> (\<forall>(i, n) \<in> set nodes. \<not> nested_for_each n)"
proof -
  have "set (findNestedForEach nodes) = fst ` {(i, n) \<in> set nodes. nested_for_each n}"
    by (auto simp: findNestedForEach_def)
  then show ?thesis by (auto simp flip: set_empty)
qed

lemma findStartsFromRefusals_Nil_iff:
  assumes "distinct (map fst nodes)"
  shows "findStartsFromRefusals nodes edges [] = [] \<longleftrightarrow>
         (\<forall>(i, n) \<in> set nodes. starts_from_ok nodes edges i n)"
proof -
  have step: "starts_from_reason nodes (adjacency edges) False i n = None \<longleftrightarrow>
      starts_from_ok nodes edges i n" for i n
    by (auto simp: starts_from_reason_def starts_from_ok_def Let_def reaches_correct
        adj_rel_adjacency split: option.splits)
  show ?thesis
    using assms
    by (force simp: findStartsFromRefusals_def step [symmetric] set_sortedNodeKeys
        split: option.splits)
qed

lemma analyse_eq:
  assumes "collect_nodes def = (nodes, synthesized)"
    and "buildEdges def nodes synthesized = (edges, dang)"
  shows "analyse (Some def) =
    (if mission_sound def nodes synthesized edges
     then Inr \<lparr>an_nodes = nodes, an_edges = edges,
            an_entry = deriveEndpoints (def_entry_points def) nodes (fst (degrees edges)),
            an_exit = deriveEndpoints (def_exit_points def) nodes (snd (degrees edges))\<rparr>
     else Inl \<lparr>ve_empty = False, ve_dangling_edges = dang,
            ve_orphan_nodes = findOrphans nodes edges
              (deriveEndpoints (def_entry_points def) nodes (fst (degrees edges))),
            ve_cycles = findCycles nodes edges, ve_nested_for_each = findNestedForEach nodes,
            ve_starts_from = findStartsFromRefusals nodes edges (findCycles nodes edges)\<rparr>)"
proof -
  let ?cyc = "findCycles nodes edges"
  let ?entry = "deriveEndpoints (def_entry_points def) nodes (fst (degrees edges))"
  have dist: "distinct (map fst nodes)"
    using distinct_collect_nodes [of def] assms(1) by simp
  have cyc: "?cyc = [] \<longleftrightarrow> (\<forall>u. \<not> (edge_rel edges)\<^sup>+\<^sup>+ u u)"
    by (rule findCycles_Nil_iff) (use sources_in_nodes(1) [OF assms(2)] in blast)
  have "mission_sound def nodes synthesized edges \<longleftrightarrow>
      dang = [] \<and> ?cyc = [] \<and> findOrphans nodes edges ?entry = [] \<and> findNestedForEach nodes = [] \<and>
      findStartsFromRefusals nodes edges ?cyc = []"
    unfolding mission_sound_def buildEdges_props(2) [OF assms(2)] cyc
      findOrphans_Nil_iff findNestedForEach_Nil_iff
    using findStartsFromRefusals_Nil_iff [OF dist, of edges] cyc by auto
  then show ?thesis
    by (auto simp: analyse_def assms Let_def split: prod.split)
qed

section \<open>The longest-path layering\<close>

lemma layerNodes_initial:
  assumes "\<forall>e \<in> set edges. e_from e \<in> fst ` set nodes \<and> e_to e \<in> fst ` set nodes"
    and "distinct (map fst nodes)" and "\<forall>u. \<not> (edge_rel edges)\<^sup>+\<^sup>+ u u"
    and "v \<in> fst ` set nodes" and "0 \<le> k" and "k \<le> layerNodes nodes edges v"
  shows "\<exists>u \<in> fst ` set nodes. layerNodes nodes edges u = k"
  using assms(4,6)
proof (induction "nat (layerNodes nodes edges v)" arbitrary: v rule: less_induct)
  case less
  let ?r = "layerNodes nodes edges"
  let ?S = "(\<lambda>u. ?r u + 1) ` {u. edge_rel edges u v}"
  show ?case
  proof (cases "?r v = k")
    case False
    have fin: "finite (insert 0 ?S)"
      using finite_subset [of "{u. edge_rel edges u v}" "e_from ` set edges"]
      by (auto simp: edge_rel_def)
    have "?r v \<in> insert 0 ?S"
      unfolding layerNodes_rank [OF assms(1-3), of v] by (rule Max_in [OF fin]) simp
    then obtain u where u: "edge_rel edges u v" "?r v = ?r u + 1"
      using False less.prems assms(5) by auto
    then have "u \<in> fst ` set nodes" using assms(1) by (auto simp: edge_rel_def)
    then show ?thesis using less.hyps [of u] u False less.prems assms(5) by auto
  qed (use less.prems in blast)
qed

lemma layerNodes_bounds:
  assumes "\<forall>e \<in> set edges. e_from e \<in> fst ` set nodes \<and> e_to e \<in> fst ` set nodes"
    and "distinct (map fst nodes)" and "\<forall>u. \<not> (edge_rel edges)\<^sup>+\<^sup>+ u u"
    and "v \<in> fst ` set nodes"
  shows "0 \<le> layerNodes nodes edges v" "layerNodes nodes edges v < int (length nodes)"
proof -
  let ?r = "layerNodes nodes edges"
  have fin: "finite (insert 0 ((\<lambda>u. ?r u + 1) ` {u. edge_rel edges u v}))"
    using finite_subset [of "{u. edge_rel edges u v}" "e_from ` set edges"]
    by (auto simp: edge_rel_def)
  show nonneg: "0 \<le> ?r v"
    unfolding layerNodes_rank [OF assms(1-3), of v] by (rule Max_ge [OF fin]) simp
  have "{0..?r v} \<subseteq> ?r ` fst ` set nodes"
    using layerNodes_initial [OF assms] by force
  then have "card {0..?r v} \<le> card (?r ` fst ` set nodes)" by (intro card_mono) auto
  also have "\<dots> \<le> card (fst ` set nodes)" by (rule card_image_le) simp
  also have "\<dots> \<le> length nodes"
    using card_image_le [of "set nodes" fst] card_length [of nodes] by simp
  finally show "?r v < int (length nodes)" using nonneg by simp
qed

lemma Project_Inr:
  assumes "Project (Some def) layout = Inr g"
  obtains nodes edges entry exit where
    "distinct (map fst nodes)"
    and "\<forall>e \<in> set edges. e_from e \<in> fst ` set nodes \<and> e_to e \<in> fst ` set nodes"
    and "\<forall>u. \<not> (edge_rel edges)\<^sup>+\<^sup>+ u u"
    and "g_edges g = edges"
    and "g_nodes g = map (\<lambda>i. project_node \<lparr>an_nodes = nodes, an_edges = edges, an_entry = entry,
           an_exit = exit\<rparr> layout (layerNodes nodes edges) i (the (map_of nodes i)))
         (sortedNodeKeys nodes)"
proof -
  obtain nodes synthesized where c: "collect_nodes def = (nodes, synthesized)" by force
  obtain edges dang where b: "buildEdges def nodes synthesized = (edges, dang)" by force
  have sound: "mission_sound def nodes synthesized edges"
    using assms by (auto simp: Project_def analyse_eq [OF c b] split: if_splits)
  have shape: "g_edges g = edges" and
    gn: "g_nodes g = concat (map (\<lambda>i. case map_of nodes i of None \<Rightarrow> []
        | Some n \<Rightarrow> [project_node \<lparr>an_nodes = nodes, an_edges = edges,
            an_entry = deriveEndpoints (def_entry_points def) nodes (fst (degrees edges)),
            an_exit = deriveEndpoints (def_exit_points def) nodes (snd (degrees edges))\<rparr>
            layout (layerNodes nodes edges) i n]) (sortedNodeKeys nodes))"
    using assms by (auto simp: Project_def analyse_eq [OF c b] sound)
  have "concat (map (\<lambda>i. case map_of nodes i of None \<Rightarrow> [] | Some n \<Rightarrow> [f i n]) ks) =
      map (\<lambda>i. f i (the (map_of nodes i))) ks" if "set ks \<subseteq> fst ` set nodes"
    for ks and f :: "string \<Rightarrow> mission_node \<Rightarrow> graph_node"
    using that
  proof (induction ks)
    case (Cons k ks)
    then obtain n where "map_of nodes k = Some n"
      by (cases "map_of nodes k") (auto simp: map_of_None_keys)
    with Cons show ?case by simp
  qed simp
  note flat = this [OF equalityD1 [OF set_sortedNodeKeys]]
  show ?thesis
  proof (rule that)
    show "distinct (map fst nodes)" using distinct_collect_nodes [of def] c by simp
    show "\<forall>e \<in> set edges. e_from e \<in> fst ` set nodes \<and> e_to e \<in> fst ` set nodes"
      using sources_in_nodes [OF b] by blast
    show "\<forall>u. \<not> (edge_rel edges)\<^sup>+\<^sup>+ u u" using sound by (simp add: mission_sound_def)
  qed (simp_all only: shape gn flat)
qed

lemma project_node_simps [simp]:
  "gn_id (project_node a layout ranks i n) = i"
  "gn_rank (project_node a layout ranks i n) = to_int32 (ranks i)"
  by (auto simp: project_node_def Let_def split: prod.splits)

lemma project_node_auto:
  assumes "gn_layout_source (project_node a layout ranks i n) = ''auto''"
  shows "(gn_x (project_node a layout ranks i n), gn_y (project_node a layout ranks i n)) =
         autoPositions (an_nodes a) ranks i"
proof (cases "savedPositions layout i")
  case None
  then show ?thesis by (simp add: project_node_def split_beta)
next
  case (Some p)
  with assms show ?thesis by (simp add: project_node_def split_beta)
qed

lemma autoPositions_eq:
  assumes "i \<in> fst ` set nodes"
  obtains k where
    "autoPositions nodes ranks i = (Fin (of_int (ranks i) * 240), Fin (of_nat k * 120))"
    and "sort (filter (\<lambda>k. ranks k = ranks i) (sortedNodeKeys nodes)) ! k = i"
proof -
  have "i \<in> set (sort (filter (\<lambda>k. ranks k = ranks i) (sortedNodeKeys nodes)))"
    using assms by (simp add: set_sortedNodeKeys)
  from stack_start_Some [OF this] show ?thesis
    using that by (auto simp: autoPositions_def Let_def)
qed

lemma autoPositions_inj:
  assumes "i \<in> fst ` set nodes" "j \<in> fst ` set nodes"
    and "autoPositions nodes ranks i = autoPositions nodes ranks j"
  shows "i = j"
proof -
  obtain k where k: "autoPositions nodes ranks i = (Fin (of_int (ranks i) * 240), Fin (of_nat k * 120))"
    "sort (filter (\<lambda>k. ranks k = ranks i) (sortedNodeKeys nodes)) ! k = i"
    using autoPositions_eq [OF assms(1)] by blast
  obtain l where l: "autoPositions nodes ranks j = (Fin (of_int (ranks j) * 240), Fin (of_nat l * 120))"
    "sort (filter (\<lambda>k. ranks k = ranks j) (sortedNodeKeys nodes)) ! l = j"
    using autoPositions_eq [OF assms(2)] by blast
  from assms(3) have eq: "ranks i = ranks j" "k = l" unfolding k(1) l(1) by simp_all
  from k(2) have "sort (filter (\<lambda>k. ranks k = ranks j) (sortedNodeKeys nodes)) ! l = i"
    unfolding eq .
  with l(2) show ?thesis by (rule trans [OF sym, rotated])
qed

section \<open>Properties\<close>

text \<open>
  C1: \<open>Validate\<close> accepts a definition exactly when it is sound: every declared edge (explicit,
  parallel or for-each child, condition branch, join wait) has both ends, the graph is acyclic,
  every node is reachable from an entry point, no for-each is nested in another, and every
  \<open>starts_from\<close> names an ancestor running the same agent. \<open>Project\<close> draws exactly those.
\<close>

theorem Validate_exact:
  "(Validate (Some def) = None \<longleftrightarrow>
      (let (nodes, synthesized) = collect_nodes def
       in mission_sound def nodes synthesized (fst (buildEdges def nodes synthesized)))) \<and>
   (Validate d = None \<longleftrightarrow> (\<exists>g. Project d layout = Inr g))"
proof -
  obtain nodes synthesized where c: "collect_nodes def = (nodes, synthesized)" by force
  obtain edges dang where b: "buildEdges def nodes synthesized = (edges, dang)" by force
  show ?thesis
    by (auto simp: Validate_def Project_def analyse_eq [OF c b] c b Let_def split: sum.splits)
qed

text \<open>
  \<open>buildEdges\<close> keeps exactly the declared pairs whose two ends are nodes, once each, and
  reports a dangling edge exactly when some declared pair has a missing end.
\<close>

theorem buildEdges_exact:
  "(edge_rel (fst (buildEdges def nodes synthesized)) u v \<longleftrightarrow>
      (u, v) \<in> declared_pairs def nodes synthesized \<and> in_nodes nodes (u, v)) \<and>
   (snd (buildEdges def nodes synthesized) = [] \<longleftrightarrow>
      declared_pairs def nodes synthesized \<subseteq> Collect (in_nodes nodes)) \<and>
   distinct (map pair_of (fst (buildEdges def nodes synthesized)))"
  using buildEdges_props [of def nodes synthesized "fst (buildEdges def nodes synthesized)"
      "snd (buildEdges def nodes synthesized)"] by auto

text \<open>
  C18: every cycle \<open>findCycles\<close> reports is a closed walk of the graph, written from its least
  node; and when every edge starts at a node, it reports none exactly when the graph is acyclic.
\<close>

theorem findCycles_exact:
  "(c \<in> set (findCycles nodes edges) \<longrightarrow>
      closed_walk (edge_rel edges) c \<and> (\<forall>x \<in> set c. hd c \<le> x)) \<and>
   (e_from ` set edges \<subseteq> fst ` set nodes \<longrightarrow>
      (findCycles nodes edges = [] \<longleftrightarrow> (\<forall>u. \<not> (edge_rel edges)\<^sup>+\<^sup>+ u u)))"
  using findCycles_sound [of c nodes edges] findCycles_Nil_iff [of edges nodes] by auto

definition demo_node :: "string \<Rightarrow> mission_node" where
  "demo_node i = MissionNode \<lparr>nf_id = i, nf_name = i, nf_type = NODE_TYPE_AGENT,
     nf_starts_from = [], nf_agent_config = Some ''recon'', nf_tool_config = None,
     nf_plugin_config = None, nf_condition_config = None, nf_join_config = None,
     nf_job_config = None\<rparr> None None"

definition demo_edge :: "string \<Rightarrow> string \<Rightarrow> edge" where
  "demo_edge f t = \<lparr>e_from = f, e_to = t, e_condition = [], e_role = []\<rparr>"

theorem findCycles_exact_witness:
  "closed_walk (edge_rel [demo_edge ''a'' ''b'', demo_edge ''b'' ''a'']) [''a'', ''b''] \<and>
   findCycles [(''b'', demo_node ''b''), (''a'', demo_node ''a'')]
     [demo_edge ''a'' ''b'', demo_edge ''b'' ''a''] = [[''a'', ''b'']] \<and>
   (\<forall>u. \<not> (edge_rel [demo_edge ''a'' ''b''])\<^sup>+\<^sup>+ u u)"
proof -
  have "findCycles [(''b'', demo_node ''b''), (''a'', demo_node ''a'')]
     [demo_edge ''a'' ''b'', demo_edge ''b'' ''a''] = [[''a'', ''b'']]"
    and "findCycles [(''a'', demo_node ''a''), (''b'', demo_node ''b'')]
     [demo_edge ''a'' ''b''] = []" by code_simp+
  then show ?thesis
    using findCycles_exact [of "[''a'', ''b'']" "[(''b'', demo_node ''b''), (''a'', demo_node ''a'')]"
        "[demo_edge ''a'' ''b'', demo_edge ''b'' ''a'']"]
      findCycles_exact [of _ "[(''a'', demo_node ''a''), (''b'', demo_node ''b'')]"
        "[demo_edge ''a'' ''b'']"]
    by (simp add: demo_edge_def)
qed

text \<open>
  C19: in a projected graph every edge joins two drawn nodes and goes strictly to the right: the
  32-bit rank of its target is larger than that of its source.
\<close>

theorem Project_ranks_increase:
  assumes "Project (Some def) layout = Inr g" and "length (g_nodes g) \<le> 2 ^ 31"
    and "e \<in> set (g_edges g)"
  shows "\<exists>n \<in> set (g_nodes g). \<exists>m \<in> set (g_nodes g).
           gn_id n = e_from e \<and> gn_id m = e_to e \<and> gn_rank n < gn_rank m"
proof -
  obtain nodes edges entry exit where g: "distinct (map fst nodes)"
    "\<forall>e \<in> set edges. e_from e \<in> fst ` set nodes \<and> e_to e \<in> fst ` set nodes"
    "\<forall>u. \<not> (edge_rel edges)\<^sup>+\<^sup>+ u u" "g_edges g = edges"
    "g_nodes g = map (\<lambda>i. project_node \<lparr>an_nodes = nodes, an_edges = edges, an_entry = entry,
       an_exit = exit\<rparr> layout (layerNodes nodes edges) i (the (map_of nodes i)))
       (sortedNodeKeys nodes)"
    using Project_Inr [OF assms(1)] by blast
  have ends: "e_from e \<in> fst ` set nodes" "e_to e \<in> fst ` set nodes" "edge_rel edges (e_from e) (e_to e)"
    using g(2,4) assms(3) by (auto simp: edge_rel_def)
  have len: "length nodes \<le> 2 ^ 31" using assms(2) g(5) by (simp add: sortedNodeKeys_def)
  have "to_int32 (layerNodes nodes edges v) = layerNodes nodes edges v" if "v \<in> fst ` set nodes" for v
    using layerNodes_bounds [OF g(2,1,3) that] len by (intro to_int32_id) simp_all
  then show ?thesis
    using layerNodes_mono [OF g(2,1,3) ends(3)] ends(1,2)
    by (auto simp: g(5) set_sortedNodeKeys intro!: bexI [of _ "e_from e"] bexI [of _ "e_to e"])
qed

definition demo_definition :: mission_definition where
  "demo_definition = \<lparr>def_nodes = [(''b'', Some (demo_node ''b'')), (''a'', Some (demo_node ''a''))],
     def_edges = [\<lparr>me_from = ''a'', me_to = ''b'', me_condition = []\<rparr>],
     def_entry_points = [], def_exit_points = []\<rparr>"

definition demo_graph :: mission_graph where
  "demo_graph = (case Project (Some demo_definition) None of Inr g \<Rightarrow> g | Inl _ \<Rightarrow> undefined)"

lemma demo_graph_props:
  "Project (Some demo_definition) None = Inr demo_graph \<and> length (g_nodes demo_graph) = 2 \<and>
   g_edges demo_graph = [demo_edge ''a'' ''b''] \<and>
   map gn_id (g_nodes demo_graph) = [''a'', ''b''] \<and>
   map gn_layout_source (g_nodes demo_graph) = [''auto'', ''auto'']"
  by code_simp

theorem Project_ranks_increase_witness:
  "\<exists>n \<in> set (g_nodes demo_graph). \<exists>m \<in> set (g_nodes demo_graph).
     gn_id n = ''a'' \<and> gn_id m = ''b'' \<and> gn_rank n < gn_rank m"
  using Project_ranks_increase [of demo_definition None demo_graph "demo_edge ''a'' ''b''"]
  by (simp add: demo_graph_props) (simp add: demo_edge_def)

text \<open>
  C20: the automatic layout never draws two nodes at the same place.
\<close>

theorem auto_layout_no_overlap:
  assumes "Project (Some def) layout = Inr g" and "n \<in> set (g_nodes g)" and "m \<in> set (g_nodes g)"
    and "gn_layout_source n = ''auto''" and "gn_layout_source m = ''auto''"
    and "gn_x n = gn_x m" and "gn_y n = gn_y m"
  shows "n = m"
proof -
  obtain nodes edges entry exit where
    g: "g_nodes g = map (\<lambda>i. project_node \<lparr>an_nodes = nodes, an_edges = edges, an_entry = entry,
       an_exit = exit\<rparr> layout (layerNodes nodes edges) i (the (map_of nodes i)))
       (sortedNodeKeys nodes)"
    using Project_Inr [OF assms(1)] by metis
  let ?a = "\<lparr>an_nodes = nodes, an_edges = edges, an_entry = entry, an_exit = exit\<rparr>"
  let ?p = "\<lambda>i. project_node ?a layout (layerNodes nodes edges) i (the (map_of nodes i))"
  have img: "set (g_nodes g) = ?p ` (fst ` set nodes)"
    unfolding g set_map set_sortedNodeKeys ..
  obtain i where i: "n = ?p i" "i \<in> fst ` set nodes"
    using assms(2) unfolding img by (rule imageE)
  obtain j where j: "m = ?p j" "j \<in> fst ` set nodes"
    using assms(3) unfolding img by (rule imageE)
  note ij = i(2,1) j(2,1)
  have "autoPositions nodes (layerNodes nodes edges) i = autoPositions nodes (layerNodes nodes edges) j"
    using project_node_auto [OF assms(4) [unfolded ij(2)]]
      project_node_auto [OF assms(5) [unfolded ij(4)]] assms(6,7) [unfolded ij(2,4)]
    by (simp only: analysis.simps)
  then have "i = j" by (rule autoPositions_inj [OF ij(1,3)])
  then show ?thesis by (simp only: ij(2,4))
qed

theorem auto_layout_no_overlap_witness:
  "\<not> (gn_x (g_nodes demo_graph ! 0) = gn_x (g_nodes demo_graph ! 1) \<and>
      gn_y (g_nodes demo_graph ! 0) = gn_y (g_nodes demo_graph ! 1))"
proof
  assume same: "gn_x (g_nodes demo_graph ! 0) = gn_x (g_nodes demo_graph ! 1) \<and>
      gn_y (g_nodes demo_graph ! 0) = gn_y (g_nodes demo_graph ! 1)"
  obtain n m where nm: "g_nodes demo_graph = [n, m]" "gn_id n = ''a''" "gn_id m = ''b''"
    "gn_layout_source n = ''auto''" "gn_layout_source m = ''auto''"
    using demo_graph_props by (auto simp: numeral_2_eq_2 length_Suc_conv)
  with same have "n = m"
    using auto_layout_no_overlap [of demo_definition None demo_graph n m] demo_graph_props by simp
  with nm show False by simp
qed

end
