(* ===== verification/JobTypes.thy ===== *)
theory JobTypes
  imports Prelude
begin

text \<open>
  The data of \<open>internal/platform/job\<close> (\<open>types.go\<close>, \<open>store.go\<close>, \<open>result.go\<close>) and of
  \<open>internal/platform/principal\<close>: principals, job specs, jobs, inputs and events, the request
  validation, and the result a closed job has.

  A Go string type with named constants is a datatype with the constants and one constructor for
  every other string. The protobuf messages are generated in another repository: a record field
  per getter the code calls; the context of a spec is a map, kept as an association list. A time is the
  number of microseconds since the epoch, the resolution of the database.
\<close>

type_synonym time = int

section \<open>Errors\<close>

datatype pkg = Pkg_job | Pkg_bank

datatype err =
    ErrInvalid pkg | ErrNotFound pkg string | ErrClosed string | ErrNoFreeSlot string
  | ErrAlreadyExists string | ErrTenant string | ErrMarshal | ErrUnique | ErrDB
  | ErrLauncher

section \<open>Principals\<close>

datatype principal_kind = User | Tenant | Component | Service | OtherKind string

record principal =
  p_kind :: principal_kind
  p_id :: string

definition IsZero :: "principal \<Rightarrow> bool" where
  "IsZero p \<longleftrightarrow> p_kind p = OtherKind [] \<and> p_id p = []"

fun kind_string :: "principal_kind \<Rightarrow> string" where
  "kind_string User = ''user''"
| "kind_string Tenant = ''tenant''"
| "kind_string Component = ''component''"
| "kind_string Service = ''service''"
| "kind_string (OtherKind s) = s"

definition Ref :: "principal \<Rightarrow> string" where
  "Ref p = (if IsZero p then [] else kind_string (p_kind p) @ '':'' @ p_id p)"

definition typedSubjectPrefixes :: "string list" where
  "typedSubjectPrefixes = [''agent_principal:'', ''tool_principal:'', ''plugin_principal:'']"

text \<open>An identity is read only through its subject.\<close>

definition KindOf :: "string \<Rightarrow> principal_kind" where
  "KindOf subject = (if \<exists>p \<in> set typedSubjectPrefixes. HasPrefix subject p then Component else User)"

definition FGAUser :: "string \<Rightarrow> string" where
  "FGAUser subject =
     (if \<exists>p \<in> set (typedSubjectPrefixes @ [''user:'']). HasPrefix subject p then subject
      else ''user:'' @ TrimPrefix subject ''spiffe://'')"

definition IDOf :: "string \<Rightarrow> string" where
  "IDOf subject = TrimPrefix (FGAUser subject) ''user:''"

definition FromIdentity :: "string \<Rightarrow> principal" where
  "FromIdentity subject = \<lparr>p_kind = KindOf subject, p_id = IDOf subject\<rparr>"

section \<open>Jobs\<close>

datatype job_state = StateOpen | StateWorking | StateWaiting | StateClosed | StateOther string

definition IsState :: "job_state \<Rightarrow> bool" where
  "IsState s = (case s of StateOther _ \<Rightarrow> False | _ \<Rightarrow> True)"

datatype verdict = VerdictAccomplished | VerdictFailed | VerdictAbandoned | VerdictOther string

definition IsVerdict :: "verdict \<Rightarrow> bool" where
  "IsVerdict v = (case v of VerdictOther _ \<Rightarrow> False | _ \<Rightarrow> True)"

fun verdict_string :: "verdict \<Rightarrow> string" where
  "verdict_string VerdictAccomplished = ''accomplished''"
| "verdict_string VerdictFailed = ''failed''"
| "verdict_string VerdictAbandoned = ''abandoned''"
| "verdict_string (VerdictOther s) = s"

datatype input_kind = InputTurn | InputAnswer | InputWrapUp | InputOther string

definition IsInputKind :: "input_kind \<Rightarrow> bool" where
  "IsInputKind k = (k = InputTurn \<or> k = InputAnswer \<or> k = InputWrapUp)"

datatype event_kind = EventOpened | EventInput | EventState | EventDeliverable | EventClosed

datatype deliverable_kind =
    DELIVERABLE_KIND_UNSPECIFIED | DELIVERABLE_KIND_PUSH_BRANCH
  | DELIVERABLE_KIND_MERGE_REQUEST | DELIVERABLE_KIND_NONE | DELIVERABLE_KIND_OTHER int

record deliverable =
  d_kind :: deliverable_kind
  d_ref :: string
  d_url :: string

record repository =
  r_name :: string
  r_connector_ref :: string
  r_project :: string
  r_deliverable :: deliverable_kind

record acceptance =
  a_passing_score :: float64
  a_max_passes :: int
  a_verifier_component :: string

datatype typed_value = StringValue string | OtherValue string

record job_spec =
  sp_goal :: string
  sp_repositories :: "repository list"
  sp_credential_names :: "string list"
  sp_acceptance :: "acceptance option"
  sp_inputs :: "string list"
  sp_context :: "(string \<times> typed_value) list"

record job =
  j_id :: string
  j_bank :: string
  j_member :: string
  j_state :: job_state
  j_spec :: job_spec
  j_session :: string
  j_opened_by :: principal
  j_opened_at :: time
  j_last_input_at :: time
  j_closed_at :: "time option"
  j_verdict :: verdict
  j_score :: float64
  j_deliverables :: "deliverable list"
  j_attempts :: int
  j_spilled :: bool

record job_input =
  i_id :: string
  i_job :: string
  i_seq :: int
  i_kind :: input_kind
  i_message :: string
  i_sender :: principal
  i_sent_at :: time
  i_acknowledged_at :: "time option"

text \<open>An event row; the payload is an input id or a deliverable.\<close>

datatype payload = NoPayload | PayloadInput string | PayloadDeliverable deliverable

record job_event =
  ev_job :: string
  ev_seq :: int
  ev_kind :: event_kind
  ev_occurred_at :: time
  ev_state :: job_state
  ev_verdict :: verdict
  ev_score :: float64
  ev_message :: string
  ev_payload :: payload

record open_input =
  oi_bank :: string
  oi_member :: string
  oi_spec :: "job_spec option"
  oi_opened_by :: principal

record send_input =
  si_job :: string
  si_kind :: input_kind
  si_message :: string
  si_sender :: principal

record close_input =
  ci_job :: string
  ci_verdict :: verdict
  ci_score :: float64
  ci_closer :: principal

section \<open>Validation\<close>

fun repository_invalid :: "repository \<Rightarrow> bool" where
  "repository_invalid r =
     (blank (r_name r) \<or> blank (r_connector_ref r) \<or> blank (r_project r) \<or>
      r_deliverable r = DELIVERABLE_KIND_UNSPECIFIED)"

text \<open>The loop over the repositories with its \<open>seen\<close> set of names.\<close>

fun repositories_ok :: "repository list \<Rightarrow> string set \<Rightarrow> bool" where
  "repositories_ok [] names = True"
| "repositories_ok (r # rs) names =
     (if repository_invalid r then False
      else if r_name r \<in> names then False
      else repositories_ok rs (insert (r_name r) names))"

definition acceptance_ok :: "acceptance \<Rightarrow> bool" where
  "acceptance_ok a =
     (if flt_lt (a_passing_score a) (Fin 0) \<or> flt_lt (Fin 1) (a_passing_score a) then False
      else if a_max_passes a < 0 then False
      else if a_verifier_component a = [] \<and> a_max_passes a > 1 then False
      else True)"

definition ValidateSpec :: "job_spec option \<Rightarrow> err option" where
  "ValidateSpec spec =
     (case spec of
        None \<Rightarrow> Some (ErrInvalid Pkg_job)
      | Some s \<Rightarrow>
          if blank (sp_goal s) \<and> sp_repositories s = [] then Some (ErrInvalid Pkg_job)
          else if \<not> repositories_ok (sp_repositories s) {} then Some (ErrInvalid Pkg_job)
          else if list_ex blank (sp_credential_names s) then Some (ErrInvalid Pkg_job)
          else if \<not> (case sp_acceptance s of None \<Rightarrow> True | Some a \<Rightarrow> acceptance_ok a)
          then Some (ErrInvalid Pkg_job)
          else None)"

definition validatePrincipal :: "principal \<Rightarrow> err option" where
  "validatePrincipal p =
     (case p_kind p of
        OtherKind _ \<Rightarrow> Some (ErrInvalid Pkg_job)
      | _ \<Rightarrow> if blank (p_id p) then Some (ErrInvalid Pkg_job) else None)"

definition OpenInput_Validate :: "open_input \<Rightarrow> err option" where
  "OpenInput_Validate inp =
     (if blank (oi_bank inp) then Some (ErrInvalid Pkg_job)
      else case validatePrincipal (oi_opened_by inp) of
             Some e \<Rightarrow> Some e
           | None \<Rightarrow> ValidateSpec (oi_spec inp))"

text \<open>\<open>SendInput.Validate\<close> defaults the kind in place, so it returns the request.\<close>

definition SendInput_Validate :: "send_input \<Rightarrow> err + send_input" where
  "SendInput_Validate inp =
     (if blank (si_job inp) then Inl (ErrInvalid Pkg_job)
      else if blank (si_message inp) then Inl (ErrInvalid Pkg_job)
      else let inp = (if si_kind inp = InputOther [] then inp\<lparr>si_kind := InputTurn\<rparr> else inp)
           in if \<not> IsInputKind (si_kind inp) then Inl (ErrInvalid Pkg_job)
              else case validatePrincipal (si_sender inp) of Some e \<Rightarrow> Inl e | None \<Rightarrow> Inr inp)"

definition CloseInput_Validate :: "close_input \<Rightarrow> err option" where
  "CloseInput_Validate inp =
     (if blank (ci_job inp) then Some (ErrInvalid Pkg_job)
      else if \<not> IsVerdict (ci_verdict inp) then Some (ErrInvalid Pkg_job)
      else if flt_lt (ci_score inp) (Fin 0) \<or> flt_lt (Fin 1) (ci_score inp)
      then Some (ErrInvalid Pkg_job)
      else validatePrincipal (ci_closer inp))"

definition DefaultPageSize :: int where "DefaultPageSize = 50"
definition MaxPageSize :: int where "MaxPageSize = 200"

definition clampPageSize :: "int \<Rightarrow> int" where
  "clampPageSize sz =
     (if sz \<le> 0 then DefaultPageSize
      else if sz > MaxPageSize then MaxPageSize
      else sz)"

section \<open>Results\<close>

record result_deliverable =
  rd_kind :: string
  rd_ref :: string
  rd_url :: string

record job_result =
  rs_job :: string
  rs_bank :: string
  rs_member :: string
  rs_verdict :: verdict
  rs_score :: float64
  rs_deliverables :: "result_deliverable list"
  rs_session :: string
  rs_attempts :: int
  rs_opened_at :: time
  rs_closed_at :: "time option"

definition ResultKey :: "string \<Rightarrow> string" where
  "ResultKey jobID = jobID @ ''/result''"

definition deliverableKindName :: "deliverable_kind \<Rightarrow> string" where
  "deliverableKindName k =
     (case k of
        DELIVERABLE_KIND_PUSH_BRANCH \<Rightarrow> ''push_branch''
      | DELIVERABLE_KIND_MERGE_REQUEST \<Rightarrow> ''merge_request''
      | DELIVERABLE_KIND_NONE \<Rightarrow> ''none''
      | _ \<Rightarrow> ''unspecified'')"

definition ResultOf :: "job option \<Rightarrow> err + job_result" where
  "ResultOf jo =
     (case jo of
        None \<Rightarrow> Inl (ErrInvalid Pkg_job)
      | Some j \<Rightarrow>
          if j_state j \<noteq> StateClosed then Inl (ErrInvalid Pkg_job)
          else Inr \<lparr>rs_job = j_id j, rs_bank = j_bank j, rs_member = j_member j,
                    rs_verdict = j_verdict j, rs_score = j_score j,
                    rs_deliverables = map (\<lambda>d. \<lparr>rd_kind = deliverableKindName (d_kind d),
                                                rd_ref = d_ref d, rd_url = d_url d\<rparr>)
                                          (j_deliverables j),
                    rs_session = j_session j, rs_attempts = j_attempts j,
                    rs_opened_at = j_opened_at j, rs_closed_at = j_closed_at j\<rparr>)"

end
