(* ===== verification/BankTypes.thy ===== *)
theory BankTypes
  imports JobTypes
begin

text \<open>
  The data of \<open>internal/platform/bank\<close> (\<open>types.go\<close>, \<open>store.go\<close>): banks of always-on members,
  the closed sets of the string types, and the validation of a create and an update request. A
  duration is a number of nanoseconds, as \<open>time.Duration\<close> is.
\<close>

type_synonym duration = int

definition Second :: duration where "Second = 1000000000"
definition Minute :: duration where "Minute = 60 * Second"
definition Hour :: duration where "Hour = 60 * Minute"

datatype owner_kind = OwnerUser | OwnerTenant | OwnerOther string

datatype login_shape =
    LoginShapeSubscription | LoginShapeAPIKey | LoginShapeBedrock | LoginShapeVertex
  | LoginShapeFoundry | LoginShapeOther string

definition IsLoginShape :: "login_shape \<Rightarrow> bool" where
  "IsLoginShape s = (case s of LoginShapeOther _ \<Rightarrow> False | _ \<Rightarrow> True)"

definition NeedsProviderConfig :: "login_shape \<Rightarrow> bool" where
  "NeedsProviderConfig s =
     (case s of LoginShapeSubscription \<Rightarrow> False | LoginShapeOther _ \<Rightarrow> False | _ \<Rightarrow> True)"

datatype spill_policy = SpillQueue | SpillEphemeral | SpillOther string

definition IsSpillPolicy :: "spill_policy \<Rightarrow> bool" where
  "IsSpillPolicy p = (p = SpillQueue \<or> p = SpillEphemeral)"

datatype member_state =
    MemberLaunching | MemberNeedsSignIn | MemberIdle | MemberBusy | MemberDraining | MemberDead
  | MemberSuspended | MemberOther string

definition IsMemberState :: "member_state \<Rightarrow> bool" where
  "IsMemberState s = (case s of MemberOther _ \<Rightarrow> False | _ \<Rightarrow> True)"

definition isReportableState :: "member_state \<Rightarrow> bool" where
  "isReportableState s = (s = MemberIdle \<or> s = MemberBusy \<or> s = MemberNeedsSignIn)"

record bank =
  b_id :: string
  b_name :: string
  b_owner_kind :: owner_kind
  b_owner_id :: string
  b_desired_count :: int
  b_login_shape :: login_shape
  b_provider_config_name :: string
  b_agent_name :: string
  b_model :: string
  b_max_jobs_in_flight :: int
  b_stale_limit :: duration
  b_spill_policy :: spill_policy
  b_created_at :: time
  b_updated_at :: time

text \<open>A nullable time is \<open>None\<close> where Go has the zero time.\<close>

record member =
  m_id :: string
  m_bank :: string
  m_mission :: string
  m_mission_run :: string
  m_agent_run :: string
  m_sandbox :: string
  m_state :: member_state
  m_jobs_in_flight :: int
  m_job_cap :: int
  m_active_job_ids :: "string list"
  m_claude_version :: string
  m_last_heartbeat :: "time option"
  m_idle_since :: "time option"
  m_created_at :: time
  m_updated_at :: time

record create_input =
  cr_name :: string
  cr_owner_kind :: owner_kind
  cr_owner_id :: string
  cr_desired_count :: int
  cr_login_shape :: login_shape
  cr_provider_config_name :: string
  cr_agent_name :: string
  cr_model :: string
  cr_max_jobs_in_flight :: int
  cr_stale_limit :: duration
  cr_spill_policy :: spill_policy

record update_input =
  up_desired_count :: "int option"
  up_max_jobs_in_flight :: "int option"
  up_stale_limit :: "duration option"
  up_spill_policy :: "spill_policy option"

text \<open>What a heartbeat reports.\<close>

record member_status =
  ms_state :: member_state
  ms_jobs_in_flight :: int
  ms_job_cap :: int
  ms_active_job_ids :: "string list"
  ms_claude_version :: string

definition DefaultAgentName :: string where "DefaultAgentName = ''claude''"
definition DefaultMaxJobsInFlight :: int where "DefaultMaxJobsInFlight = 1"
definition DefaultStaleLimit :: duration where "DefaultStaleLimit = 24 * Hour"

text \<open>\<open>CreateInput.Validate\<close> trims the name and fills the defaults in place.\<close>

definition CreateInput_Validate :: "create_input \<Rightarrow> err + create_input" where
  "CreateInput_Validate inp =
     (let inp = inp\<lparr>cr_name := TrimSpace (cr_name inp)\<rparr>;
          shape = cr_login_shape inp;
          bad = Inl (ErrInvalid Pkg_bank)
      in if cr_name inp = [] then bad
         else if cr_owner_kind inp \<noteq> OwnerUser \<and> cr_owner_kind inp \<noteq> OwnerTenant then bad
         else if blank (cr_owner_id inp) then bad
         else if \<not> IsLoginShape shape then bad
         else if shape = LoginShapeSubscription \<and> cr_owner_kind inp \<noteq> OwnerUser then bad
         else if NeedsProviderConfig shape \<and> blank (cr_provider_config_name inp) then bad
         else if shape = LoginShapeSubscription \<and> \<not> blank (cr_provider_config_name inp) then bad
         else if cr_desired_count inp < 0 then bad
         else if cr_max_jobs_in_flight inp < 0 then bad
         else if cr_stale_limit inp < 0 then bad
         else let inp = (if cr_spill_policy inp = SpillOther []
                         then inp\<lparr>cr_spill_policy := SpillQueue\<rparr> else inp)
              in if \<not> IsSpillPolicy (cr_spill_policy inp) then bad
                 else let inp = (if cr_agent_name inp = []
                                 then inp\<lparr>cr_agent_name := DefaultAgentName\<rparr> else inp);
                          inp = (if cr_max_jobs_in_flight inp = 0
                                 then inp\<lparr>cr_max_jobs_in_flight := DefaultMaxJobsInFlight\<rparr> else inp);
                          inp = (if cr_stale_limit inp = 0
                                 then inp\<lparr>cr_stale_limit := DefaultStaleLimit\<rparr> else inp)
                      in Inr inp)"

definition UpdateInput_Validate :: "update_input \<Rightarrow> err option" where
  "UpdateInput_Validate inp =
     (let bad = Some (ErrInvalid Pkg_bank)
      in if (case up_desired_count inp of None \<Rightarrow> False | Some n \<Rightarrow> n < 0) then bad
         else if (case up_max_jobs_in_flight inp of None \<Rightarrow> False | Some n \<Rightarrow> n < 0) then bad
         else if (case up_stale_limit inp of None \<Rightarrow> False | Some d \<Rightarrow> d < 0) then bad
         else if (case up_spill_policy inp of None \<Rightarrow> False | Some p \<Rightarrow> \<not> IsSpillPolicy p) then bad
         else None)"

text \<open>Integer division of Go truncates toward zero; a valid limit is not negative.\<close>

definition staleLimitSeconds :: "duration \<Rightarrow> int" where
  "staleLimitSeconds d = (if d < 0 then - ((- d) div Second) else d div Second)"

end
