(* ===== verification/Effects.thy ===== *)
theory Effects
  imports Prelude
begin

text \<open>
  Actions of the environment: a function of the world that returns an error or a value, with the
  combinators the components are written in, and the three outcomes of a call to a driver.
\<close>

type_synonym ('e, 'w, 'a) act = "'w \<Rightarrow> ('e + 'a) \<times> 'w"

definition ret :: "'a \<Rightarrow> ('e, 'w, 'a) act" where
  "ret x w = (Inr x, w)"

definition fail :: "'e \<Rightarrow> ('e, 'w, 'a) act" where
  "fail e w = (Inl e, w)"

definition bnd :: "('e, 'w, 'a) act \<Rightarrow> ('a \<Rightarrow> ('e, 'w, 'b) act) \<Rightarrow> ('e, 'w, 'b) act" where
  "bnd m f w = (case m w of (Inl e, w') \<Rightarrow> (Inl e, w') | (Inr x, w') \<Rightarrow> f x w')"

text \<open>\<open>handle m h\<close>: the error of \<open>m\<close> goes to \<open>h\<close>.\<close>

definition handle :: "('e, 'w, 'a) act \<Rightarrow> ('e \<Rightarrow> ('e, 'w, 'a) act) \<Rightarrow> ('e, 'w, 'a) act" where
  "handle m h w = (case m w of (Inl e, w') \<Rightarrow> h e w' | (Inr x, w') \<Rightarrow> (Inr x, w'))"

definition from_option :: "'e \<Rightarrow> 'a option \<Rightarrow> ('e, 'w, 'a) act" where
  "from_option e xo = (case xo of None \<Rightarrow> fail e | Some x \<Rightarrow> ret x)"

text \<open>A call works, fails without an effect, or has its effect while the reply is lost.\<close>

datatype fault = Works | Fails | Lost_reply

text \<open>After the listed outcomes everything works.\<close>

fun next_fault :: "fault list \<Rightarrow> fault" where
  "next_fault [] = Works"
| "next_fault (f # fs) = f"

section \<open>Success paths\<close>

lemma ret_Inr [simp]: "ret x w = (r, w') \<longleftrightarrow> r = Inr x \<and> w' = w"
  by (auto simp: ret_def)

lemma fail_Inr [simp]: "fail e w = (r, w') \<longleftrightarrow> r = Inl e \<and> w' = w"
  by (auto simp: fail_def)

lemma bnd_Inr [simp]:
  "bnd m f w = (Inr y, w'') \<longleftrightarrow> (\<exists>x w'. m w = (Inr x, w') \<and> f x w' = (Inr y, w''))"
  by (auto simp: bnd_def split: prod.splits sum.splits)

lemma bnd_Inl:
  "bnd m f w = (Inl e, w'') \<longleftrightarrow>
     m w = (Inl e, w'') \<or> (\<exists>x w'. m w = (Inr x, w') \<and> f x w' = (Inl e, w''))"
  by (auto simp: bnd_def split: prod.splits sum.splits)

lemma from_option_Inr [simp]:
  "from_option e xo w = (Inr x, w') \<longleftrightarrow> xo = Some x \<and> w' = w"
  by (auto simp: from_option_def split: option.splits)

lemma handle_fail_Inr [simp]:
  "handle m (\<lambda>e. fail (f e)) w = (Inr x, w') \<longleftrightarrow> m w = (Inr x, w')"
  by (auto simp: handle_def fail_def split: prod.splits sum.splits)

end
