(* ===== verification/TenantDB.thy ===== *)
theory TenantDB
  imports BankTypes Effects
begin

text \<open>
  The per-tenant database as the stores see it: the five tables of migrations 010, 011 and 014
  (\<open>pkg/platform/migrations/postgres/tenant\<close>) with the constraints the statements rely on, and
  the handle of \<open>internal/infra/datapool\<close> (\<open>conn_ops_sql.go\<close>): a statement, a query, and
  \<open>InTx\<close>.

  Every interaction with the driver takes one outcome from \<open>faults\<close>: it works, it fails, or its
  effect is applied but the reply is lost. An empty list means that everything works from there
  on. The daemon's clock, the id generator, the tenant-id check of the SDK and the two
  protojson encoders are components of the environment.

  Row locks make the transactions of one job serial, so an operation is one step of the world.
\<close>

section \<open>Tables\<close>

record tenant_db =
  banks :: "bank list"
  members :: "member list"
  jobs :: "job list"
  inputs :: "job_input list"
  events :: "job_event list"

definition empty_db :: tenant_db where
  "empty_db = \<lparr>banks = [], members = [], jobs = [], inputs = [], events = []\<rparr>"

definition bank_row :: "string \<Rightarrow> tenant_db \<Rightarrow> bank option" where
  "bank_row i d = find (\<lambda>b. b_id b = i) (banks d)"

definition member_row :: "string \<Rightarrow> tenant_db \<Rightarrow> member option" where
  "member_row i d = find (\<lambda>m. m_id m = i) (members d)"

definition job_row :: "string \<Rightarrow> tenant_db \<Rightarrow> job option" where
  "job_row i d = find (\<lambda>j. j_id j = i) (jobs d)"

definition input_row :: "string \<Rightarrow> tenant_db \<Rightarrow> job_input option" where
  "input_row i d = find (\<lambda>x. i_id x = i) (inputs d)"

section \<open>Environment\<close>

record world =
  dbs :: "string \<Rightarrow> tenant_db"
  faults :: "fault list"
  clock :: "nat \<Rightarrow> time"
  ticks :: nat
  uuid :: "nat \<Rightarrow> string"
  fresh :: nat
  valid_tenant :: "string \<Rightarrow> bool"
  marshals_spec :: "job_spec \<Rightarrow> bool"
  marshals_deliverable :: "deliverable \<Rightarrow> bool"

type_synonym ('w, 'a) action = "(err, 'w, 'a) act"

definition read_clock :: "('x world_scheme, time) action" where
  "read_clock w = (Inr (clock w (ticks w)), w\<lparr>ticks := Suc (ticks w)\<rparr>)"

definition NewID :: "('x world_scheme, string) action" where
  "NewID w = (Inr (uuid w (fresh w)), w\<lparr>fresh := Suc (fresh w)\<rparr>)"

definition take_fault :: "'x world_scheme \<Rightarrow> fault \<times> 'x world_scheme" where
  "take_fault w = (next_fault (faults w), w\<lparr>faults := tl (faults w)\<rparr>)"

text \<open>\<open>poolConns.For\<close>: the tenant id is checked, then a handle is acquired.\<close>

definition with_conn :: "string \<Rightarrow> ('x world_scheme, 'a) action \<Rightarrow> ('x world_scheme, 'a) action" where
  "with_conn t m w =
     (if \<not> valid_tenant w t then (Inl (ErrTenant t), w)
      else case take_fault w of
             (Works, w') \<Rightarrow> m w'
           | (_, w') \<Rightarrow> (Inl ErrDB, w'))"

text \<open>A query reads the tables; a row that was not read is an error.\<close>

definition query :: "string \<Rightarrow> (tenant_db \<Rightarrow> 'a) \<Rightarrow> ('x world_scheme, 'a) action" where
  "query t q w =
     (case take_fault w of
        (Works, w') \<Rightarrow> (Inr (q (dbs w t)), w')
      | (_, w') \<Rightarrow> (Inl ErrDB, w'))"

text \<open>A statement: a violated constraint is an error and changes nothing.\<close>

definition exec ::
  "string \<Rightarrow> (tenant_db \<Rightarrow> err + 'a \<times> tenant_db) \<Rightarrow> ('x world_scheme, 'a) action" where
  "exec t st w =
     (case take_fault w of
        (Fails, w') \<Rightarrow> (Inl ErrDB, w')
      | (f, w') \<Rightarrow>
          (case st (dbs w t) of
             Inl e \<Rightarrow> (Inl e, w')
           | Inr (x, d) \<Rightarrow>
               ((if f = Works then Inr x else Inl ErrDB), w'\<lparr>dbs := (dbs w')(t := d)\<rparr>)))"

text \<open>
  \<open>Conn.InTx\<close>: an error of the body rolls back. A failed commit leaves the tables as they were,
  a commit whose reply is lost has been applied; both return the driver's error.
\<close>

definition InTx :: "string \<Rightarrow> ('x world_scheme, 'a) action \<Rightarrow> ('x world_scheme, 'a) action" where
  "InTx t body w =
     (case take_fault w of
        (Works, w1) \<Rightarrow>
          (case body w1 of
             (Inl e, w2) \<Rightarrow> (Inl e, w2\<lparr>dbs := (dbs w2)(t := dbs w t)\<rparr>)
           | (Inr x, w2) \<Rightarrow>
               (case take_fault w2 of
                  (Works, w3) \<Rightarrow> (Inr x, w3)
                | (Fails, w3) \<Rightarrow> (Inl ErrDB, w3\<lparr>dbs := (dbs w3)(t := dbs w t)\<rparr>)
                | (Lost_reply, w3) \<Rightarrow> (Inl ErrDB, w3)))
      | (_, w1) \<Rightarrow> (Inl ErrDB, w1))"

section \<open>Success paths\<close>

lemma read_clock_Inr [simp]:
  "read_clock w = (r, w') \<longleftrightarrow> r = Inr (clock w (ticks w)) \<and> w' = w\<lparr>ticks := Suc (ticks w)\<rparr>"
  by (auto simp: read_clock_def)

lemma NewID_Inr [simp]:
  "NewID w = (r, w') \<longleftrightarrow> r = Inr (uuid w (fresh w)) \<and> w' = w\<lparr>fresh := Suc (fresh w)\<rparr>"
  by (auto simp: NewID_def)

lemma query_Inr [simp]:
  "query t q w = (Inr x, w') \<longleftrightarrow>
     next_fault (faults w) = Works \<and> x = q (dbs w t) \<and> w' = w\<lparr>faults := tl (faults w)\<rparr>"
  by (auto simp: query_def take_fault_def split: fault.splits)

lemma exec_Inr [simp]:
  "exec t st w = (Inr x, w') \<longleftrightarrow>
     (\<exists>d. next_fault (faults w) = Works \<and> st (dbs w t) = Inr (x, d) \<and>
          w' = w\<lparr>faults := tl (faults w), dbs := (dbs w)(t := d)\<rparr>)"
  by (auto simp: exec_def take_fault_def split: fault.splits sum.splits prod.splits)

lemma with_conn_Inr [simp]:
  "with_conn t m w = (Inr x, w') \<longleftrightarrow>
     valid_tenant w t \<and> next_fault (faults w) = Works \<and>
     m (w\<lparr>faults := tl (faults w)\<rparr>) = (Inr x, w')"
  by (auto simp: with_conn_def take_fault_def split: fault.splits)

lemma InTx_Inr [simp]:
  "InTx t body w = (Inr x, w') \<longleftrightarrow>
     next_fault (faults w) = Works \<and>
     (\<exists>w2. body (w\<lparr>faults := tl (faults w)\<rparr>) = (Inr x, w2) \<and>
           next_fault (faults w2) = Works \<and> w' = w2\<lparr>faults := tl (faults w2)\<rparr>)"
  by (auto simp: InTx_def take_fault_def split: fault.splits sum.splits prod.splits)

section \<open>Effects on the tables\<close>

text \<open>
  \<open>effect t R m\<close>: whatever the driver does, the action \<open>m\<close> leaves every other tenant alone and
  takes the tables of \<open>t\<close> along \<open>R\<close>.
\<close>

definition effect :: "string \<Rightarrow> (tenant_db \<Rightarrow> tenant_db \<Rightarrow> bool) \<Rightarrow> ('x world_scheme, 'a) action \<Rightarrow> bool" where
  "effect t R m \<longleftrightarrow>
     (\<forall>w r w'. m w = (r, w') \<longrightarrow> (\<exists>d. dbs w' = (dbs w)(t := d) \<and> R (dbs w t) d))"

lemma effectI:
  assumes "\<And>w r w'. m w = (r, w') \<Longrightarrow> \<exists>d. dbs w' = (dbs w)(t := d) \<and> R (dbs w t) d"
  shows "effect t R m"
  using assms by (auto simp: effect_def)

lemma effectE:
  assumes "effect t R m" "m w = (r, w')"
  obtains d where "dbs w' = (dbs w)(t := d)" "R (dbs w t) d"
  using assms unfolding effect_def by blast

lemma effect_mono: "effect t R m \<Longrightarrow> (\<And>d d'. R d d' \<Longrightarrow> S d d') \<Longrightarrow> effect t S m"
  unfolding effect_def by blast

lemma effect_if: "effect t R m \<Longrightarrow> effect t R n \<Longrightarrow> effect t R (if c then m else n)"
  by simp

lemma effect_case_option:
  "effect t R m \<Longrightarrow> (\<And>x. effect t R (f x)) \<Longrightarrow> effect t R (case xo of None \<Rightarrow> m | Some x \<Rightarrow> f x)"
  by (cases xo) auto

lemma effect_case_sum:
  "(\<And>x. effect t R (f x)) \<Longrightarrow> (\<And>y. effect t R (g y)) \<Longrightarrow>
     effect t R (case s of Inl x \<Rightarrow> f x | Inr y \<Rightarrow> g y)"
  by (cases s) auto

lemmas effect_cases = effect_if effect_case_option effect_case_sum

text \<open>
  A single action may be followed along a reflexive relation, a sequence of actions along a
  preorder.
\<close>

locale db_reflexive =
  fixes R :: "tenant_db \<Rightarrow> tenant_db \<Rightarrow> bool"
  assumes refl: "R d d"
begin

lemma unchanged: "dbs w' = dbs w \<Longrightarrow> \<exists>d. dbs w' = (dbs w)(t := d) \<and> R (dbs w t) d"
  by (metis fun_upd_triv refl)

lemma effect_ret: "effect t R (ret x)"
  by (rule effectI) (auto intro: unchanged)

lemma effect_fail: "effect t R (fail e)"
  by (rule effectI) (auto intro: unchanged)

lemma effect_read_clock: "effect t R read_clock"
  by (rule effectI) (auto intro: unchanged)

lemma effect_NewID: "effect t R NewID"
  by (rule effectI) (auto intro: unchanged)

lemma effect_from_option: "effect t R (from_option e xo)"
  by (cases xo) (simp_all add: from_option_def effect_ret effect_fail)

lemma effect_query: "effect t R (query t q)"
  by (rule effectI) (auto simp: query_def take_fault_def intro!: unchanged split: fault.splits)

lemma effect_bnd_readonly:
  assumes "effect t (=) m" "\<And>x. effect t R (f x)"
  shows "effect t R (bnd m f)"
proof (rule effectI)
  fix w r w' assume run: "bnd m f w = (r, w')"
  obtain r1 w1 where m: "m w = (r1, w1)" by force
  have same: "dbs w1 = dbs w" by (rule effectE [OF assms(1) m]) auto
  show "\<exists>d. dbs w' = (dbs w)(t := d) \<and> R (dbs w t) d"
  proof (cases r1)
    case (Inl e)
    with run m same show ?thesis by (auto simp: bnd_def intro: unchanged)
  next
    case (Inr x)
    with run m have "f x w1 = (r, w')" by (simp add: bnd_def)
    from effectE [OF assms(2) this] same show ?thesis by auto
  qed
qed

lemma effect_bnd_ret:
  assumes "effect t R m" shows "effect t R (bnd m (\<lambda>x. ret (g x)))"
proof (rule effectI)
  fix w r w' assume run: "bnd m (\<lambda>x. ret (g x)) w = (r, w')"
  obtain r1 w1 where m: "m w = (r1, w1)" by force
  with run have "dbs w' = dbs w1" by (auto simp: bnd_def ret_def split: sum.splits)
  with effectE [OF assms m] show "\<exists>d. dbs w' = (dbs w)(t := d) \<and> R (dbs w t) d" by auto
qed

lemma effect_bnd_reader:
  assumes "effect t R m" "\<And>x. effect t (=) (f x)" shows "effect t R (bnd m f)"
proof (rule effectI)
  fix w r w' assume run: "bnd m f w = (r, w')"
  obtain r1 w1 where m: "m w = (r1, w1)" by force
  have "dbs w' = dbs w1"
  proof (cases r1)
    case (Inr x)
    with run m have "f x w1 = (r, w')" by (simp add: bnd_def)
    then show ?thesis by (rule effectE [OF assms(2)]) auto
  qed (use run m in \<open>simp add: bnd_def\<close>)
  with effectE [OF assms(1) m] show "\<exists>d. dbs w' = (dbs w)(t := d) \<and> R (dbs w t) d" by auto
qed

lemma effect_handle_fail:
  assumes "effect t R m" shows "effect t R (handle m (\<lambda>e. fail (f e)))"
proof (rule effectI)
  fix w r w' assume run: "handle m (\<lambda>e. fail (f e)) w = (r, w')"
  obtain r1 w1 where m: "m w = (r1, w1)" by force
  with run have "dbs w' = dbs w1" by (auto simp: handle_def fail_def split: sum.splits)
  with effectE [OF assms m] show "\<exists>d. dbs w' = (dbs w)(t := d) \<and> R (dbs w t) d" by auto
qed

lemma effect_exec:
  assumes "\<And>d x d'. st d = Inr (x, d') \<Longrightarrow> R d d'"
  shows "effect t R (exec t st)"
proof (rule effectI)
  fix w r w' assume run: "exec t st w = (r, w')"
  show "\<exists>d. dbs w' = (dbs w)(t := d) \<and> R (dbs w t) d"
  proof (cases "st (dbs w t)")
    case (Inl e)
    with run show ?thesis
      by (auto simp: exec_def take_fault_def intro!: unchanged split: fault.splits)
  next
    case (Inr xd)
    then obtain x d where xd: "st (dbs w t) = Inr (x, d)" by (cases xd) auto
    with assms [OF xd] run show ?thesis
      by (cases "next_fault (faults w)")
         (auto simp: exec_def take_fault_def intro: unchanged exI [of _ d])
  qed
qed

lemma effect_with_conn:
  assumes "effect t R m" shows "effect t R (with_conn t m)"
proof (rule effectI)
  fix w r w' assume run: "with_conn t m w = (r, w')"
  show "\<exists>d. dbs w' = (dbs w)(t := d) \<and> R (dbs w t) d"
  proof (cases "valid_tenant w t \<and> next_fault (faults w) = Works")
    case True
    with run have "m (w\<lparr>faults := tl (faults w)\<rparr>) = (r, w')"
      by (simp add: with_conn_def take_fault_def)
    from effectE [OF assms this] show ?thesis by auto
  next
    case False
    with run show ?thesis
      by (auto simp: with_conn_def take_fault_def intro!: unchanged split: fault.splits if_splits)
  qed
qed

lemma effect_check: "effect t R (\<lambda>w. if p w then ret x w else fail e w)"
  by (rule effectI) (auto intro: unchanged split: if_splits)

lemmas effect_basics = effect_check effect_ret effect_fail effect_read_clock effect_NewID
  effect_from_option effect_query effect_exec effect_with_conn

end

locale db_preorder = db_reflexive +
  assumes trans: "R d1 d2 \<Longrightarrow> R d2 d3 \<Longrightarrow> R d1 d3"
begin

lemma effect_bnd:
  assumes "effect t R m" "\<And>x. effect t R (f x)"
  shows "effect t R (bnd m f)"
proof (rule effectI)
  fix w r w' assume run: "bnd m f w = (r, w')"
  obtain r1 w1 where m: "m w = (r1, w1)" by force
  obtain d where d: "dbs w1 = (dbs w)(t := d)" "R (dbs w t) d" by (rule effectE [OF assms(1) m])
  show "\<exists>d. dbs w' = (dbs w)(t := d) \<and> R (dbs w t) d"
  proof (cases r1)
    case (Inl e)
    with run m d show ?thesis by (auto simp: bnd_def)
  next
    case (Inr x)
    with run m have "f x w1 = (r, w')" by (simp add: bnd_def)
    then obtain d' where d': "dbs w' = (dbs w1)(t := d')" "R (dbs w1 t) d'"
      by (rule effectE [OF assms(2)])
    have "dbs w' = (dbs w)(t := d')" using d'(1) d(1) by simp
    moreover have "R (dbs w t) d'" using trans [OF d(2)] d'(2) d(1) by simp
    ultimately show ?thesis by blast
  qed
qed

lemma effect_handle:
  assumes "effect t R m" "\<And>e. effect t R (h e)"
  shows "effect t R (handle m h)"
proof (rule effectI)
  fix w r w' assume run: "handle m h w = (r, w')"
  obtain r1 w1 where m: "m w = (r1, w1)" by force
  obtain d where d: "dbs w1 = (dbs w)(t := d)" "R (dbs w t) d" by (rule effectE [OF assms(1) m])
  show "\<exists>d. dbs w' = (dbs w)(t := d) \<and> R (dbs w t) d"
  proof (cases r1)
    case (Inr x)
    with run m d show ?thesis by (auto simp: handle_def)
  next
    case (Inl e)
    with run m have "h e w1 = (r, w')" by (simp add: handle_def)
    then obtain d' where "dbs w' = (dbs w1)(t := d')" "R (dbs w1 t) d'"
      by (rule effectE [OF assms(2)])
    with d show ?thesis by (auto intro: trans)
  qed
qed

lemmas effect_rules = effect_basics effect_bnd

end

text \<open>Nothing changes, and anything may change in the tenant's own tables.\<close>

interpretation readonly: db_preorder "(=)"
  by unfold_locales auto

interpretation confined: db_preorder "\<lambda>_ _. True"
  by unfold_locales auto

text \<open>
  A transaction is atomic: if its body stays within the tenant and a completed body takes the
  tables along \<open>S\<close>, then the transaction either does that or changes nothing.
\<close>

lemma effect_InTx:
  assumes conf: "effect t (\<lambda>_ _. True) body"
    and step: "\<And>w x w'. body w = (Inr x, w') \<Longrightarrow> S (dbs w t) (dbs w' t)"
  shows "effect t S\<^sup>=\<^sup>= (InTx t body)"
proof (rule effectI)
  fix w r w' assume run: "InTx t body w = (r, w')"
  show "\<exists>d. dbs w' = (dbs w)(t := d) \<and> S\<^sup>=\<^sup>= (dbs w t) d"
  proof (cases "next_fault (faults w) = Works")
    case False
    with run show ?thesis
      by (auto simp: InTx_def take_fault_def intro!: exI [of _ "dbs w t"] split: fault.splits)
  next
    case True
    obtain r2 w2 where body: "body (w\<lparr>faults := tl (faults w)\<rparr>) = (r2, w2)" by force
    obtain d where d: "dbs w2 = (dbs w)(t := d)"
      using effectE [OF conf body] by auto
    show ?thesis
    proof (cases r2)
      case (Inl e)
      with run True body d show ?thesis
        by (auto simp: InTx_def take_fault_def intro!: exI [of _ "dbs w t"])
    next
      case (Inr x)
      with body have "S (dbs w t) d" using step [of "w\<lparr>faults := tl (faults w)\<rparr>" x w2] d by simp
      then show ?thesis using run True body d Inr
        by (cases "next_fault (faults w2)")
           (auto simp: InTx_def take_fault_def intro: exI [of _ "dbs w t"] exI [of _ d])
    qed
  qed
qed

lemma tx_Inr:
  assumes "with_conn t (InTx t body) w = (Inr x, w')"
  obtains w1 w2 where "body w1 = (Inr x, w2)" "dbs w1 = dbs w" "dbs w' = dbs w2"
proof -
  from assms obtain w2 where "body (w\<lparr>faults := tl (tl (faults w))\<rparr>) = (Inr x, w2)"
    "w' = w2\<lparr>faults := tl (faults w2)\<rparr>" by auto
  then show ?thesis using that by simp
qed

end
