(* ===== verification/PageToken.thy ===== *)
theory PageToken
  imports JobTypes
begin

text \<open>
  The opaque page tokens of the bank and job stores (\<open>encodeToken\<close>, \<open>decodeToken\<close>,
  \<open>cutAtNUL\<close>): a cursor of a time and an id, written as RFC 3339 with a NUL between them, in
  unpadded URL-safe base64. The two standard-library codecs are modelled for what the stores use:
  \<open>base64.RawURLEncoding\<close>, and the \<open>time.RFC3339Nano\<close> layout at the database's microsecond
  resolution.
\<close>

section \<open>Unpadded URL-safe base64\<close>

definition b64_alphabet :: string where
  "b64_alphabet =
     ''ABCDEFGHIJKLMNOPQRSTUVWXYZabcdefghijklmnopqrstuvwxyz0123456789-_''"

definition b64_char :: "nat \<Rightarrow> char" where
  "b64_char n = b64_alphabet ! n"

fun index_of :: "'a list \<Rightarrow> 'a \<Rightarrow> nat option" where
  "index_of [] c = None"
| "index_of (x # xs) c = (if x = c then Some 0 else map_option Suc (index_of xs c))"

definition b64_value :: "char \<Rightarrow> nat option" where
  "b64_value c = index_of b64_alphabet c"

definition byte :: "char \<Rightarrow> nat" where
  "byte c = of_char c"

fun b64_encode :: "string \<Rightarrow> string" where
  "b64_encode [] = []"
| "b64_encode [a] = [b64_char (byte a div 4), b64_char (byte a mod 4 * 16)]"
| "b64_encode [a, b] =
     [b64_char (byte a div 4), b64_char (byte a mod 4 * 16 + byte b div 16),
      b64_char (byte b mod 16 * 4)]"
| "b64_encode (a # b # c # rest) =
     b64_char (byte a div 4) # b64_char (byte a mod 4 * 16 + byte b div 16) #
     b64_char (byte b mod 16 * 4 + byte c div 64) # b64_char (byte c mod 64) # b64_encode rest"

text \<open>The decoder is not strict: trailing bits of the last character are ignored.\<close>

fun b64_decode_values :: "nat list \<Rightarrow> string option" where
  "b64_decode_values [] = Some []"
| "b64_decode_values [v] = None"
| "b64_decode_values [v, x] = Some [char_of (v * 4 + x div 16)]"
| "b64_decode_values [v, x, y] = Some [char_of (v * 4 + x div 16), char_of (x mod 16 * 16 + y div 4)]"
| "b64_decode_values (v # x # y # z # rest) =
     map_option (\<lambda>s. char_of (v * 4 + x div 16) # char_of (x mod 16 * 16 + y div 4) #
                     char_of (y mod 4 * 64 + z) # s)
       (b64_decode_values rest)"

text \<open>Go's decoder skips carriage returns and line feeds.\<close>

definition b64_decode :: "string \<Rightarrow> string option" where
  "b64_decode s =
     Option.bind (those (map b64_value (filter (\<lambda>c. c \<noteq> CHR 0x0A \<and> c \<noteq> CHR 0x0D) s)))
       b64_decode_values"

lemma index_of_nth: "distinct xs \<Longrightarrow> n < length xs \<Longrightarrow> index_of xs (xs ! n) = Some n"
  by (induction xs arbitrary: n) (auto simp: nth_Cons split: nat.splits)

lemma b64_alphabet_facts:
  "length b64_alphabet = 64" "distinct b64_alphabet" "CHR 0x0A \<notin> set b64_alphabet"
  "CHR 0x0D \<notin> set b64_alphabet"
  by (simp_all add: b64_alphabet_def)

lemma b64_value_char [simp]: "n < 64 \<Longrightarrow> b64_value (b64_char n) = Some n"
  by (simp add: b64_value_def b64_char_def index_of_nth b64_alphabet_facts)

lemma b64_char_plain: "n < 64 \<Longrightarrow> b64_char n \<noteq> CHR 0x0A \<and> b64_char n \<noteq> CHR 0x0D"
proof -
  assume "n < 64"
  then have "b64_char n \<in> set b64_alphabet" by (simp add: b64_char_def b64_alphabet_facts)
  then show ?thesis using b64_alphabet_facts(3,4) by metis
qed

lemma byte_bound: "byte c < 256"
  by (simp add: byte_def)

lemma char_of_byte [simp]: "char_of (byte c) = c"
  by (simp add: byte_def)

fun b64_values :: "string \<Rightarrow> nat list" where
  "b64_values [] = []"
| "b64_values [a] = [byte a div 4, byte a mod 4 * 16]"
| "b64_values [a, b] = [byte a div 4, byte a mod 4 * 16 + byte b div 16, byte b mod 16 * 4]"
| "b64_values (a # b # c # rest) =
     [byte a div 4, byte a mod 4 * 16 + byte b div 16, byte b mod 16 * 4 + byte c div 64,
      byte c mod 64] @ b64_values rest"

lemma b64_encode_values: "b64_encode s = map b64_char (b64_values s)"
  by (induction s rule: b64_values.induct) simp_all

lemma sextets:
  "byte a div 4 < 64" "byte a mod 4 * 16 + byte b div 16 < 64" "byte b mod 16 * 4 + byte c div 64 < 64"
  "byte a mod 4 * 16 < 64" "byte b mod 16 * 4 < 64" "byte c mod 64 < 64"
  using byte_bound [of a] byte_bound [of b] byte_bound [of c] by linarith+

lemma b64_values_bound: "v \<in> set (b64_values s) \<Longrightarrow> v < 64"
  by (induction s rule: b64_values.induct) (auto simp: sextets simp del: One_nat_def)

lemma glue:
  fixes x y n :: nat
  assumes "y < n" shows "(x * n + y) div n = x" "(x * n + y) mod n = y"
  using assms by simp_all

lemma sextet_glue:
  "(x * 16 + byte b div 16) div 16 = x" "(x * 16 + byte b div 16) mod 16 = byte b div 16"
  "(x * 4 + byte c div 64) div 4 = x" "(x * 4 + byte c div 64) mod 4 = byte c div 64"
  using byte_bound [of b] byte_bound [of c] by (intro glue; simp add: less_mult_imp_div_less)+

lemma b64_decode_encode_values: "b64_decode_values (b64_values s) = Some s"
  by (induction s rule: b64_values.induct)
     (simp_all only: b64_values.simps b64_decode_values.simps sextet_glue append.simps option.map
       div_mult_mod_eq char_of_byte div_mult_self_is_m mod_mult_self2_is_0
       zero_less_numeral nonzero_mult_div_cancel_right zero_neq_numeral not_False_eq_True
       numeral_eq_iff)

lemma those_map_Some: "those (map Some xs) = Some xs"
  by (induction xs) auto

lemma b64_round_trip: "b64_decode (b64_encode s) = Some s"
proof -
  have plain: "filter (\<lambda>c. c \<noteq> CHR 0x0A \<and> c \<noteq> CHR 0x0D) (b64_encode s) = b64_encode s"
  proof (unfold filter_id_conv b64_encode_values set_map, intro ballI)
    fix c assume "c \<in> b64_char ` set (b64_values s)"
    then obtain v where "v \<in> set (b64_values s)" "c = b64_char v" by (rule imageE)
    then show "c \<noteq> CHR 0x0A \<and> c \<noteq> CHR 0x0D" using b64_char_plain [OF b64_values_bound] by simp
  qed
  have "map b64_value (b64_encode s) = map Some (b64_values s)"
    unfolding b64_encode_values map_map by (rule map_cong) (simp_all add: b64_values_bound)
  then show ?thesis
    by (simp only: b64_decode_def plain those_map_Some bind.bind_lunit b64_decode_encode_values)
qed

section \<open>RFC 3339\<close>

subsection \<open>Calendar\<close>

text \<open>Days are counted from the first of January of year one.\<close>

definition is_leap :: "nat \<Rightarrow> bool" where
  "is_leap y \<longleftrightarrow> y mod 4 = 0 \<and> (y mod 100 \<noteq> 0 \<or> y mod 400 = 0)"

definition days_before_year :: "nat \<Rightarrow> nat" where
  "days_before_year y = (let p = y - 1 in 365 * p + p div 4 + p div 400 - p div 100)"

definition days_before_month :: "bool \<Rightarrow> nat list" where
  "days_before_month leap =
     (if leap then [0, 31, 60, 91, 121, 152, 182, 213, 244, 274, 305, 335, 366]
      else [0, 31, 59, 90, 120, 151, 181, 212, 243, 273, 304, 334, 365])"

lemma days_before_year_Suc:
  "1 \<le> y \<Longrightarrow> days_before_year (Suc y) = days_before_year y + (if is_leap y then 366 else 365)"
proof -
  assume "1 \<le> y"
  then obtain p where p: "y = Suc p" by (cases y) auto
  have "p div 100 \<le> p div 4" by (rule div_le_mono2) simp_all
  moreover have "Suc p mod 400 = 0 \<Longrightarrow> Suc p mod 100 = 0" "Suc p mod 100 = 0 \<Longrightarrow> Suc p mod 4 = 0"
    using mod_mod_cancel [of 100 400 "Suc p"] mod_mod_cancel [of 4 100 "Suc p"] by auto
  ultimately show ?thesis
    by (auto simp: days_before_year_def p is_leap_def div_Suc) (simp_all only: ac_simps)
qed

lemma days_before_year_ge: "365 * (y - 1) \<le> days_before_year y"
proof -
  have "(y - 1) div 100 \<le> (y - 1) div 4" by (rule div_le_mono2) simp_all
  moreover have "c \<le> a \<Longrightarrow> x \<le> x + a + b - c" for x a b c :: nat by linarith
  ultimately show ?thesis unfolding days_before_year_def Let_def by blast
qed

lemma days_before_year_le: "days_before_year (Suc k) \<le> 366 * k"
proof -
  have "k div 400 \<le> k div 100" by (rule div_le_mono2) simp_all
  moreover have "k div 4 \<le> k" by (rule div_le_dividend)
  ultimately show ?thesis by (simp add: days_before_year_def)
qed

function find_year :: "nat \<Rightarrow> nat \<Rightarrow> nat" where
  "find_year n y = (if n < days_before_year (Suc y) then y else find_year n (Suc y))"
  by pat_completeness auto
termination
proof (relation "measure (\<lambda>(n, y). Suc n - y)", goal_cases)
  case (2 n y)
  then have "365 * y \<le> n" using days_before_year_ge [of "Suc y"] by simp
  then show ?case by simp
qed simp

declare find_year.simps [simp del]

lemma find_year_bounds:
  assumes "days_before_year y \<le> n" "1 \<le> y"
  shows "days_before_year (find_year n y) \<le> n \<and> n < days_before_year (Suc (find_year n y)) \<and> 1 \<le> find_year n y"
  using assms
proof (induction n y rule: find_year.induct)
  case (1 n y)
  then show ?case by (subst (1 2 3) find_year.simps) simp
qed

definition year_of :: "nat \<Rightarrow> nat" where
  "year_of n = find_year n (Suc (n div 366))"

lemma year_of_bounds:
  "days_before_year (year_of n) \<le> n" "n < days_before_year (Suc (year_of n))" "1 \<le> year_of n"
proof -
  have "days_before_year (Suc (n div 366)) \<le> 366 * (n div 366)" by (rule days_before_year_le)
  also have "\<dots> \<le> n" by simp
  finally have "days_before_year (Suc (n div 366)) \<le> n" .
  from find_year_bounds [OF this]
  show "days_before_year (year_of n) \<le> n" "n < days_before_year (Suc (year_of n))" "1 \<le> year_of n"
    by (simp_all add: year_of_def)
qed

text \<open>The month (from zero) of a day of the year.\<close>

definition month_of :: "bool \<Rightarrow> nat \<Rightarrow> nat" where
  "month_of leap r = length (takeWhile (\<lambda>x. x \<le> r) (tl (days_before_month leap)))"

lemma month_of_bounds:
  assumes "r < (if leap then 366 else 365)"
  shows "month_of leap r < 12" "days_before_month leap ! month_of leap r \<le> r"
    "r < days_before_month leap ! Suc (month_of leap r)"
  using assms by (simp_all add: month_of_def days_before_month_def split: if_splits)

subsection \<open>Digits\<close>

definition digit :: "nat \<Rightarrow> char" where
  "digit n = char_of (48 + n)"

definition digit_value :: "char \<Rightarrow> nat option" where
  "digit_value c = (let n = byte c in if 48 \<le> n \<and> n \<le> 57 then Some (n - 48) else None)"

fun digits :: "nat \<Rightarrow> nat \<Rightarrow> string" where
  "digits 0 n = []"
| "digits (Suc k) n = digits k (n div 10) @ [digit (n mod 10)]"

fun number :: "nat \<Rightarrow> string \<Rightarrow> nat option" where
  "number acc [] = Some acc"
| "number acc (c # cs) = Option.bind (digit_value c) (\<lambda>v. number (acc * 10 + v) cs)"

lemma digit_value_digit [simp]: "n < 10 \<Longrightarrow> digit_value (digit n) = Some n"
  by (simp add: digit_value_def digit_def byte_def Let_def)

lemma number_append: "number acc (xs @ ys) = Option.bind (number acc xs) (\<lambda>a. number a ys)"
  by (induction xs arbitrary: acc) (simp_all add: bind_assoc)

lemma length_digits [simp]: "length (digits k n) = k"
  by (induction k arbitrary: n) simp_all

lemma number_digits: "n < 10 ^ k \<Longrightarrow> number acc (digits k n) = Some (acc * 10 ^ k + n)"
proof (induction k arbitrary: n)
  case (Suc k)
  then have "n div 10 < 10 ^ k" by (simp add: less_mult_imp_div_less)
  with Suc.IH show ?case
    by (simp add: number_append algebra_simps)
qed simp

lemma number_zeros: "number acc (replicate k (digit 0)) = Some (acc * 10 ^ k)"
  by (induction k arbitrary: acc) (simp_all add: algebra_simps)

subsection \<open>Formatting and parsing\<close>

definition unix_epoch_days :: nat where
  "unix_epoch_days = 719162"

definition day_us :: nat where
  "day_us = 86400000000"

definition trim_zeros :: "string \<Rightarrow> string" where
  "trim_zeros s = rev (dropWhile (\<lambda>c. c = digit 0) (rev s))"

definition format_fraction :: "nat \<Rightarrow> string" where
  "format_fraction us = (if us = 0 then [] else ''.'' @ trim_zeros (digits 6 us))"

text \<open>\<open>t.UTC().Format(time.RFC3339Nano)\<close>.\<close>

definition format_time :: "time \<Rightarrow> string" where
  "format_time t =
     (let a = nat (t + int (unix_epoch_days * day_us));
          n = a div day_us; rest = a mod day_us;
          y = year_of n; r = n - days_before_year y; m = month_of (is_leap y) r;
          d = r - days_before_month (is_leap y) ! m;
          sec = rest div 1000000
      in digits 4 y @ ''-'' @ digits 2 (Suc m) @ ''-'' @ digits 2 (Suc d) @ ''T'' @
         digits 2 (sec div 3600) @ '':'' @ digits 2 (sec div 60 mod 60) @ '':'' @
         digits 2 (sec mod 60) @ format_fraction (rest mod 1000000) @ ''Z'')"

text \<open>
  \<open>time.Parse(time.RFC3339Nano, s)\<close>, field by field as the layout has them: fixed-width numbers
  except the hour, which may have one digit; an optional fraction after a period or a comma; and a
  zone that is \<open>Z\<close> or an offset. What is below a microsecond is dropped, as the driver does when
  it sends the time to the database.
\<close>

definition is_digit :: "char \<Rightarrow> bool" where
  "is_digit c \<longleftrightarrow> digit_value c \<noteq> None"

definition take_fixed :: "nat \<Rightarrow> string \<Rightarrow> (nat \<times> string) option" where
  "take_fixed k s =
     (if length s < k then None else map_option (\<lambda>v. (v, drop k s)) (number 0 (take k s)))"

definition take_hour :: "string \<Rightarrow> (nat \<times> string) option" where
  "take_hour s =
     (if 2 \<le> length s \<and> is_digit (s ! 0) \<and> is_digit (s ! 1) then take_fixed 2 s else take_fixed 1 s)"

definition take_char :: "char \<Rightarrow> string \<Rightarrow> string option" where
  "take_char c s = (if s \<noteq> [] \<and> hd s = c then Some (tl s) else None)"

definition take_fraction :: "string \<Rightarrow> (nat \<times> string) option" where
  "take_fraction s =
     (if 2 \<le> length s \<and> (s ! 0 = CHR ''.'' \<or> s ! 0 = CHR '','') \<and> is_digit (s ! 1)
      then let ds = takeWhile is_digit (tl s)
           in map_option (\<lambda>us. (us, drop (Suc (length ds)) s)) (number 0 (take 6 (ds @ replicate 6 (digit 0))))
      else Some (0, s))"

definition take_zone :: "string \<Rightarrow> (int \<times> string) option" where
  "take_zone s =
     (if s \<noteq> [] \<and> hd s = CHR ''Z'' then Some (0, tl s)
      else if length s < 6 \<or> s ! 3 \<noteq> CHR '':'' then None
      else
        Option.bind (number 0 (take 2 (drop 1 s))) (\<lambda>h.
        Option.bind (number 0 (take 2 (drop 4 s))) (\<lambda>mi.
        if h > 24 \<or> mi > 60 then None
        else if hd s = CHR ''+'' then Some (int ((h * 60 + mi) * 60), drop 6 s)
        else if hd s = CHR ''-'' then Some (- int ((h * 60 + mi) * 60), drop 6 s)
        else None)))"

text \<open>The fields of a date and time, checked against their ranges; year zero is before year one.\<close>

definition make_time ::
  "nat \<Rightarrow> nat \<Rightarrow> nat \<Rightarrow> nat \<Rightarrow> nat \<Rightarrow> nat \<Rightarrow> nat \<Rightarrow> int \<Rightarrow> time option" where
  "make_time y mo d h mi sec us offset =
     (let dbm = days_before_month (is_leap y)
      in if 1 \<le> mo \<and> mo \<le> 12 \<and> 1 \<le> d \<and> d \<le> dbm ! mo - dbm ! (mo - 1) \<and>
            h < 24 \<and> mi < 60 \<and> sec < 60
         then Some (int ((days_before_year y + dbm ! (mo - 1) + (d - 1)) * day_us +
                         ((h * 60 + mi) * 60 + sec) * 1000000 + us) -
                    (if y = 0 then int (366 * day_us) else 0) - offset * 1000000 -
                    int (unix_epoch_days * day_us))
         else None)"

definition parse_time :: "string \<Rightarrow> time option" where
  "parse_time s =
     Option.bind (take_fixed 4 s) (\<lambda>(y, s).
     Option.bind (take_char (CHR ''-'') s) (\<lambda>s.
     Option.bind (take_fixed 2 s) (\<lambda>(mo, s).
     Option.bind (take_char (CHR ''-'') s) (\<lambda>s.
     Option.bind (take_fixed 2 s) (\<lambda>(d, s).
     Option.bind (take_char (CHR ''T'') s) (\<lambda>s.
     Option.bind (take_hour s) (\<lambda>(h, s).
     Option.bind (take_char (CHR '':'') s) (\<lambda>s.
     Option.bind (take_fixed 2 s) (\<lambda>(mi, s).
     Option.bind (take_char (CHR '':'') s) (\<lambda>s.
     Option.bind (take_fixed 2 s) (\<lambda>(sec, s).
     Option.bind (take_fraction s) (\<lambda>(us, s).
     Option.bind (take_zone s) (\<lambda>(offset, s).
     if s = [] then make_time y mo d h mi sec us offset else None)))))))))))))"

lemma trim_zeros_split: "\<exists>k. s = trim_zeros s @ replicate k (digit 0)"
proof -
  have "rev s = takeWhile (\<lambda>c. c = digit 0) (rev s) @ dropWhile (\<lambda>c. c = digit 0) (rev s)" by simp
  moreover have "takeWhile (\<lambda>c. c = digit 0) xs = replicate (length (takeWhile (\<lambda>c. c = digit 0) xs)) (digit 0)" for xs
    by (induction xs) auto
  ultimately obtain k where "rev s = replicate k (digit 0) @ dropWhile (\<lambda>c. c = digit 0) (rev s)" by metis
  then have "s = rev (replicate k (digit 0) @ dropWhile (\<lambda>c. c = digit 0) (rev s))" by (metis rev_rev_ident)
  then show ?thesis by (auto simp: trim_zeros_def)
qed

lemma is_digit_digit [simp]: "n < 10 \<Longrightarrow> is_digit (digit n)"
  by (simp add: is_digit_def)

lemma is_digit_digits: "c \<in> set (digits k n) \<Longrightarrow> is_digit c"
  by (induction k arbitrary: n) auto

lemma take_fixed_digits:
  "n < 10 ^ k \<Longrightarrow> take_fixed k (digits k n @ s) = Some (n, s)"
  by (simp add: take_fixed_def number_digits)

lemma take_hour_digits:
  assumes "n < 10 ^ 2" shows "take_hour (digits 2 n @ s) = Some (n, s)"
proof -
  have "digits 2 n = [digit (n div 10 mod 10), digit (n mod 10)]" by (simp add: numeral_2_eq_2)
  then have "is_digit ((digits 2 n @ s) ! 0)" "is_digit ((digits 2 n @ s) ! 1)" by simp_all
  then show ?thesis using take_fixed_digits [OF assms, of s] by (simp add: take_hour_def)
qed

lemma take_char_Cons [simp]: "take_char c (c # s) = Some s"
  by (simp add: take_char_def)

lemma take_fraction_format:
  assumes "us < 10 ^ 6" shows "take_fraction (format_fraction us @ ''Z'') = Some (us, ''Z'')"
proof (cases "us = 0")
  case True
  then show ?thesis by (simp add: take_fraction_def format_fraction_def)
next
  case False
  define ds where "ds = trim_zeros (digits 6 us)"
  obtain k where k: "digits 6 us = ds @ replicate k (digit 0)"
    using trim_zeros_split unfolding ds_def by blast
  have "is_digit c" if "c \<in> set ds" for c
    using that k is_digit_digits [of c 6 us] by simp
  moreover have Z: "\<not> is_digit (CHR ''Z'')" by (simp add: is_digit_def digit_value_def byte_def)
  ultimately have tw: "takeWhile is_digit (ds @ ''Z'') = ds" by (simp add: takeWhile_append)
  have num: "number 0 (digits 6 us) = Some us" using number_digits [OF assms, of 0] by simp
  have ne: "ds \<noteq> []"
  proof
    assume "ds = []"
    then have "number 0 (replicate k (digit 0)) = Some us" using k num by simp
    then show False using False by (simp add: number_zeros)
  qed
  have "length ds + k = 6" using arg_cong [OF k, of length] by simp
  then have "take 6 (ds @ replicate 6 (digit 0)) = digits 6 us"
    using k by (simp add: take_replicate)
  moreover have "is_digit ((ds @ ''Z'') ! 0)"
    using ne \<open>\<And>c. c \<in> set ds \<Longrightarrow> is_digit c\<close> by (simp add: nth_append)
  ultimately show ?thesis using False tw num ne
    by (simp add: take_fraction_def format_fraction_def ds_def [symmetric])
qed

lemma parse_time_fields:
  assumes "y < 10 ^ 4" "mo < 10 ^ 2" "d < 10 ^ 2" "h < 10 ^ 2" "mi < 10 ^ 2" "sec < 10 ^ 2" "us < 10 ^ 6"
  shows "parse_time (digits 4 y @ ''-'' @ digits 2 mo @ ''-'' @ digits 2 d @ ''T'' @ digits 2 h @
           '':'' @ digits 2 mi @ '':'' @ digits 2 sec @ format_fraction us @ ''Z'') =
         make_time y mo d h mi sec us 0"
  using assms
  by (simp add: parse_time_def take_fixed_digits take_hour_digits take_fraction_format take_zone_def
      del: digits.simps power_Suc)

definition time_ok :: "time \<Rightarrow> bool" where
  "time_ok t \<longleftrightarrow> - int (unix_epoch_days * day_us) \<le> t \<and>
     t < int (days_before_year 10000 * day_us) - int (unix_epoch_days * day_us)"

lemma days_before_year_mono:
  assumes "1 \<le> a" "a \<le> b" shows "days_before_year a \<le> days_before_year b"
  using assms(2)
proof (induction rule: nat_induct_at_least)
  case (Suc n)
  then show ?case using days_before_year_Suc [of n] assms(1) by (simp split: if_splits)
qed simp

lemma month_length:
  assumes "m < 12" shows "days_before_month leap ! Suc m - days_before_month leap ! m \<le> 31"
proof -
  have "\<forall>leap \<in> {True, False}. \<forall>m \<in> set [0..<12].
      days_before_month leap ! Suc m - days_before_month leap ! m \<le> 31" by code_simp
  moreover have "m \<in> set [0..<12]" using assms by simp
  ultimately show ?thesis by blast
qed

lemma year_of_less: "n < days_before_year 10000 \<Longrightarrow> year_of n < 10000"
  using days_before_year_mono [of 10000 "year_of n"] year_of_bounds(1) [of n] by (cases "year_of n < 10000") auto

lemma time_of_day:
  fixes r :: nat
  assumes "r < day_us"
  defines "sec \<equiv> r div 1000000"
  shows "sec div 3600 < 24" "((sec div 3600 * 60 + sec div 60 mod 60) * 60 + sec mod 60) * 1000000 + r mod 1000000 = r"
proof -
  have "sec < 86400" using assms by (simp add: day_us_def less_mult_imp_div_less)
  then show "sec div 3600 < 24" by (simp add: less_mult_imp_div_less)
  have "sec div 3600 = sec div 60 div 60" by (simp add: div_mult2_eq [symmetric])
  then have "(sec div 3600 * 60 + sec div 60 mod 60) * 60 + sec mod 60 = sec" by simp
  then show "((sec div 3600 * 60 + sec div 60 mod 60) * 60 + sec mod 60) * 1000000 + r mod 1000000 = r"
    by (simp add: sec_def)
qed

lemma parse_format_time:
  assumes "time_ok t" shows "parse_time (format_time t) = Some t"
proof -
  define a where "a = nat (t + int (unix_epoch_days * day_us))"
  define n rest where "n = a div day_us" and "rest = a mod day_us"
  define y where "y = year_of n"
  define r where "r = n - days_before_year y"
  define m where "m = month_of (is_leap y) r"
  define d where "d = r - days_before_month (is_leap y) ! m"
  define sec where "sec = rest div 1000000"
  have t: "int a = t + int (unix_epoch_days * day_us)" using assms by (simp add: a_def time_ok_def)
  have "int a < int (days_before_year 10000 * day_us)" using assms unfolding t time_ok_def by linarith
  then have "a < days_before_year 10000 * day_us" by (simp only: of_nat_less_iff)
  then have n: "n < days_before_year 10000" by (simp add: n_def less_mult_imp_div_less)
  have y: "days_before_year y \<le> n" "n < days_before_year (Suc y)" "1 \<le> y" "y < 10 ^ 4"
    using year_of_bounds [of n] year_of_less [OF n] by (simp_all add: y_def)
  have r: "r < (if is_leap y then 366 else 365)"
    using y days_before_year_Suc [OF y(3)] by (simp add: r_def)
  have m: "m < 12" "days_before_month (is_leap y) ! m \<le> r" "r < days_before_month (is_leap y) ! Suc m"
    using month_of_bounds [OF r] by (simp_all add: m_def)
  have d: "Suc d \<le> days_before_month (is_leap y) ! Suc m - days_before_month (is_leap y) ! m"
    using m by (simp add: d_def)
  then have d100: "Suc d < 10 ^ 2" using month_length [OF m(1), of "is_leap y"] by simp
  have rest: "rest < day_us" by (simp add: rest_def day_us_def)
  note day = time_of_day [OF rest, folded sec_def]
  have "parse_time (format_time t) =
      make_time y (Suc m) (Suc d) (sec div 3600) (sec div 60 mod 60) (sec mod 60) (rest mod 1000000) 0"
  proof -
    have "format_time t = digits 4 y @ ''-'' @ digits 2 (Suc m) @ ''-'' @ digits 2 (Suc d) @ ''T'' @
         digits 2 (sec div 3600) @ '':'' @ digits 2 (sec div 60 mod 60) @ '':'' @
         digits 2 (sec mod 60) @ format_fraction (rest mod 1000000) @ ''Z''"
      by (simp only: format_time_def Let_def a_def n_def rest_def y_def r_def m_def d_def sec_def)
    also have "parse_time \<dots> =
      make_time y (Suc m) (Suc d) (sec div 3600) (sec div 60 mod 60) (sec mod 60) (rest mod 1000000) 0"
    proof (rule parse_time_fields)
      have "sec div 60 mod 60 < 60" "sec mod 60 < 60" by simp_all
      then show "sec div 60 mod 60 < 10 ^ 2" "sec mod 60 < 10 ^ 2" by simp_all
    qed (use y(4) m(1) d100 day(1) in simp_all)
    finally show ?thesis .
  qed
  also have "\<dots> = Some (int a - int (unix_epoch_days * day_us))"
  proof -
    have "days_before_year y + days_before_month (is_leap y) ! m + d = n"
      using y m by (simp add: d_def r_def)
    moreover have "n * day_us + rest = a" by (simp add: n_def rest_def)
    ultimately have "(days_before_year y + days_before_month (is_leap y) ! m + d) * day_us +
        ((sec div 3600 * 60 + sec div 60 mod 60) * 60 + sec mod 60) * 1000000 + rest mod 1000000 = a"
      using day(2) by simp
    then show ?thesis using y(3) m(1) d day(1) by (simp only: make_time_def Let_def) simp
  qed
  finally show ?thesis by (simp add: t)
qed

section \<open>Page tokens\<close>

text \<open>The sort key a page resumes after: no time is the start of the listing.\<close>

record cursor =
  c_at :: "time option"
  c_id :: string

definition start_cursor :: cursor where
  "start_cursor = \<lparr>c_at = None, c_id = []\<rparr>"

definition cursor_at :: "time \<times> string \<Rightarrow> cursor" where
  "cursor_at k = \<lparr>c_at = Some (fst k), c_id = snd k\<rparr>"

definition NUL :: char where
  "NUL = CHR 0x00"

fun cutAtNUL :: "string \<Rightarrow> (string \<times> string) option" where
  "cutAtNUL [] = None"
| "cutAtNUL (c # s) =
     (if c = NUL then Some ([], s) else map_option (\<lambda>(a, b). (c # a, b)) (cutAtNUL s))"

definition encodeToken :: "cursor \<Rightarrow> string" where
  "encodeToken c =
     (case c_at c of None \<Rightarrow> [] | Some a \<Rightarrow> b64_encode (format_time a @ [NUL] @ c_id c))"

definition decodeToken :: "pkg \<Rightarrow> string \<Rightarrow> err + cursor" where
  "decodeToken p token =
     (if token = [] then Inr start_cursor
      else case b64_decode token of
             None \<Rightarrow> Inl (ErrInvalid p)
           | Some raw \<Rightarrow>
               (case cutAtNUL raw of
                  None \<Rightarrow> Inl (ErrInvalid p)
                | Some (a, i) \<Rightarrow>
                    (case parse_time a of
                       None \<Rightarrow> Inl (ErrInvalid p)
                     | Some ts \<Rightarrow> Inr \<lparr>c_at = Some ts, c_id = i\<rparr>)))"

lemma cutAtNUL_append: "NUL \<notin> set a \<Longrightarrow> cutAtNUL (a @ NUL # b) = Some (a, b)"
  by (induction a) auto

lemma digit_not_NUL: "is_digit c \<Longrightarrow> c \<noteq> NUL"
  by (auto simp: is_digit_def digit_value_def byte_def NUL_def)

lemma format_fraction_not_NUL: "NUL \<notin> set (format_fraction us)"
proof -
  have "set (trim_zeros s) \<subseteq> set s" for s by (auto simp: trim_zeros_def dest: set_dropWhileD)
  then have "NUL \<notin> set (trim_zeros (digits 6 us))" using is_digit_digits digit_not_NUL by blast
  then show ?thesis by (simp add: format_fraction_def) (simp add: NUL_def)
qed

lemma format_time_not_NUL: "NUL \<notin> set (format_time t)"
proof -
  have "NUL \<notin> set (digits k n)" for k n using is_digit_digits digit_not_NUL by blast
  moreover have "NUL \<notin> set ''-T:Z''" by (simp add: NUL_def)
  ultimately show ?thesis
    by (simp add: format_time_def Let_def format_fraction_not_NUL del: digits.simps)
qed

lemma b64_encode_ne: "s \<noteq> [] \<Longrightarrow> b64_encode s \<noteq> []"
  by (cases s rule: b64_encode.cases) auto

lemma token_round_trip:
  assumes "time_ok a" shows "decodeToken p (encodeToken \<lparr>c_at = Some a, c_id = i\<rparr>) = Inr \<lparr>c_at = Some a, c_id = i\<rparr>"
  by (simp add: decodeToken_def encodeToken_def b64_encode_ne b64_round_trip
      cutAtNUL_append format_time_not_NUL parse_format_time assms)

section \<open>Keyset pages\<close>

text \<open>
  \<open>trimPage\<close>: the query asked for one row more than the page holds, and the last row of the page
  becomes the next token when there is more.
\<close>

definition trimPage :: "('a \<Rightarrow> time \<times> string) \<Rightarrow> 'a list \<Rightarrow> int \<Rightarrow> 'a list \<times> string" where
  "trimPage key rows sz =
     (if int (length rows) \<le> sz then (rows, [])
      else let final = rows ! nat (sz - 1)
           in (take (nat sz) rows, encodeToken (cursor_at (key final))))"

text \<open>\<open>ORDER BY k ASC, id ASC\<close> with the rows after the cursor, and the same descending.\<close>

definition after_asc :: "('a \<Rightarrow> time \<times> string) \<Rightarrow> cursor \<Rightarrow> 'a list \<Rightarrow> 'a list" where
  "after_asc key c rows =
     sort_key key (filter (\<lambda>r. case c_at c of None \<Rightarrow> True | Some a \<Rightarrow> (a, c_id c) < key r) rows)"

definition after_desc :: "('a \<Rightarrow> time \<times> string) \<Rightarrow> cursor \<Rightarrow> 'a list \<Rightarrow> 'a list" where
  "after_desc key c rows =
     rev (sort_key key (filter (\<lambda>r. case c_at c of None \<Rightarrow> True | Some a \<Rightarrow> key r < (a, c_id c)) rows))"

text \<open>
  What a listing relies on: the rows after the cursor of a row are the rows that follow it in the
  whole listing.
\<close>

locale keyset =
  fixes key :: "'a \<Rightarrow> time \<times> string"
    and after :: "cursor \<Rightarrow> 'a list \<Rightarrow> 'a list"
  assumes resume: "distinct (map key rows) \<Longrightarrow> after start_cursor rows = xs @ r # ys \<Longrightarrow>
      after (cursor_at (key r)) rows = ys"
    and all_rows: "set (after start_cursor rows) = set rows"
begin

text \<open>A page starts a listing of what is left; its token leads to a listing of the rest.\<close>

lemma page:
  assumes "distinct (map key rows)" "0 < sz" "after start_cursor rows = xs @ zs"
    and "after c rows = zs" "\<And>r. r \<in> set rows \<Longrightarrow> time_ok (fst (key r))"
    and "trimPage key (take (nat (sz + 1)) (after c rows)) sz = (pg, token)"
  shows "zs = pg @ drop (nat sz) zs" "pg = take (nat sz) zs"
    "token = [] \<longleftrightarrow> length zs \<le> nat sz"
    "token \<noteq> [] \<Longrightarrow> \<exists>c'. decodeToken p token = Inr c' \<and> after c' rows = drop (nat sz) zs"
proof -
  define n where "n = nat sz"
  have sz: "sz = int n" "0 < n" using assms(2) by (simp_all add: n_def)
  have pg: "trimPage key (take (Suc n) zs) (int n) = (pg, token)"
    using assms(4,6) sz by (simp add: nat_add_distrib)
  show pg': "pg = take (nat sz) zs"
    using pg sz by (auto simp: trimPage_def Let_def split: if_splits)
  then show "zs = pg @ drop (nat sz) zs" by simp
  define r where "r = zs ! (n - 1)"
  have token: "token = (if length zs \<le> n then [] else encodeToken (cursor_at (key r)))"
    using pg sz by (auto simp: trimPage_def Let_def r_def nat_diff_distrib split: if_splits)
  have "encodeToken (cursor_at k) \<noteq> []" for k by (simp add: encodeToken_def cursor_at_def b64_encode_ne)
  then show iff: "token = [] \<longleftrightarrow> length zs \<le> nat sz" by (simp add: token sz)
  show "\<exists>c'. decodeToken p token = Inr c' \<and> after c' rows = drop (nat sz) zs" if "token \<noteq> []"
  proof -
    have len: "n < length zs" using that iff sz by simp
    then have "zs = take (n - 1) zs @ r # drop n zs"
      unfolding r_def using id_take_nth_drop [of "n - 1" zs] sz(2) by simp
    then have split: "after start_cursor rows = (xs @ take (n - 1) zs) @ r # drop n zs"
      using assms(3) by (metis append_assoc)
    then have "r \<in> set rows" using all_rows [of rows] by auto
    then have "decodeToken p token = Inr (cursor_at (key r))"
      using token len assms(5) token_round_trip [of "fst (key r)" p "snd (key r)"]
      by (simp add: cursor_at_def)
    then show ?thesis using resume [OF assms(1) split] sz by simp
  qed
qed

end

lemma sorted_split_after:
  assumes "sorted (map key (xs @ r # ys))" "distinct (map key (xs @ r # ys))"
  shows "filter (\<lambda>x. key r < key x) (xs @ r # ys) = ys" "filter (\<lambda>x. key x < key r) (xs @ r # ys) = xs"
proof -
  have "\<forall>x \<in> set xs. key x \<le> key r" "\<forall>y \<in> set ys. key r \<le> key y"
    "\<forall>x \<in> set xs. key x \<noteq> key r" "\<forall>y \<in> set ys. key r \<noteq> key y"
    using assms by (auto simp: sorted_append) (metis image_eqI)+
  then have "\<forall>x \<in> set xs. key x < key r" "\<forall>y \<in> set ys. key r < key y"
    by (simp_all add: order.strict_iff_order)
  then show "filter (\<lambda>x. key r < key x) (xs @ r # ys) = ys" "filter (\<lambda>x. key x < key r) (xs @ r # ys) = xs"
    by (auto simp: filter_id_conv filter_empty_conv less_asym' dest: less_asym)
qed

lemma distinct_keys_sort: "distinct (map key rows) \<Longrightarrow> distinct (map key (sort_key key rows))"
  by (metis mset_map mset_sort distinct_count_atmost_1 mset_eq_imp_distinct_iff)

interpretation asc: keyset key "after_asc key" for key
proof
  fix rows :: "'a list" and xs r ys
  show "set (after_asc key start_cursor rows) = set rows"
    by (simp add: after_asc_def start_cursor_def)
  assume "distinct (map key rows)" and split: "after_asc key start_cursor rows = xs @ r # ys"
  then have "distinct (map key (xs @ r # ys))" "sort_key key rows = xs @ r # ys"
    using distinct_keys_sort [of key rows] by (simp_all add: after_asc_def start_cursor_def)
  then show "after_asc key (cursor_at (key r)) rows = ys"
    using sorted_split_after(1) [of key xs r ys] sorted_sort_key [of key rows]
    by (simp add: after_asc_def cursor_at_def flip: filter_sort)
qed

interpretation desc: keyset key "after_desc key" for key
proof
  fix rows :: "'a list" and xs r ys
  show "set (after_desc key start_cursor rows) = set rows"
    by (simp add: after_desc_def start_cursor_def)
  assume "distinct (map key rows)" and split: "after_desc key start_cursor rows = xs @ r # ys"
  then have sort: "sort_key key rows = rev ys @ r # rev xs"
    by (simp add: after_desc_def start_cursor_def rev_swap)
  moreover from this have "distinct (map key (rev ys @ r # rev xs))"
    using distinct_keys_sort [OF \<open>distinct (map key rows)\<close>] by simp
  ultimately show "after_desc key (cursor_at (key r)) rows = ys"
    using sorted_split_after(2) [of key "rev ys" r "rev xs"] sorted_sort_key [of key rows]
    by (simp add: after_desc_def cursor_at_def flip: filter_sort)
qed

end
