(* ===== verification/BankStore.thy ===== *)
theory BankStore
  imports TenantDB PageToken
begin

text \<open>
  The Postgres bank store (\<open>internal/platform/bank/store_postgres.go\<close>): one definition per
  \<open>Store\<close> method. A row of \<open>banks\<close> holds the stale limit in whole seconds where the Go value
  holds a duration, so a row and a \<open>Bank\<close> differ in that field: \<open>bank_columns\<close> writes it and
  \<open>scanBank\<close> reads it back. A statement that returns rows in the order of a key that does not
  separate them returns them in the order of insertion.
\<close>

section \<open>Rows\<close>

definition bank_columns :: "bank \<Rightarrow> bank" where
  "bank_columns b = b\<lparr>b_stale_limit := staleLimitSeconds (b_stale_limit b)\<rparr>"

definition scanBank :: "bank \<Rightarrow> bank" where
  "scanBank b = b\<lparr>b_stale_limit := to_int64 (b_stale_limit b * Second)\<rparr>"

section \<open>Statements\<close>

text \<open>\<open>INSERT INTO banks\<close>: the primary key, and the name is unique in the tenant.\<close>

definition insert_bank :: "bank \<Rightarrow> tenant_db \<Rightarrow> err + unit \<times> tenant_db" where
  "insert_bank b d =
     (if bank_row (b_id b) d \<noteq> None \<or> b_name b \<in> b_name ` set (banks d) then Inl ErrUnique
      else Inr ((), d\<lparr>banks := banks d @ [b]\<rparr>))"

text \<open>\<open>UPDATE banks SET ... WHERE id = $1 RETURNING\<close>: the changed row, if there is one.\<close>

definition update_bank :: "string \<Rightarrow> (bank \<Rightarrow> bank) \<Rightarrow> tenant_db \<Rightarrow> err + bank option \<times> tenant_db" where
  "update_bank i f d =
     Inr (map_option f (bank_row i d),
          d\<lparr>banks := map (\<lambda>b. if b_id b = i then f b else b) (banks d)\<rparr>)"

text \<open>
  \<open>DELETE FROM banks\<close>: the foreign keys cascade to the members and the jobs of the bank, and from
  the jobs to their inputs and events.
\<close>

definition jobs_of_bank :: "string \<Rightarrow> tenant_db \<Rightarrow> string list" where
  "jobs_of_bank i d = map j_id (filter (\<lambda>j. j_bank j = i) (jobs d))"

definition delete_bank :: "string \<Rightarrow> tenant_db \<Rightarrow> err + nat \<times> tenant_db" where
  "delete_bank i d =
     Inr (length (filter (\<lambda>b. b_id b = i) (banks d)),
          d\<lparr>banks := filter (\<lambda>b. b_id b \<noteq> i) (banks d),
            members := filter (\<lambda>m. m_bank m \<noteq> i) (members d),
            jobs := filter (\<lambda>j. j_bank j \<noteq> i) (jobs d),
            inputs := filter (\<lambda>x. i_job x \<notin> set (jobs_of_bank i d)) (inputs d),
            events := filter (\<lambda>e. ev_job e \<notin> set (jobs_of_bank i d)) (events d)\<rparr>)"

text \<open>
  \<open>INSERT INTO bank_members\<close>: the primary key, the partial unique index on the mission run, and
  the reference to the bank.
\<close>

definition insert_member :: "member \<Rightarrow> tenant_db \<Rightarrow> err + unit \<times> tenant_db" where
  "insert_member m d =
     (if member_row (m_id m) d \<noteq> None \<or>
         (m_mission_run m \<noteq> [] \<and> m_mission_run m \<in> m_mission_run ` set (members d)) then Inl ErrUnique
      else if bank_row (m_bank m) d = None then Inl ErrDB
      else Inr ((), d\<lparr>members := members d @ [m]\<rparr>))"

definition update_member ::
  "string \<Rightarrow> (member \<Rightarrow> member) \<Rightarrow> tenant_db \<Rightarrow> err + member option \<times> tenant_db" where
  "update_member i f d =
     Inr (map_option f (member_row i d),
          d\<lparr>members := map (\<lambda>m. if m_id m = i then f m else m) (members d)\<rparr>)"

definition delete_member :: "string \<Rightarrow> tenant_db \<Rightarrow> err + nat \<times> tenant_db" where
  "delete_member i d =
     Inr (length (filter (\<lambda>m. m_id m = i) (members d)),
          d\<lparr>members := filter (\<lambda>m. m_id m \<noteq> i) (members d)\<rparr>)"

text \<open>A violated unique constraint is reported as an existing row.\<close>

definition already_exists :: "string \<Rightarrow> err \<Rightarrow> err" where
  "already_exists i e = (if e = ErrUnique then ErrAlreadyExists i else e)"

section \<open>Banks\<close>

definition new_bank :: "create_input \<Rightarrow> string \<Rightarrow> time \<Rightarrow> bank" where
  "new_bank inp i now =
     \<lparr>b_id = i, b_name = cr_name inp, b_owner_kind = cr_owner_kind inp, b_owner_id = cr_owner_id inp,
      b_desired_count = cr_desired_count inp, b_login_shape = cr_login_shape inp,
      b_provider_config_name = cr_provider_config_name inp, b_agent_name = cr_agent_name inp,
      b_model = cr_model inp, b_max_jobs_in_flight = cr_max_jobs_in_flight inp,
      b_stale_limit = cr_stale_limit inp, b_spill_policy = cr_spill_policy inp,
      b_created_at = now, b_updated_at = now\<rparr>"

definition Bank_Create :: "string \<Rightarrow> create_input \<Rightarrow> ('x world_scheme, bank) action" where
  "Bank_Create t inp =
     (case CreateInput_Validate inp of
        Inl e \<Rightarrow> fail e
      | Inr inp \<Rightarrow>
          with_conn t (
            bnd read_clock (\<lambda>now.
            bnd NewID (\<lambda>i.
            let b = new_bank inp i now
            in bnd (handle (exec t (insert_bank (bank_columns b))) (\<lambda>e. fail (already_exists (b_name b) e)))
                 (\<lambda>_. ret b)))))"

definition Bank_Get :: "string \<Rightarrow> string \<Rightarrow> ('x world_scheme, bank) action" where
  "Bank_Get t i =
     with_conn t (
       bnd (query t (\<lambda>d. map_option scanBank (bank_row i d))) (from_option (ErrNotFound Pkg_bank i)))"

definition bank_key :: "bank \<Rightarrow> time \<times> string" where
  "bank_key b = (b_created_at b, b_id b)"

text \<open>Newest first.\<close>

definition Bank_List :: "string \<Rightarrow> int \<Rightarrow> string \<Rightarrow> ('x world_scheme, bank list \<times> string) action" where
  "Bank_List t sz token =
     with_conn t (
       let sz = clampPageSize sz
       in case decodeToken Pkg_bank token of
            Inl e \<Rightarrow> fail e
          | Inr c \<Rightarrow>
              bnd (query t (\<lambda>d. map scanBank (take (nat (sz + 1)) (after_desc bank_key c (banks d)))))
                (\<lambda>rows. ret (trimPage bank_key rows sz)))"

text \<open>\<open>COALESCE\<close> per column: an absent field keeps its value.\<close>

definition coalesce :: "'a option \<Rightarrow> 'a \<Rightarrow> 'a" where
  "coalesce xo y = (case xo of None \<Rightarrow> y | Some x \<Rightarrow> x)"

definition apply_update :: "update_input \<Rightarrow> time \<Rightarrow> bank \<Rightarrow> bank" where
  "apply_update inp now b =
     b\<lparr>b_desired_count := coalesce (up_desired_count inp) (b_desired_count b),
       b_max_jobs_in_flight := coalesce (up_max_jobs_in_flight inp) (b_max_jobs_in_flight b),
       b_stale_limit := coalesce (map_option staleLimitSeconds (up_stale_limit inp)) (b_stale_limit b),
       b_spill_policy := coalesce (up_spill_policy inp) (b_spill_policy b),
       b_updated_at := now\<rparr>"

definition Bank_Update :: "string \<Rightarrow> string \<Rightarrow> update_input \<Rightarrow> ('x world_scheme, bank) action" where
  "Bank_Update t i inp =
     (case UpdateInput_Validate inp of
        Some e \<Rightarrow> fail e
      | None \<Rightarrow>
          with_conn t (
            bnd read_clock (\<lambda>now.
            bnd (exec t (update_bank i (apply_update inp now))) (\<lambda>bo.
            from_option (ErrNotFound Pkg_bank i) (map_option scanBank bo)))))"

definition Bank_Delete :: "string \<Rightarrow> string \<Rightarrow> ('x world_scheme, unit) action" where
  "Bank_Delete t i =
     with_conn t (
       bnd (exec t (delete_bank i)) (\<lambda>affected.
       if affected = 0 then fail (ErrNotFound Pkg_bank i) else ret ()))"

definition ListAll :: "string \<Rightarrow> ('x world_scheme, bank list) action" where
  "ListAll t = with_conn t (query t (\<lambda>d. map scanBank (sort_key b_created_at (banks d))))"

section \<open>Members\<close>

definition member_key :: "member \<Rightarrow> time \<times> string" where
  "member_key m = (m_created_at m, m_id m)"

text \<open>Oldest first.\<close>

definition ListMembers ::
  "string \<Rightarrow> string \<Rightarrow> int \<Rightarrow> string \<Rightarrow> ('x world_scheme, member list \<times> string) action" where
  "ListMembers t bank sz token =
     with_conn t (
       let sz = clampPageSize sz
       in case decodeToken Pkg_bank token of
            Inl e \<Rightarrow> fail e
          | Inr c \<Rightarrow>
              bnd (query t (\<lambda>d. take (nat (sz + 1))
                     (after_asc member_key c (filter (\<lambda>m. m_bank m = bank) (members d)))))
                (\<lambda>rows. ret (trimPage member_key rows sz)))"

definition GetMember :: "string \<Rightarrow> string \<Rightarrow> ('x world_scheme, member) action" where
  "GetMember t i =
     (if i = [] then fail (ErrNotFound Pkg_bank [])
      else with_conn t (bnd (query t (member_row i)) (from_option (ErrNotFound Pkg_bank i))))"

definition member_by_run :: "string \<Rightarrow> tenant_db \<Rightarrow> member option" where
  "member_by_run run d = find (\<lambda>m. m_mission_run m = run) (members d)"

definition MemberByRun :: "string \<Rightarrow> string \<Rightarrow> ('x world_scheme, member) action" where
  "MemberByRun t run =
     (if run = [] then fail (ErrNotFound Pkg_bank [])
      else with_conn t (bnd (query t (member_by_run run)) (from_option (ErrNotFound Pkg_bank run))))"

text \<open>The columns the statement leaves out take their defaults.\<close>

definition member_columns :: "member \<Rightarrow> time \<Rightarrow> member" where
  "member_columns m now =
     m\<lparr>m_last_heartbeat := None, m_idle_since := None, m_created_at := now, m_updated_at := now\<rparr>"

definition AddMember :: "string \<Rightarrow> member option \<Rightarrow> ('x world_scheme, unit) action" where
  "AddMember t mo =
     (case mo of
        None \<Rightarrow> fail (ErrInvalid Pkg_bank)
      | Some m \<Rightarrow>
          if m_id m = [] \<or> m_bank m = [] then fail (ErrInvalid Pkg_bank)
          else with_conn t (
                 bnd read_clock (\<lambda>now.
                 handle (exec t (insert_member (member_columns m now))) (\<lambda>e. fail (already_exists (m_id m) e)))))"

definition report_status :: "member_status \<Rightarrow> time \<Rightarrow> member \<Rightarrow> member" where
  "report_status st now m =
     m\<lparr>m_state := (if m_state m = MemberDraining then m_state m else ms_state st),
       m_jobs_in_flight := ms_jobs_in_flight st, m_job_cap := ms_job_cap st,
       m_active_job_ids := ms_active_job_ids st, m_claude_version := ms_claude_version st,
       m_idle_since := (if ms_jobs_in_flight st = 0 then Some (coalesce (m_idle_since m) now) else None),
       m_last_heartbeat := Some now, m_updated_at := now\<rparr>"

definition UpdateMemberStatus ::
  "string \<Rightarrow> string \<Rightarrow> member_status \<Rightarrow> ('x world_scheme, member) action" where
  "UpdateMemberStatus t i st =
     (if \<not> isReportableState (ms_state st) then fail (ErrInvalid Pkg_bank)
      else with_conn t (
             bnd read_clock (\<lambda>now.
             bnd (exec t (update_member i (report_status st now))) (\<lambda>mo.
             from_option (ErrNotFound Pkg_bank i) mo))))"

definition SetMemberState ::
  "string \<Rightarrow> string \<Rightarrow> member_state \<Rightarrow> ('x world_scheme, member) action" where
  "SetMemberState t i s =
     (if \<not> IsMemberState s then fail (ErrInvalid Pkg_bank)
      else with_conn t (
             bnd read_clock (\<lambda>now.
             bnd (exec t (update_member i (\<lambda>m. m\<lparr>m_state := s, m_updated_at := now\<rparr>))) (\<lambda>mo.
             from_option (ErrNotFound Pkg_bank i) mo))))"

definition RemoveMember :: "string \<Rightarrow> string \<Rightarrow> ('x world_scheme, unit) action" where
  "RemoveMember t i =
     with_conn t (
       bnd (exec t (delete_member i)) (\<lambda>n.
       if n = 0 then fail (ErrNotFound Pkg_bank i) else ret ()))"

end
