(* ===== verification/JobStore.thy ===== *)
theory JobStore
  imports TenantDB PageToken
begin

text \<open>
  The Postgres job store (\<open>internal/platform/job/store_postgres.go\<close>): one definition per
  \<open>Store\<close> method, with the statements it runs in order. A row of \<open>jobs\<close>, \<open>job_inputs\<close> and
  \<open>job_events\<close> is the record the scan functions build; the columns that no query reads
  (\<open>created_at\<close>, \<open>updated_at\<close>) are left out.
\<close>

section \<open>Statements\<close>

definition next_seq :: "int list \<Rightarrow> int" where
  "next_seq seqs = (if seqs = [] then 1 else Max (set seqs) + 1)"

definition input_seqs :: "string \<Rightarrow> tenant_db \<Rightarrow> int list" where
  "input_seqs i d = map i_seq (filter (\<lambda>x. i_job x = i) (inputs d))"

definition event_seqs :: "string \<Rightarrow> tenant_db \<Rightarrow> int list" where
  "event_seqs i d = map ev_seq (filter (\<lambda>x. ev_job x = i) (events d))"

text \<open>\<open>INSERT INTO jobs\<close>: the primary key and the reference to the bank.\<close>

definition insert_job :: "job \<Rightarrow> tenant_db \<Rightarrow> err + unit \<times> tenant_db" where
  "insert_job j d =
     (if job_row (j_id j) d \<noteq> None then Inl ErrUnique
      else if bank_row (j_bank j) d = None then Inl ErrDB
      else Inr ((), d\<lparr>jobs := jobs d @ [j]\<rparr>))"

text \<open>\<open>UPDATE jobs SET ... WHERE ...\<close>: the number of rows changed.\<close>

definition update_jobs :: "(job \<Rightarrow> bool) \<Rightarrow> (job \<Rightarrow> job) \<Rightarrow> tenant_db \<Rightarrow> err + nat \<times> tenant_db" where
  "update_jobs p f d =
     Inr (length (filter p (jobs d)), d\<lparr>jobs := map (\<lambda>j. if p j then f j else j) (jobs d)\<rparr>)"

text \<open>\<open>INSERT INTO job_inputs ... RETURNING seq\<close>.\<close>

definition insert_input :: "job_input \<Rightarrow> tenant_db \<Rightarrow> err + int \<times> tenant_db" where
  "insert_input x d =
     (if input_row (i_id x) d \<noteq> None then Inl ErrUnique
      else if job_row (i_job x) d = None then Inl ErrDB
      else let s = next_seq (input_seqs (i_job x) d)
           in Inr (s, d\<lparr>inputs := inputs d @ [x\<lparr>i_seq := s\<rparr>]\<rparr>))"

definition insert_event :: "job_event \<Rightarrow> tenant_db \<Rightarrow> err + unit \<times> tenant_db" where
  "insert_event e d =
     (if job_row (ev_job e) d = None then Inl ErrDB
      else Inr ((), d\<lparr>events := events d @ [e\<lparr>ev_seq := next_seq (event_seqs (ev_job e) d)\<rparr>]\<rparr>))"

section \<open>Shared statements\<close>

record event_fields =
  ef_state :: job_state
  ef_verdict :: verdict
  ef_score :: float64
  ef_message :: string
  ef_input :: string
  ef_payload :: payload

definition no_fields :: event_fields where
  "no_fields = \<lparr>ef_state = StateOther [], ef_verdict = VerdictOther [], ef_score = Fin 0,
                ef_message = [], ef_input = [], ef_payload = NoPayload\<rparr>"

definition new_event :: "string \<Rightarrow> event_kind \<Rightarrow> event_fields \<Rightarrow> time \<Rightarrow> job_event" where
  "new_event i k f now =
     \<lparr>ev_job = i, ev_seq = 0, ev_kind = k, ev_occurred_at = now, ev_state = ef_state f,
      ev_verdict = ef_verdict f, ev_score = ef_score f, ev_message = ef_message f,
      ev_payload = (if ef_input f \<noteq> [] then PayloadInput (ef_input f) else ef_payload f)\<rparr>"

definition appendEvent ::
  "string \<Rightarrow> string \<Rightarrow> event_kind \<Rightarrow> event_fields \<Rightarrow> ('x world_scheme, unit) action" where
  "appendEvent t i k f = bnd read_clock (\<lambda>now. exec t (insert_event (new_event i k f now)))"

definition appendInput :: "string \<Rightarrow> send_input \<Rightarrow> ('x world_scheme, job_input) action" where
  "appendInput t inp =
     bnd read_clock (\<lambda>now.
     bnd NewID (\<lambda>i.
       let x = \<lparr>i_id = i, i_job = si_job inp, i_seq = 0, i_kind = si_kind inp,
                i_message = si_message inp, i_sender = si_sender inp, i_sent_at = now,
                i_acknowledged_at = None\<rparr>
       in bnd (exec t (insert_input x)) (\<lambda>s.
          bnd (appendEvent t (si_job inp) EventInput (no_fields\<lparr>ef_input := i\<rparr>)) (\<lambda>_.
          ret (x\<lparr>i_seq := s\<rparr>)))))"

definition memberHasFreeSlot :: "string \<Rightarrow> string \<Rightarrow> ('x world_scheme, bool) action" where
  "memberHasFreeSlot t mid =
     bnd (query t (member_row mid)) (\<lambda>mo.
     bnd (from_option (ErrNotFound Pkg_job mid) mo) (\<lambda>m.
     ret (m_jobs_in_flight m < m_job_cap m)))"

text \<open>\<open>SELECT state FROM jobs WHERE id = $1 FOR UPDATE\<close>.\<close>

definition lock_job :: "string \<Rightarrow> string \<Rightarrow> ('x world_scheme, job_state) action" where
  "lock_job t i =
     bnd (query t (job_row i)) (\<lambda>jo.
     bnd (from_option (ErrNotFound Pkg_job i) jo) (\<lambda>j. ret (j_state j)))"

definition read_back :: "string \<Rightarrow> string \<Rightarrow> ('x world_scheme, job) action" where
  "read_back t i = bnd (query t (job_row i)) (from_option ErrDB)"

section \<open>Store operations\<close>

definition new_job :: "open_input \<Rightarrow> job_spec \<Rightarrow> string \<Rightarrow> time \<Rightarrow> job" where
  "new_job inp spec i now =
     \<lparr>j_id = i, j_bank = oi_bank inp, j_member = oi_member inp, j_state = StateOpen,
      j_spec = spec, j_session = [], j_opened_by = oi_opened_by inp, j_opened_at = now,
      j_last_input_at = now, j_closed_at = None, j_verdict = VerdictOther [], j_score = Fin 0,
      j_deliverables = [], j_attempts = 0, j_spilled = False\<rparr>"

definition Open_tx :: "string \<Rightarrow> open_input \<Rightarrow> job \<Rightarrow> ('x world_scheme, unit) action" where
  "Open_tx t inp j =
     bnd (if oi_member inp \<noteq> []
          then bnd (memberHasFreeSlot t (oi_member inp)) (\<lambda>free.
               if \<not> free then fail (ErrNoFreeSlot (oi_member inp)) else ret ())
          else ret ()) (\<lambda>_.
     bnd (exec t (insert_job j)) (\<lambda>_.
     appendEvent t (j_id j) EventOpened (no_fields\<lparr>ef_state := j_state j\<rparr>)))"

definition Open :: "string \<Rightarrow> open_input \<Rightarrow> ('x world_scheme, job) action" where
  "Open t inp =
     (case OpenInput_Validate inp of
        Some e \<Rightarrow> fail e
      | None \<Rightarrow>
          with_conn t (
            case oi_spec inp of
              None \<Rightarrow> fail ErrMarshal
            | Some spec \<Rightarrow>
                bnd (\<lambda>w. if marshals_spec w spec then ret () w else fail ErrMarshal w) (\<lambda>_.
                bnd read_clock (\<lambda>now.
                bnd NewID (\<lambda>i.
                let j = new_job inp spec i now
                in bnd (InTx t (Open_tx t inp j)) (\<lambda>_. ret j))))))"

definition Get :: "string \<Rightarrow> string \<Rightarrow> ('x world_scheme, job) action" where
  "Get t i =
     with_conn t (bnd (query t (job_row i)) (from_option (ErrNotFound Pkg_job i)))"

text \<open>\<open>List\<close>: newest first; every set field of the filter narrows the listing.\<close>

record list_filter =
  lf_bank :: string
  lf_member :: string
  lf_state :: job_state

definition matches_filter :: "list_filter \<Rightarrow> job \<Rightarrow> bool" where
  "matches_filter f j \<longleftrightarrow>
     (lf_bank f = [] \<or> j_bank j = lf_bank f) \<and> (lf_member f = [] \<or> j_member j = lf_member f) \<and>
     (lf_state f = StateOther [] \<or> j_state j = lf_state f)"

definition job_key :: "job \<Rightarrow> time \<times> string" where
  "job_key j = (j_opened_at j, j_id j)"

definition Job_decodeToken :: "string \<Rightarrow> err + cursor" where
  "Job_decodeToken = decodeToken Pkg_job"

definition Job_trimPage :: "job list \<Rightarrow> int \<Rightarrow> job list \<times> string" where
  "Job_trimPage = trimPage job_key"

definition Job_List ::
  "string \<Rightarrow> list_filter \<Rightarrow> int \<Rightarrow> string \<Rightarrow> ('x world_scheme, job list \<times> string) action" where
  "Job_List t f sz token =
     with_conn t (
       let sz = clampPageSize sz
       in case Job_decodeToken token of
            Inl e \<Rightarrow> fail e
          | Inr c \<Rightarrow>
              bnd (query t (\<lambda>d. take (nat (sz + 1)) (after_desc job_key c (filter (matches_filter f) (jobs d)))))
                (\<lambda>rows. ret (Job_trimPage rows sz)))"

definition Send_tx :: "string \<Rightarrow> send_input \<Rightarrow> ('x world_scheme, job_input) action" where
  "Send_tx t inp =
     bnd (lock_job t (si_job inp)) (\<lambda>state.
     if state = StateClosed \<and> si_kind inp \<noteq> InputWrapUp then fail (ErrClosed (si_job inp))
     else
       bnd (appendInput t inp) (\<lambda>x.
       if state \<noteq> StateClosed then
         bnd (exec t (update_jobs (\<lambda>j. j_id j = si_job inp)
                (\<lambda>j. j\<lparr>j_state := StateWorking, j_last_input_at := i_sent_at x\<rparr>))) (\<lambda>_.
         bnd (appendEvent t (si_job inp) EventState (no_fields\<lparr>ef_state := StateWorking\<rparr>)) (\<lambda>_.
         ret x))
       else
         bnd (exec t (update_jobs (\<lambda>j. j_id j = si_job inp)
                (\<lambda>j. j\<lparr>j_last_input_at := i_sent_at x\<rparr>))) (\<lambda>_.
         ret x)))"

definition Send :: "string \<Rightarrow> send_input \<Rightarrow> ('x world_scheme, job_input) action" where
  "Send t inp =
     (case SendInput_Validate inp of
        Inl e \<Rightarrow> fail e
      | Inr inp \<Rightarrow> with_conn t (InTx t (Send_tx t inp)))"

definition wrap_up :: "close_input \<Rightarrow> send_input" where
  "wrap_up inp =
     \<lparr>si_job = ci_job inp, si_kind = InputWrapUp,
      si_message = ''The job is closed with verdict '' @ verdict_string (ci_verdict inp) @
        ''. Perform the declared deliverables, then summarize what you did.'',
      si_sender = ci_closer inp\<rparr>"

definition Close_tx :: "string \<Rightarrow> close_input \<Rightarrow> ('x world_scheme, job) action" where
  "Close_tx t inp =
     bnd (lock_job t (ci_job inp)) (\<lambda>state.
     if state = StateClosed then fail (ErrClosed (ci_job inp))
     else
       bnd read_clock (\<lambda>now.
       bnd (exec t (update_jobs (\<lambda>j. j_id j = ci_job inp)
              (\<lambda>j. j\<lparr>j_state := StateClosed, j_verdict := ci_verdict inp,
                     j_score := ci_score inp, j_closed_at := Some now\<rparr>))) (\<lambda>_.
       bnd (appendInput t (wrap_up inp)) (\<lambda>_.
       bnd (appendEvent t (ci_job inp) EventClosed
              (no_fields\<lparr>ef_state := StateClosed, ef_verdict := ci_verdict inp,
                         ef_score := ci_score inp\<rparr>)) (\<lambda>_.
       read_back t (ci_job inp))))))"

definition Close :: "string \<Rightarrow> close_input \<Rightarrow> ('x world_scheme, job) action" where
  "Close t inp =
     (case CloseInput_Validate inp of
        Some e \<Rightarrow> fail e
      | None \<Rightarrow> with_conn t (InTx t (Close_tx t inp)))"

text \<open>The queue of a bank: the jobs no member holds that are not closed.\<close>

definition queued :: "string \<Rightarrow> job \<Rightarrow> bool" where
  "queued bank j \<longleftrightarrow> j_bank j = bank \<and> j_member j = [] \<and> j_state j \<noteq> StateClosed"

definition oldest_queued :: "string \<Rightarrow> tenant_db \<Rightarrow> job option" where
  "oldest_queued bank d =
     (case sort_key j_opened_at (filter (queued bank) (jobs d)) of [] \<Rightarrow> None | j # _ \<Rightarrow> Some j)"

definition Claim_tx :: "string \<Rightarrow> string \<Rightarrow> string \<Rightarrow> ('x world_scheme, job option) action" where
  "Claim_tx t bank mid =
     bnd (memberHasFreeSlot t mid) (\<lambda>free.
     if \<not> free then fail (ErrNoFreeSlot mid)
     else
       bnd (query t (oldest_queued bank)) (\<lambda>jo.
       case jo of
         None \<Rightarrow> ret None
       | Some q \<Rightarrow>
           bnd (exec t (update_jobs (\<lambda>j. j_id j = j_id q) (\<lambda>j. j\<lparr>j_member := mid\<rparr>))) (\<lambda>_.
           bnd (read_back t (j_id q)) (\<lambda>j. ret (Some j)))))"

definition Claim :: "string \<Rightarrow> string \<Rightarrow> string \<Rightarrow> ('x world_scheme, job option) action" where
  "Claim t bank mid = with_conn t (InTx t (Claim_tx t bank mid))"

definition pending :: "string \<Rightarrow> tenant_db \<Rightarrow> job_input list" where
  "pending mid d =
     sort_key (\<lambda>x. (i_sent_at x, i_seq x))
       (filter (\<lambda>x. i_acknowledged_at x = None \<and>
                  (\<exists>j \<in> set (jobs d). j_id j = i_job x \<and> j_member j = mid)) (inputs d))"

definition PendingInputs :: "string \<Rightarrow> string \<Rightarrow> int \<Rightarrow> ('x world_scheme, job_input list) action" where
  "PendingInputs t mid limit =
     with_conn t (query t (\<lambda>d. take (nat (clampPageSize limit)) (pending mid d)))"

text \<open>\<open>SET acknowledged_at = now() WHERE id = $1 AND acknowledged_at IS NULL\<close>.\<close>

definition ack_input :: "string \<Rightarrow> time \<Rightarrow> job_input \<Rightarrow> job_input" where
  "ack_input i now x =
     (if i_id x = i \<and> i_acknowledged_at x = None then x\<lparr>i_acknowledged_at := Some now\<rparr> else x)"

definition Acknowledge :: "string \<Rightarrow> string \<Rightarrow> ('x world_scheme, unit) action" where
  "Acknowledge t i =
     with_conn t (bnd read_clock (\<lambda>now.
       exec t (\<lambda>d. Inr ((), d\<lparr>inputs := map (ack_input i now) (inputs d)\<rparr>))))"

definition SetState_tx ::
  "string \<Rightarrow> string \<Rightarrow> job_state \<Rightarrow> string \<Rightarrow> ('x world_scheme, job) action" where
  "SetState_tx t i state session =
     bnd (lock_job t i) (\<lambda>current.
     if current = StateClosed then fail (ErrClosed i)
     else
       bnd (exec t (update_jobs (\<lambda>j. j_id j = i)
              (\<lambda>j. j\<lparr>j_state := state,
                     j_session := (if session = [] then j_session j else session)\<rparr>))) (\<lambda>_.
       bnd (appendEvent t i EventState (no_fields\<lparr>ef_state := state\<rparr>)) (\<lambda>_.
       read_back t i)))"

definition SetState ::
  "string \<Rightarrow> string \<Rightarrow> job_state \<Rightarrow> string \<Rightarrow> ('x world_scheme, job) action" where
  "SetState t i state session =
     (if \<not> IsState state then fail (ErrInvalid Pkg_job)
      else if state = StateClosed then fail (ErrInvalid Pkg_job)
      else with_conn t (InTx t (SetState_tx t i state session)))"

definition AddDeliverable_tx ::
  "string \<Rightarrow> string \<Rightarrow> deliverable \<Rightarrow> ('x world_scheme, job) action" where
  "AddDeliverable_tx t i dv =
     bnd (exec t (update_jobs (\<lambda>j. j_id j = i)
            (\<lambda>j. j\<lparr>j_deliverables := j_deliverables j @ [dv]\<rparr>))) (\<lambda>affected.
     if affected = 0 then fail (ErrNotFound Pkg_job i)
     else
       bnd (appendEvent t i EventDeliverable
              (no_fields\<lparr>ef_payload := PayloadDeliverable dv\<rparr>)) (\<lambda>_.
       read_back t i))"

definition AddDeliverable ::
  "string \<Rightarrow> string \<Rightarrow> deliverable option \<Rightarrow> ('x world_scheme, job) action" where
  "AddDeliverable t i dvo =
     (case dvo of
        None \<Rightarrow> fail (ErrInvalid Pkg_job)
      | Some dv \<Rightarrow>
          with_conn t (
            bnd (\<lambda>w. if marshals_deliverable w dv then ret () w else fail ErrMarshal w) (\<lambda>_.
            InTx t (AddDeliverable_tx t i dv))))"

definition Events :: "string \<Rightarrow> string \<Rightarrow> int \<Rightarrow> int \<Rightarrow> ('x world_scheme, job_event list) action" where
  "Events t i since limit =
     with_conn t (query t (\<lambda>d.
       take (nat (clampPageSize limit))
         (sort_key ev_seq (filter (\<lambda>e. ev_job e = i \<and> ev_seq e > since) (events d)))))"

definition ReleaseMember :: "string \<Rightarrow> string \<Rightarrow> ('x world_scheme, nat) action" where
  "ReleaseMember t mid =
     (if mid = [] then fail (ErrInvalid Pkg_job)
      else with_conn t (exec t (update_jobs (\<lambda>j. j_member j = mid \<and> j_state j \<noteq> StateClosed)
                                   (\<lambda>j. j\<lparr>j_member := []\<rparr>))))"

text \<open>Times are microseconds, the stale limit is in seconds.\<close>

definition Stale :: "string \<Rightarrow> string \<Rightarrow> int \<Rightarrow> int \<Rightarrow> ('x world_scheme, job list) action" where
  "Stale t bank staleSeconds limit =
     (if staleSeconds \<le> 0 then ret []
      else with_conn t (bnd read_clock (\<lambda>now.
        query t (\<lambda>d. take (nat (clampPageSize limit))
          (sort_key j_last_input_at
             (filter (\<lambda>j. j_bank j = bank \<and> j_state j \<noteq> StateClosed \<and>
                          j_last_input_at j < now - staleSeconds * 1000000) (jobs d)))))))"

definition Unassigned :: "string \<Rightarrow> string \<Rightarrow> ('x world_scheme, nat) action" where
  "Unassigned t bank =
     (if bank = [] then fail (ErrInvalid Pkg_job)
      else with_conn t (query t (\<lambda>d. length (filter (queued bank) (jobs d)))))"

end
