(* ===== verification/JobSpec.thy ===== *)
theory JobSpec
  imports JobStore
begin

text \<open>
  What the job store promises, without the driver: one step of the tables per operation
  (\<open>job_step\<close>), and the proof that every operation of \<open>JobStore\<close>, whatever the driver does,
  takes one such step or leaves the tables as they were. The invariants of jobs, inputs and
  events are then proved once, by rule induction over the steps.
\<close>

section \<open>Views and updates\<close>

definition inputs_of :: "string \<Rightarrow> tenant_db \<Rightarrow> job_input list" where
  "inputs_of i d = filter (\<lambda>x. i_job x = i) (inputs d)"

definition events_of :: "string \<Rightarrow> tenant_db \<Rightarrow> job_event list" where
  "events_of i d = filter (\<lambda>x. ev_job x = i) (events d)"

definition push_event :: "job_event \<Rightarrow> tenant_db \<Rightarrow> tenant_db" where
  "push_event e d = d\<lparr>events := events d @ [e\<lparr>ev_seq := next_seq (event_seqs (ev_job e) d)\<rparr>]\<rparr>"

definition push_input :: "job_input \<Rightarrow> tenant_db \<Rightarrow> tenant_db" where
  "push_input x d = d\<lparr>inputs := inputs d @ [x\<lparr>i_seq := next_seq (input_seqs (i_job x) d)\<rparr>]\<rparr>"

definition set_jobs :: "(job \<Rightarrow> bool) \<Rightarrow> (job \<Rightarrow> job) \<Rightarrow> tenant_db \<Rightarrow> tenant_db" where
  "set_jobs p f d = d\<lparr>jobs := map (\<lambda>j. if p j then f j else j) (jobs d)\<rparr>"

abbreviation set_job :: "string \<Rightarrow> (job \<Rightarrow> job) \<Rightarrow> tenant_db \<Rightarrow> tenant_db" where
  "set_job i \<equiv> set_jobs (\<lambda>j. j_id j = i)"

definition input_event :: "job_input \<Rightarrow> time \<Rightarrow> job_event" where
  "input_event x now = new_event (i_job x) EventInput (no_fields\<lparr>ef_input := i_id x\<rparr>) now"

definition state_event :: "string \<Rightarrow> job_state \<Rightarrow> time \<Rightarrow> job_event" where
  "state_event i s now = new_event i EventState (no_fields\<lparr>ef_state := s\<rparr>) now"

definition closed_event :: "string \<Rightarrow> verdict \<Rightarrow> float64 \<Rightarrow> time \<Rightarrow> job_event" where
  "closed_event i v s now =
     new_event i EventClosed (no_fields\<lparr>ef_state := StateClosed, ef_verdict := v, ef_score := s\<rparr>) now"

lemma event_simps [simp]:
  "ev_job (new_event i k f now) = i" "ev_kind (new_event i k f now) = k"
  "ev_verdict (new_event i k f now) = ef_verdict f" "ev_score (new_event i k f now) = ef_score f"
  by (simp_all add: new_event_def)

lemma insert_event_Inr:
  "insert_event e d = Inr (u, d') \<longleftrightarrow> job_row (ev_job e) d \<noteq> None \<and> d' = push_event e d"
  by (auto simp: insert_event_def push_event_def)

lemma insert_input_Inr:
  "insert_input x d = Inr (s, d') \<longleftrightarrow>
     input_row (i_id x) d = None \<and> job_row (i_job x) d \<noteq> None \<and>
     s = next_seq (input_seqs (i_job x) d) \<and> d' = push_input x d"
  by (auto simp: insert_input_def push_input_def Let_def)

lemma update_jobs_Inr:
  "update_jobs p f d = Inr (n, d') \<longleftrightarrow> n = length (filter p (jobs d)) \<and> d' = set_jobs p f d"
  by (auto simp: update_jobs_def set_jobs_def)

lemma insert_job_Inr:
  "insert_job j d = Inr (u, d') \<longleftrightarrow>
     job_row (j_id j) d = None \<and> bank_row (j_bank j) d \<noteq> None \<and> d' = d\<lparr>jobs := jobs d @ [j]\<rparr>"
  by (auto simp: insert_job_def)

section \<open>Steps\<close>

inductive job_step :: "tenant_db \<Rightarrow> tenant_db \<Rightarrow> bool" where
  opened:
    "job_row (j_id j) d = None \<Longrightarrow> bank_row (j_bank j) d \<noteq> None \<Longrightarrow>
     (j_member j \<noteq> [] \<Longrightarrow> \<exists>m. member_row (j_member j) d = Some m \<and> m_jobs_in_flight m < m_job_cap m) \<Longrightarrow>
     j_state j = StateOpen \<Longrightarrow> j_closed_at j = None \<Longrightarrow>
     job_step d (push_event (new_event (j_id j) EventOpened f now) (d\<lparr>jobs := jobs d @ [j]\<rparr>))"
| sent:
    "job_row (i_job x) d = Some j \<Longrightarrow> j_state j \<noteq> StateClosed \<Longrightarrow> input_row (i_id x) d = None \<Longrightarrow>
     job_step d
       (push_event (state_event (i_job x) StateWorking now')
         (set_job (i_job x) (\<lambda>j. j\<lparr>j_state := StateWorking, j_last_input_at := i_sent_at x\<rparr>)
           (push_event (input_event x now) (push_input x d))))"
| wrap_up_sent:
    "job_row (i_job x) d = Some j \<Longrightarrow> j_state j = StateClosed \<Longrightarrow> i_kind x = InputWrapUp \<Longrightarrow>
     input_row (i_id x) d = None \<Longrightarrow>
     job_step d
       (set_job (i_job x) (\<lambda>j. j\<lparr>j_last_input_at := i_sent_at x\<rparr>)
         (push_event (input_event x now) (push_input x d)))"
| closed:
    "job_row (i_job x) d = Some j \<Longrightarrow> j_state j \<noteq> StateClosed \<Longrightarrow> IsVerdict v \<Longrightarrow>
     i_kind x = InputWrapUp \<Longrightarrow> input_row (i_id x) d = None \<Longrightarrow>
     job_step d
       (push_event (closed_event (i_job x) v s now'')
         (push_event (input_event x now')
           (push_input x
             (set_job (i_job x)
               (\<lambda>j. j\<lparr>j_state := StateClosed, j_verdict := v, j_score := s, j_closed_at := Some now\<rparr>)
               d))))"
| claimed:
    "q \<in> set (jobs d) \<Longrightarrow> queued bank q \<Longrightarrow>
     (\<forall>j \<in> set (jobs d). queued bank j \<longrightarrow> j_opened_at q \<le> j_opened_at j) \<Longrightarrow>
     member_row mid d = Some m \<Longrightarrow> m_jobs_in_flight m < m_job_cap m \<Longrightarrow>
     job_step d (set_job (j_id q) (\<lambda>j. j\<lparr>j_member := mid\<rparr>) d)"
| acknowledged:
    "job_step d (d\<lparr>inputs := map (ack_input i now) (inputs d)\<rparr>)"
| state_set:
    "job_row i d = Some j \<Longrightarrow> j_state j \<noteq> StateClosed \<Longrightarrow> s \<noteq> StateClosed \<Longrightarrow> IsState s \<Longrightarrow>
     job_step d
       (push_event (state_event i s now)
         (set_job i (\<lambda>j. j\<lparr>j_state := s, j_session := (if ses = [] then j_session j else ses)\<rparr>) d))"
| delivered:
    "job_row i d = Some j \<Longrightarrow>
     job_step d
       (push_event (new_event i EventDeliverable (no_fields\<lparr>ef_payload := PayloadDeliverable dv\<rparr>) now)
         (set_job i (\<lambda>j. j\<lparr>j_deliverables := j_deliverables j @ [dv]\<rparr>) d))"
| released:
    "mid \<noteq> [] \<Longrightarrow>
     job_step d (set_jobs (\<lambda>j. j_member j = mid \<and> j_state j \<noteq> StateClosed) (\<lambda>j. j\<lparr>j_member := []\<rparr>) d)"

inductive_cases job_stepE: "job_step d d'"

section \<open>Row lookups\<close>

lemma job_row_Some: "job_row i d = Some j \<Longrightarrow> j \<in> set (jobs d) \<and> j_id j = i"
  by (auto simp: job_row_def find_Some_iff)

lemma job_row_None: "job_row i d = None \<longleftrightarrow> i \<notin> j_id ` set (jobs d)"
  by (auto simp: job_row_def find_None_iff)

lemma job_row_distinct:
  assumes "distinct (map j_id (jobs d))" "j \<in> set (jobs d)"
  shows "job_row (j_id j) d = Some j"
proof (cases "job_row (j_id j) d")
  case None
  with assms(2) show ?thesis by (simp add: job_row_None)
next
  case (Some j')
  then have "j' \<in> set (jobs d)" "j_id j' = j_id j" by (auto dest: job_row_Some)
  with assms Some show ?thesis by (metis distinct_map inj_onD)
qed

lemma oldest_queued_Some:
  assumes "oldest_queued bank d = Some q"
  shows "q \<in> set (jobs d)" "queued bank q"
    "\<forall>j \<in> set (jobs d). queued bank j \<longrightarrow> j_opened_at q \<le> j_opened_at j"
proof -
  let ?xs = "sort_key j_opened_at (filter (queued bank) (jobs d))"
  obtain rest where xs: "?xs = q # rest"
    using assms by (auto simp: oldest_queued_def split: list.splits)
  then have "q \<in> set ?xs" by simp
  then show "q \<in> set (jobs d)" "queued bank q" by auto
  have "sorted (map j_opened_at ?xs)" by simp
  then have "\<forall>j \<in> set ?xs. j_opened_at q \<le> j_opened_at j" unfolding xs by auto
  then show "\<forall>j \<in> set (jobs d). queued bank j \<longrightarrow> j_opened_at q \<le> j_opened_at j" by simp
qed

lemma oldest_queued_None:
  "oldest_queued bank d = None \<longleftrightarrow> filter (queued bank) (jobs d) = []"
proof -
  have "oldest_queued bank d = None \<longleftrightarrow> sort_key j_opened_at (filter (queued bank) (jobs d)) = []"
    by (simp add: oldest_queued_def split: list.split)
  also have "\<dots> \<longleftrightarrow> length (sort_key j_opened_at (filter (queued bank) (jobs d))) = 0"
    by (simp only: length_0_conv)
  finally show ?thesis by (simp only: length_sort length_0_conv)
qed

section \<open>Completed transaction bodies\<close>

lemma appendEvent_Inr:
  assumes "appendEvent t i k f w = (Inr u, w')"
  obtains now where "dbs w' = (dbs w)(t := push_event (new_event i k f now) (dbs w t))"
    and "job_row i (dbs w t) \<noteq> None"
  using assms that by (auto simp: appendEvent_def insert_event_Inr)

lemma appendInput_Inr:
  assumes "appendInput t inp w = (Inr y, w')"
  obtains x now where
    "dbs w' = (dbs w)(t := push_event (input_event x now) (push_input x (dbs w t)))"
    and "i_job x = si_job inp" "i_kind x = si_kind inp" "i_sent_at x = i_sent_at y"
    and "input_row (i_id x) (dbs w t) = None"
proof -
  let ?w1 = "w\<lparr>ticks := Suc (ticks w)\<rparr>"
  let ?x = "\<lparr>i_id = uuid w (fresh w), i_job = si_job inp, i_seq = 0, i_kind = si_kind inp,
      i_message = si_message inp, i_sender = si_sender inp, i_sent_at = clock w (ticks w),
      i_acknowledged_at = None\<rparr>"
  let ?w2 = "?w1\<lparr>fresh := Suc (fresh w)\<rparr>"
  from assms obtain s w3 w4 where ex: "exec t (insert_input ?x) ?w2 = (Inr s, w3)"
    and ev: "appendEvent t (si_job inp) EventInput (no_fields\<lparr>ef_input := uuid w (fresh w)\<rparr>) w3 =
      (Inr (), w4)" and y: "y = ?x\<lparr>i_seq := s\<rparr>" and w': "w' = w4"
    by (auto simp: appendInput_def Let_def)
  from ex have w3: "dbs w3 = (dbs w)(t := push_input ?x (dbs w t))"
    and free: "input_row (uuid w (fresh w)) (dbs w t) = None"
    by (auto simp: insert_input_Inr)
  from ev obtain now where "dbs w4 = (dbs w3)(t := push_event (new_event (si_job inp) EventInput
      (no_fields\<lparr>ef_input := uuid w (fresh w)\<rparr>) now) (dbs w3 t))"
    by (rule appendEvent_Inr)
  then show ?thesis
    using that [of ?x now] w3 free y w' by (simp add: input_event_def)
qed

lemma lock_job_Inr:
  assumes "lock_job t i w = (Inr s, w')"
  obtains j where "dbs w' = dbs w" "job_row i (dbs w t) = Some j" "s = j_state j"
  using assms that by (auto simp: lock_job_def)

lemma read_back_Inr:
  assumes "read_back t i w = (Inr j, w')"
  shows "dbs w' = dbs w" "job_row i (dbs w t) = Some j"
  using assms by (auto simp: read_back_def)

lemma memberHasFreeSlot_Inr:
  assumes "memberHasFreeSlot t mid w = (Inr free, w')"
  obtains m where "dbs w' = dbs w" "member_row mid (dbs w t) = Some m"
    "free \<longleftrightarrow> m_jobs_in_flight m < m_job_cap m"
  using assms that by (auto simp: memberHasFreeSlot_def)

lemma exec_update_jobs_Inr:
  "exec t (update_jobs p f) w = (Inr n, w') \<Longrightarrow>
     dbs w' = (dbs w)(t := set_jobs p f (dbs w t)) \<and> n = length (filter p (jobs (dbs w t)))"
  by (auto simp: update_jobs_Inr)

lemma Open_tx_step:
  assumes "Open_tx t inp j w = (Inr u, w')" "j = new_job inp spec i now"
  shows "job_step (dbs w t) (dbs w' t)"
proof -
  let ?slot = "if oi_member inp \<noteq> []
          then bnd (memberHasFreeSlot t (oi_member inp)) (\<lambda>free.
               if \<not> free then fail (ErrNoFreeSlot (oi_member inp)) else ret ())
          else ret ()"
  from assms(1) obtain w1 w2 where slot: "?slot w = (Inr (), w1)"
    and ins: "exec t (insert_job j) w1 = (Inr (), w2)"
    and ev: "appendEvent t (j_id j) EventOpened (no_fields\<lparr>ef_state := j_state j\<rparr>) w2 = (Inr (), w')"
    unfolding Open_tx_def bnd_Inr by auto
  have w1: "dbs w1 = dbs w \<and> (oi_member inp \<noteq> [] \<longrightarrow> (\<exists>m. member_row (oi_member inp) (dbs w t) = Some m \<and>
      m_jobs_in_flight m < m_job_cap m))"
  proof (cases "oi_member inp = []")
    case False
    with slot obtain free where "memberHasFreeSlot t (oi_member inp) w = (Inr free, w1)" "free"
      by (auto split: if_splits)
    then show ?thesis by (auto elim: memberHasFreeSlot_Inr)
  qed (use slot in simp)
  from ins have w2: "job_row (j_id j) (dbs w t) = None" "bank_row (j_bank j) (dbs w t) \<noteq> None"
    "dbs w2 t = (dbs w t)\<lparr>jobs := jobs (dbs w t) @ [j]\<rparr>"
    using w1 by (auto simp: insert_job_Inr)
  from ev obtain now' where "dbs w' = (dbs w2)(t := push_event (new_event (j_id j) EventOpened
      (no_fields\<lparr>ef_state := j_state j\<rparr>) now') (dbs w2 t))" by (rule appendEvent_Inr)
  then have eq: "dbs w' t = push_event (new_event (j_id j) EventOpened (no_fields\<lparr>ef_state := j_state j\<rparr>)
      now') ((dbs w t)\<lparr>jobs := jobs (dbs w t) @ [j]\<rparr>)" using w2(3) by simp
  show ?thesis
    unfolding eq by (rule opened [OF w2(1,2)]) (use w1 assms(2) in \<open>simp_all add: new_job_def\<close>)
qed

lemma Send_tx_step:
  assumes "Send_tx t inp w = (Inr y, w')"
  shows "job_step (dbs w t) (dbs w' t)"
proof -
  from assms obtain s w1 where lock: "lock_job t (si_job inp) w = (Inr s, w1)"
    and kind: "s = StateClosed \<Longrightarrow> si_kind inp = InputWrapUp"
    and rest: "bnd (appendInput t inp) (\<lambda>x.
       if s \<noteq> StateClosed then
         bnd (exec t (update_jobs (\<lambda>j. j_id j = si_job inp)
                (\<lambda>j. j\<lparr>j_state := StateWorking, j_last_input_at := i_sent_at x\<rparr>))) (\<lambda>_.
         bnd (appendEvent t (si_job inp) EventState (no_fields\<lparr>ef_state := StateWorking\<rparr>)) (\<lambda>_.
         ret x))
       else
         bnd (exec t (update_jobs (\<lambda>j. j_id j = si_job inp)
                (\<lambda>j. j\<lparr>j_last_input_at := i_sent_at x\<rparr>))) (\<lambda>_.
         ret x)) w1 = (Inr y, w')"
    unfolding Send_tx_def bnd_Inr by (auto split: if_splits)
  obtain j where w1: "dbs w1 = dbs w" and j: "job_row (si_job inp) (dbs w t) = Some j" "s = j_state j"
    using lock by (rule lock_job_Inr)
  from rest obtain x0 w2 where app: "appendInput t inp w1 = (Inr x0, w2)"
    unfolding bnd_Inr by blast
  obtain x now where x: "dbs w2 = (dbs w1)(t := push_event (input_event x now) (push_input x (dbs w1 t)))"
    "i_job x = si_job inp" "i_kind x = si_kind inp" "i_sent_at x = i_sent_at x0"
    "input_row (i_id x) (dbs w1 t) = None" using app by (rule appendInput_Inr)
  show ?thesis
  proof (cases "s = StateClosed")
    case True
    with rest app obtain n where upd: "exec t (update_jobs (\<lambda>j. j_id j = si_job inp)
        (\<lambda>j. j\<lparr>j_last_input_at := i_sent_at x0\<rparr>)) w2 = (Inr n, w')" by auto
    have "dbs w' t = set_job (i_job x) (\<lambda>j. j\<lparr>j_last_input_at := i_sent_at x\<rparr>)
        (push_event (input_event x now) (push_input x (dbs w t)))"
      using exec_update_jobs_Inr [OF upd] by (simp add: x w1)
    then show ?thesis using wrap_up_sent [of x "dbs w t" j] x j True kind w1 by simp
  next
    case False
    with rest app obtain n w3 where
      upd: "exec t (update_jobs (\<lambda>j. j_id j = si_job inp)
        (\<lambda>j. j\<lparr>j_state := StateWorking, j_last_input_at := i_sent_at x0\<rparr>)) w2 = (Inr n, w3)"
      and ev: "appendEvent t (si_job inp) EventState (no_fields\<lparr>ef_state := StateWorking\<rparr>) w3 = (Inr (), w')"
      by auto
    obtain now' where "dbs w' = (dbs w3)(t := push_event (new_event (si_job inp) EventState
        (no_fields\<lparr>ef_state := StateWorking\<rparr>) now') (dbs w3 t))" using ev by (rule appendEvent_Inr)
    then have "dbs w' t = push_event (state_event (i_job x) StateWorking now')
        (set_job (i_job x) (\<lambda>j. j\<lparr>j_state := StateWorking, j_last_input_at := i_sent_at x\<rparr>)
          (push_event (input_event x now) (push_input x (dbs w t))))"
      using exec_update_jobs_Inr [OF upd] by (simp add: x w1 state_event_def)
    then show ?thesis using sent [of x "dbs w t" j] x j False w1 by simp
  qed
qed

lemma job_row_updates [simp]:
  "job_row i (push_event e d) = job_row i d" "job_row i (push_input x d) = job_row i d"
  by (simp_all add: job_row_def push_event_def push_input_def)

lemma job_row_set_jobs:
  assumes "\<And>j. j_id (f j) = j_id j"
  shows "job_row i (set_jobs p f d) = map_option (\<lambda>j. if p j then f j else j) (job_row i d)"
proof -
  have "find (\<lambda>j. j_id j = i) (map (\<lambda>j. if p j then f j else j) js) =
      map_option (\<lambda>j. if p j then f j else j) (find (\<lambda>j. j_id j = i) js)" for js
    by (induction js) (auto simp: assms)
  then show ?thesis by (simp add: job_row_def set_jobs_def)
qed

lemma Close_tx_Inr:
  assumes "Close_tx t inp w = (Inr y, w')"
  obtains x j now now' now'' where
    "dbs w' t = push_event (closed_event (i_job x) (ci_verdict inp) (ci_score inp) now'')
       (push_event (input_event x now')
         (push_input x
           (set_job (i_job x) (\<lambda>j. j\<lparr>j_state := StateClosed, j_verdict := ci_verdict inp,
              j_score := ci_score inp, j_closed_at := Some now\<rparr>) (dbs w t))))"
    and "i_job x = ci_job inp" "i_kind x = InputWrapUp" "input_row (i_id x) (dbs w t) = None"
    and "job_row (ci_job inp) (dbs w t) = Some j" "j_state j \<noteq> StateClosed"
    and "job_row (ci_job inp) (dbs w' t) = Some y"
proof -
  from assms obtain s w1 where lock: "lock_job t (ci_job inp) w = (Inr s, w1)"
    and "s \<noteq> StateClosed"
    and rest: "bnd read_clock (\<lambda>now.
       bnd (exec t (update_jobs (\<lambda>j. j_id j = ci_job inp)
              (\<lambda>j. j\<lparr>j_state := StateClosed, j_verdict := ci_verdict inp,
                     j_score := ci_score inp, j_closed_at := Some now\<rparr>))) (\<lambda>_.
       bnd (appendInput t (wrap_up inp)) (\<lambda>_.
       bnd (appendEvent t (ci_job inp) EventClosed
              (no_fields\<lparr>ef_state := StateClosed, ef_verdict := ci_verdict inp,
                         ef_score := ci_score inp\<rparr>)) (\<lambda>_.
       read_back t (ci_job inp))))) w1 = (Inr y, w')"
    unfolding Close_tx_def bnd_Inr by (auto split: if_splits)
  obtain j where w1: "dbs w1 = dbs w" and j: "job_row (ci_job inp) (dbs w t) = Some j" "s = j_state j"
    using lock by (rule lock_job_Inr)
  define now where "now = clock w1 (ticks w1)"
  define w1' where "w1' = w1\<lparr>ticks := Suc (ticks w1)\<rparr>"
  have w1': "dbs w1' = dbs w1" by (simp add: w1'_def)
  have "read_clock w1 = (Inr now, w1')" by (simp add: now_def w1'_def)
  with rest obtain n w2 x0 w3 w4 where
    upd: "exec t (update_jobs (\<lambda>j. j_id j = ci_job inp)
              (\<lambda>j. j\<lparr>j_state := StateClosed, j_verdict := ci_verdict inp,
                     j_score := ci_score inp, j_closed_at := Some now\<rparr>)) w1' = (Inr n, w2)"
    and app: "appendInput t (wrap_up inp) w2 = (Inr x0, w3)"
    and ev: "appendEvent t (ci_job inp) EventClosed (no_fields\<lparr>ef_state := StateClosed,
              ef_verdict := ci_verdict inp, ef_score := ci_score inp\<rparr>) w3 = (Inr (), w4)"
    and rb: "read_back t (ci_job inp) w4 = (Inr y, w')"
    unfolding bnd_Inr by (auto simp del: exec_Inr)
  obtain x now' where x: "dbs w3 = (dbs w2)(t := push_event (input_event x now') (push_input x (dbs w2 t)))"
    "i_job x = si_job (wrap_up inp)" "i_kind x = si_kind (wrap_up inp)" "i_sent_at x = i_sent_at x0"
    "input_row (i_id x) (dbs w2 t) = None" using app by (rule appendInput_Inr)
  then have ix: "i_job x = ci_job inp" "i_kind x = InputWrapUp" by (simp_all add: wrap_up_def)
  obtain now'' where w4: "dbs w4 = (dbs w3)(t := push_event (new_event (ci_job inp) EventClosed
      (no_fields\<lparr>ef_state := StateClosed, ef_verdict := ci_verdict inp, ef_score := ci_score inp\<rparr>)
      now'') (dbs w3 t))" using ev by (rule appendEvent_Inr)
  have w2: "dbs w2 t = set_job (i_job x) (\<lambda>j. j\<lparr>j_state := StateClosed, j_verdict := ci_verdict inp,
      j_score := ci_score inp, j_closed_at := Some now\<rparr>) (dbs w t)"
    using exec_update_jobs_Inr [OF upd] by (simp add: w1 w1' ix)
  have free: "input_row (i_id x) (dbs w t) = None"
    using x(5) by (simp add: w2 input_row_def set_jobs_def)
  have w': "dbs w' t = push_event (closed_event (i_job x) (ci_verdict inp) (ci_score inp) now'')
      (push_event (input_event x now') (push_input x (dbs w2 t)))"
    using read_back_Inr(1) [OF rb] by (simp add: w4 x(1) ix closed_event_def)
  show ?thesis
    using that [OF w' [unfolded w2] ix free j(1)] j(2) \<open>s \<noteq> StateClosed\<close> read_back_Inr [OF rb] by simp
qed

lemma Close_tx_step:
  assumes "Close_tx t inp w = (Inr y, w')" "IsVerdict (ci_verdict inp)"
  shows "job_step (dbs w t) (dbs w' t)"
  using assms(1)
proof (rule Close_tx_Inr)
  fix x j now now' now''
  assume eq: "dbs w' t = push_event (closed_event (i_job x) (ci_verdict inp) (ci_score inp) now'')
       (push_event (input_event x now')
         (push_input x
           (set_job (i_job x) (\<lambda>j. j\<lparr>j_state := StateClosed, j_verdict := ci_verdict inp,
              j_score := ci_score inp, j_closed_at := Some now\<rparr>) (dbs w t))))"
    and x: "i_job x = ci_job inp" "i_kind x = InputWrapUp" "input_row (i_id x) (dbs w t) = None"
    and j: "job_row (ci_job inp) (dbs w t) = Some j" "j_state j \<noteq> StateClosed"
  show ?thesis unfolding eq by (rule closed [OF _ j(2) assms(2) x(2,3)]) (simp add: x j)
qed

lemma Close_tx_row:
  assumes "Close_tx t inp w = (Inr y, w')"
  obtains j now where "job_row (ci_job inp) (dbs w t) = Some j" "j_state j \<noteq> StateClosed"
    and "y = j\<lparr>j_state := StateClosed, j_verdict := ci_verdict inp, j_score := ci_score inp,
               j_closed_at := Some now\<rparr>"
    and "job_row (ci_job inp) (dbs w' t) = Some y"
  using assms
proof (rule Close_tx_Inr)
  fix x j now now' now''
  let ?f = "\<lambda>j. j\<lparr>j_state := StateClosed, j_verdict := ci_verdict inp, j_score := ci_score inp,
               j_closed_at := Some now\<rparr>"
  assume eq: "dbs w' t = push_event (closed_event (i_job x) (ci_verdict inp) (ci_score inp) now'')
       (push_event (input_event x now') (push_input x (set_job (i_job x) ?f (dbs w t))))"
    and x: "i_job x = ci_job inp"
    and j: "job_row (ci_job inp) (dbs w t) = Some j" "j_state j \<noteq> StateClosed"
    and y: "job_row (ci_job inp) (dbs w' t) = Some y"
  have "job_row (ci_job inp) (dbs w' t) = Some (?f j)"
    using job_row_Some [OF j(1)] by (simp add: eq job_row_set_jobs j x)
  then show thesis using that [OF j] y by simp
qed

lemma Claim_tx_step:
  assumes "Claim_tx t bank mid w = (Inr y, w')"
  shows "job_step\<^sup>=\<^sup>= (dbs w t) (dbs w' t)"
proof -
  from assms obtain w1 w2 jo where slot: "memberHasFreeSlot t mid w = (Inr True, w1)"
    and q: "query t (oldest_queued bank) w1 = (Inr jo, w2)"
    and rest: "(case jo of None \<Rightarrow> ret None
       | Some q \<Rightarrow> bnd (exec t (update_jobs (\<lambda>j. j_id j = j_id q) (\<lambda>j. j\<lparr>j_member := mid\<rparr>))) (\<lambda>_.
           bnd (read_back t (j_id q)) (\<lambda>j. ret (Some j)))) w2 = (Inr y, w')"
    unfolding Claim_tx_def bnd_Inr by (auto split: if_splits)
  obtain m where w1: "dbs w1 = dbs w" and m: "member_row mid (dbs w t) = Some m"
    "m_jobs_in_flight m < m_job_cap m" using slot by (auto elim: memberHasFreeSlot_Inr)
  have w2: "dbs w2 = dbs w" "jo = oldest_queued bank (dbs w t)" using q w1 by auto
  show ?thesis
  proof (cases jo)
    case None
    with rest show ?thesis by (simp add: w2)
  next
    case (Some qj)
    with rest obtain n w3 where upd: "exec t (update_jobs (\<lambda>j. j_id j = j_id qj)
        (\<lambda>j. j\<lparr>j_member := mid\<rparr>)) w2 = (Inr n, w3)"
      and "dbs w' = dbs w3" by (auto dest: read_back_Inr(1))
    then have "dbs w' t = set_job (j_id qj) (\<lambda>j. j\<lparr>j_member := mid\<rparr>) (dbs w t)"
      using exec_update_jobs_Inr [OF upd] w2 by simp
    then show ?thesis
      using claimed [OF oldest_queued_Some m] Some w2(2) by simp
  qed
qed

lemma SetState_tx_step:
  assumes "SetState_tx t i s ses w = (Inr y, w')" "IsState s" "s \<noteq> StateClosed"
  shows "job_step (dbs w t) (dbs w' t)"
proof -
  let ?f = "\<lambda>j. j\<lparr>j_state := s, j_session := (if ses = [] then j_session j else ses)\<rparr>"
  from assms(1) obtain cur w1 n w2 w3 where lock: "lock_job t i w = (Inr cur, w1)" "cur \<noteq> StateClosed"
    and upd: "exec t (update_jobs (\<lambda>j. j_id j = i) ?f) w1 = (Inr n, w2)"
    and ev: "appendEvent t i EventState (no_fields\<lparr>ef_state := s\<rparr>) w2 = (Inr (), w3)"
    and rb: "read_back t i w3 = (Inr y, w')"
    unfolding SetState_tx_def bnd_Inr by (auto split: if_splits)
  obtain j where w1: "dbs w1 = dbs w" and j: "job_row i (dbs w t) = Some j" "cur = j_state j"
    using lock(1) by (rule lock_job_Inr)
  obtain now where "dbs w3 = (dbs w2)(t := push_event (new_event i EventState
      (no_fields\<lparr>ef_state := s\<rparr>) now) (dbs w2 t))" using ev by (rule appendEvent_Inr)
  then have "dbs w' t = push_event (state_event i s now) (set_job i ?f (dbs w t))"
    using exec_update_jobs_Inr [OF upd] read_back_Inr(1) [OF rb] by (simp add: w1 state_event_def)
  then show ?thesis using state_set [of i "dbs w t" j s now ses] j lock(2) assms(2,3) by simp
qed

lemma AddDeliverable_tx_step:
  assumes "AddDeliverable_tx t i dv w = (Inr y, w')"
  shows "job_step (dbs w t) (dbs w' t)"
proof -
  let ?f = "\<lambda>j. j\<lparr>j_deliverables := j_deliverables j @ [dv]\<rparr>"
  from assms obtain n w1 w2 where upd: "exec t (update_jobs (\<lambda>j. j_id j = i) ?f) w = (Inr n, w1)"
    and "n \<noteq> 0"
    and ev: "appendEvent t i EventDeliverable (no_fields\<lparr>ef_payload := PayloadDeliverable dv\<rparr>) w1 =
      (Inr (), w2)"
    and rb: "read_back t i w2 = (Inr y, w')"
    unfolding AddDeliverable_tx_def bnd_Inr by (auto split: if_splits)
  have w1: "dbs w1 = (dbs w)(t := set_job i ?f (dbs w t))" "n = length (filter (\<lambda>j. j_id j = i) (jobs (dbs w t)))"
    using exec_update_jobs_Inr [OF upd] by auto
  then have "job_row i (dbs w t) \<noteq> None"
    using \<open>n \<noteq> 0\<close> by (auto simp: job_row_None filter_empty_conv)
  then obtain j where j: "job_row i (dbs w t) = Some j" by blast
  obtain now where "dbs w2 = (dbs w1)(t := push_event (new_event i EventDeliverable
      (no_fields\<lparr>ef_payload := PayloadDeliverable dv\<rparr>) now) (dbs w1 t))" using ev by (rule appendEvent_Inr)
  then have "dbs w' t = push_event (new_event i EventDeliverable
      (no_fields\<lparr>ef_payload := PayloadDeliverable dv\<rparr>) now) (set_job i ?f (dbs w t))"
    using read_back_Inr(1) [OF rb] by (simp add: w1)
  then show ?thesis using delivered [OF j] by simp
qed

section \<open>Refinement\<close>

lemmas tx_defs = Open_tx_def Send_tx_def Close_tx_def Claim_tx_def SetState_tx_def
  AddDeliverable_tx_def appendInput_def appendEvent_def lock_job_def read_back_def
  memberHasFreeSlot_def Let_def

interpretation job_steps: db_reflexive "job_step\<^sup>=\<^sup>="
  by unfold_locales simp

lemma confined_txs:
  "effect t (\<lambda>_ _. True) (Open_tx t oi j)" "effect t (\<lambda>_ _. True) (Send_tx t si)"
  "effect t (\<lambda>_ _. True) (Close_tx t ci)" "effect t (\<lambda>_ _. True) (Claim_tx t b mid)"
  "effect t (\<lambda>_ _. True) (SetState_tx t i s ses)" "effect t (\<lambda>_ _. True) (AddDeliverable_tx t i dv)"
  unfolding tx_defs by (intro confined.effect_rules effect_cases TrueI)+

lemma Open_refines: "effect t job_step\<^sup>=\<^sup>= (Open t inp)"
proof -
  have tx: "effect t job_step\<^sup>=\<^sup>= (InTx t (Open_tx t inp (new_job inp spec i now)))" for spec i now
    by (rule effect_InTx [OF confined_txs(1)]) (rule Open_tx_step [OF _ refl])
  show ?thesis
    unfolding Open_def Let_def
    by (intro effect_cases job_steps.effect_with_conn job_steps.effect_fail
        job_steps.effect_bnd_readonly [OF readonly.effect_check]
        job_steps.effect_bnd_readonly [OF readonly.effect_read_clock]
        job_steps.effect_bnd_readonly [OF readonly.effect_NewID] job_steps.effect_bnd_ret tx)
qed

lemma Send_refines: "effect t job_step\<^sup>=\<^sup>= (Send t inp)"
  unfolding Send_def
  by (intro effect_cases job_steps.effect_with_conn job_steps.effect_fail
      effect_InTx [OF confined_txs(2)] Send_tx_step)

lemma Close_refines: "effect t job_step\<^sup>=\<^sup>= (Close t inp)"
proof (cases "CloseInput_Validate inp")
  case None
  then have v: "IsVerdict (ci_verdict inp)" by (auto simp: CloseInput_Validate_def split: if_splits)
  show ?thesis
    unfolding Close_def None option.case
    by (intro job_steps.effect_with_conn effect_InTx [OF confined_txs(3)] Close_tx_step [OF _ v])
next
  case (Some e)
  then show ?thesis by (simp add: Close_def job_steps.effect_fail)
qed

lemma Claim_refines: "effect t job_step\<^sup>=\<^sup>= (Claim t b mid)"
proof -
  have "effect t (job_step\<^sup>=\<^sup>=)\<^sup>=\<^sup>= (InTx t (Claim_tx t b mid))"
    by (rule effect_InTx [OF confined_txs(4)]) (rule Claim_tx_step)
  then have "effect t job_step\<^sup>=\<^sup>= (InTx t (Claim_tx t b mid))" by (rule effect_mono) auto
  then show ?thesis unfolding Claim_def by (rule job_steps.effect_with_conn)
qed

lemma Acknowledge_refines: "effect t job_step\<^sup>=\<^sup>= (Acknowledge t i)"
  unfolding Acknowledge_def
  by (intro job_steps.effect_with_conn job_steps.effect_exec
      job_steps.effect_bnd_readonly [OF readonly.effect_read_clock])
     (auto intro: acknowledged)

lemma SetState_refines: "effect t job_step\<^sup>=\<^sup>= (SetState t i s ses)"
proof (cases "IsState s \<and> s \<noteq> StateClosed")
  case True
  then show ?thesis
    unfolding SetState_def
    by (auto intro!: job_steps.effect_with_conn effect_InTx [OF confined_txs(5)] SetState_tx_step)
next
  case False
  then show ?thesis by (auto simp: SetState_def job_steps.effect_fail)
qed

lemma AddDeliverable_refines: "effect t job_step\<^sup>=\<^sup>= (AddDeliverable t i dvo)"
  unfolding AddDeliverable_def
  by (intro effect_cases job_steps.effect_with_conn job_steps.effect_fail
      job_steps.effect_bnd_readonly [OF readonly.effect_check]
      effect_InTx [OF confined_txs(6)] AddDeliverable_tx_step)

lemma ReleaseMember_refines: "effect t job_step\<^sup>=\<^sup>= (ReleaseMember t mid)"
  unfolding ReleaseMember_def
  by (cases "mid = []")
     (auto simp: update_jobs_Inr job_steps.effect_fail
       intro!: job_steps.effect_with_conn job_steps.effect_exec released)

lemma readers_refine:
  "effect t (=) (Get t i)" "effect t (=) (PendingInputs t mid n)" "effect t (=) (Events t i since n)"
  "effect t (=) (Stale t b secs n)" "effect t (=) (Unassigned t b)"
  "effect t (=) (Job_List t f n tok)"
  unfolding Job_List_def Let_def Get_def PendingInputs_def Events_def Stale_def Unassigned_def
  by (intro readonly.effect_rules effect_cases)+

end
