(* ===== verification/JobInvariant.thy ===== *)
theory JobInvariant
  imports JobSpec
begin

text \<open>
  Invariants of the job tables over the steps of \<open>JobSpec\<close>: inputs and events of a job are
  numbered from one without a gap, a job is closed exactly when its one closing event says so,
  with its wrap-up input beside it, and a closed job is final.
\<close>

section \<open>Views after an update\<close>

lemma inputs_of_push_input [simp]:
  "inputs_of i (push_input x d) =
     inputs_of i d @ (if i_job x = i then [x\<lparr>i_seq := next_seq (input_seqs i d)\<rparr>] else [])"
  by (simp add: inputs_of_def push_input_def)

lemma events_of_push_event [simp]:
  "events_of i (push_event e d) =
     events_of i d @ (if ev_job e = i then [e\<lparr>ev_seq := next_seq (event_seqs i d)\<rparr>] else [])"
  by (simp add: events_of_def push_event_def)

lemma untouched [simp]:
  "inputs (push_event e d) = inputs d" "jobs (push_event e d) = jobs d"
  "events (push_input x d) = events d" "jobs (push_input x d) = jobs d"
  "inputs (set_jobs p f d) = inputs d" "events (set_jobs p f d) = events d"
  "inputs_of i (push_event e d) = inputs_of i d" "events_of i (push_input x d) = events_of i d"
  "inputs_of i (set_jobs p f d) = inputs_of i d" "events_of i (set_jobs p f d) = events_of i d"
  "event_seqs i (push_input x d) = event_seqs i d" "event_seqs i (set_jobs p f d) = event_seqs i d"
  "input_seqs i (push_event e d) = input_seqs i d" "input_seqs i (set_jobs p f d) = input_seqs i d"
  "jobs (set_jobs p f d) = map (\<lambda>j. if p j then f j else j) (jobs d)"
  "inputs_of i (d\<lparr>jobs := js\<rparr>) = inputs_of i d" "events_of i (d\<lparr>jobs := js\<rparr>) = events_of i d"
  "event_seqs i (d\<lparr>jobs := js\<rparr>) = event_seqs i d" "event_seqs i (d\<lparr>inputs := xs\<rparr>) = event_seqs i d"
  "events_of i (d\<lparr>inputs := xs\<rparr>) = events_of i d"
  by (simp_all add: push_event_def push_input_def set_jobs_def inputs_of_def events_of_def
      input_seqs_def event_seqs_def)

lemma seqs_of: "input_seqs i d = map i_seq (inputs_of i d)" "event_seqs i d = map ev_seq (events_of i d)"
  by (simp_all add: input_seqs_def inputs_of_def event_seqs_def events_of_def)

section \<open>The invariant\<close>

definition numbered :: "int list \<Rightarrow> bool" where
  "numbered seqs \<longleftrightarrow> seqs = [1..int (length seqs)]"

lemma numbered_next:
  assumes "numbered seqs" shows "numbered (seqs @ [next_seq seqs])"
proof -
  have "next_seq seqs = int (length seqs) + 1"
  proof (cases "seqs = []")
    case False
    have "Max (set seqs) = int (length seqs)"
      using assms False
      by (subst assms [unfolded numbered_def]) (auto intro!: Max_eqI simp: Suc_le_eq)
    with False show ?thesis by (simp add: next_seq_def)
  qed (simp add: next_seq_def)
  moreover have "[1..int (length seqs) + 1] = [1..int (length seqs)] @ [int (length seqs) + 1]"
    by (simp add: upto_rec2)
  ultimately show ?thesis using assms by (simp add: numbered_def add.commute)
qed

text \<open>What the closing events of a job record.\<close>

definition closings :: "string \<Rightarrow> tenant_db \<Rightarrow> (verdict \<times> float64) list" where
  "closings i d =
     map (\<lambda>e. (ev_verdict e, ev_score e)) (filter (\<lambda>e. ev_kind e = EventClosed) (events_of i d))"

definition wrapped :: "string \<Rightarrow> tenant_db \<Rightarrow> bool" where
  "wrapped i d \<longleftrightarrow> (\<exists>x \<in> set (inputs_of i d). i_kind x = InputWrapUp)"

definition closed_ok :: "tenant_db \<Rightarrow> job \<Rightarrow> bool" where
  "closed_ok d j \<longleftrightarrow>
     (if j_state j = StateClosed
      then j_closed_at j \<noteq> None \<and> IsVerdict (j_verdict j) \<and>
           closings (j_id j) d = [(j_verdict j, j_score j)] \<and> wrapped (j_id j) d
      else IsState (j_state j) \<and> j_closed_at j = None \<and> closings (j_id j) d = [])"

definition job_inv :: "tenant_db \<Rightarrow> bool" where
  "job_inv d \<longleftrightarrow>
     distinct (map j_id (jobs d)) \<and>
     (\<forall>x \<in> set (inputs d). i_job x \<in> j_id ` set (jobs d)) \<and>
     (\<forall>e \<in> set (events d). ev_job e \<in> j_id ` set (jobs d)) \<and>
     (\<forall>i. numbered (input_seqs i d)) \<and> (\<forall>i. numbered (event_seqs i d)) \<and>
     (\<forall>j \<in> set (jobs d). closed_ok d j)"

lemma closed_ok_updates [simp]:
  "closed_ok d (j\<lparr>j_last_input_at := now\<rparr>) = closed_ok d j"
  "closed_ok d (j\<lparr>j_member := mid\<rparr>) = closed_ok d j"
  "closed_ok d (j\<lparr>j_deliverables := dvs\<rparr>) = closed_ok d j"
  by (simp_all add: closed_ok_def)

lemma job_invD:
  assumes "job_inv d"
  shows "distinct (map j_id (jobs d))"
    and "x \<in> set (inputs d) \<Longrightarrow> i_job x \<in> j_id ` set (jobs d)"
    and "e \<in> set (events d) \<Longrightarrow> ev_job e \<in> j_id ` set (jobs d)"
    and "numbered (input_seqs i d)" and "numbered (event_seqs i d)"
    and "j \<in> set (jobs d) \<Longrightarrow> closed_ok d j"
  using assms by (simp_all add: job_inv_def)

lemma job_invI:
  assumes "distinct (map j_id (jobs d))"
    and "\<And>x. x \<in> set (inputs d) \<Longrightarrow> i_job x \<in> j_id ` set (jobs d)"
    and "\<And>e. e \<in> set (events d) \<Longrightarrow> ev_job e \<in> j_id ` set (jobs d)"
    and "\<And>i. numbered (input_seqs i d)" and "\<And>i. numbered (event_seqs i d)"
    and "\<And>j. j \<in> set (jobs d) \<Longrightarrow> closed_ok d j"
  shows "job_inv d"
  using assms by (simp add: job_inv_def)

lemma empty_db_inv: "job_inv empty_db"
  by (simp add: job_inv_def empty_db_def numbered_def input_seqs_def event_seqs_def)

lemma closings_simps [simp]:
  "closings i (push_event e d) =
     closings i d @ (if ev_job e = i \<and> ev_kind e = EventClosed then [(ev_verdict e, ev_score e)] else [])"
  "closings i (push_input x d) = closings i d" "closings i (set_jobs p f d) = closings i d"
  "closings i (d\<lparr>jobs := js\<rparr>) = closings i d" "closings i (d\<lparr>inputs := xs\<rparr>) = closings i d"
  by (simp_all add: closings_def)

lemma wrapped_simps [simp]:
  "wrapped i (push_event e d) = wrapped i d" "wrapped i (set_jobs p f d) = wrapped i d"
  "wrapped i (d\<lparr>jobs := js\<rparr>) = wrapped i d"
  by (simp_all add: wrapped_def)

lemma wrapped_push_input [simp]:
  "wrapped i (push_input x d) \<longleftrightarrow> wrapped i d \<or> (i_job x = i \<and> i_kind x = InputWrapUp)"
  by (cases "i_job x = i") (auto simp: wrapped_def)

lemma numbered_push:
  "(\<And>i. numbered (input_seqs i d)) \<Longrightarrow> numbered (input_seqs i (push_input x d))"
  "(\<And>i. numbered (event_seqs i d)) \<Longrightarrow> numbered (event_seqs i (push_event e d))"
  using numbered_next by (auto simp: seqs_of)

text \<open>
  One update at a time: an event of an existing job that does not close it, an input of an
  existing job, and a change of rows that keeps the ids and what \<open>closed_ok\<close> reads.
\<close>

lemma inv_push_event:
  assumes "job_inv d" "ev_job e \<in> j_id ` set (jobs d)" "ev_kind e \<noteq> EventClosed"
  shows "job_inv (push_event e d)"
proof (rule job_invI)
  show "ev_job e' \<in> j_id ` set (jobs (push_event e d))" if "e' \<in> set (events (push_event e d))" for e'
    using that assms(2) job_invD(3) [OF assms(1)] by (auto simp: push_event_def)
  show "closed_ok (push_event e d) j" if "j \<in> set (jobs (push_event e d))" for j
    using that job_invD(6) [OF assms(1), of j] assms(3) by (simp add: closed_ok_def)
qed (use job_invD [OF assms(1)] numbered_push(2) in simp_all)

lemma inv_push_input:
  assumes "job_inv d" "i_job x \<in> j_id ` set (jobs d)"
  shows "job_inv (push_input x d)"
proof (rule job_invI)
  show "i_job x' \<in> j_id ` set (jobs (push_input x d))" if "x' \<in> set (inputs (push_input x d))" for x'
    using that assms(2) job_invD(2) [OF assms(1)] by (auto simp: push_input_def)
  show "closed_ok (push_input x d) j" if "j \<in> set (jobs (push_input x d))" for j
    using that job_invD(6) [OF assms(1), of j] by (simp add: closed_ok_def)
qed (use job_invD [OF assms(1)] numbered_push(1) in simp_all)

lemma inv_set_jobs:
  assumes "job_inv d" "\<And>j. j_id (f j) = j_id j"
    and "\<And>j. j \<in> set (jobs d) \<Longrightarrow> p j \<Longrightarrow> closed_ok d j \<Longrightarrow> closed_ok d (f j)"
  shows "job_inv (set_jobs p f d)"
proof (rule job_invI)
  have ids: "map j_id (jobs (set_jobs p f d)) = map j_id (jobs d)"
    by (simp add: assms(2) comp_def if_distrib cong: if_cong)
  then show "distinct (map j_id (jobs (set_jobs p f d)))"
    using job_invD(1) [OF assms(1)] by (simp only: ids)
  have img: "j_id ` set (jobs (set_jobs p f d)) = j_id ` set (jobs d)"
    using arg_cong [OF ids, of set] by (simp only: list.set_map)
  show "i_job x \<in> j_id ` set (jobs (set_jobs p f d))" if "x \<in> set (inputs (set_jobs p f d))" for x
    using that job_invD(2) [OF assms(1)] unfolding img by simp
  show "ev_job e \<in> j_id ` set (jobs (set_jobs p f d))" if "e \<in> set (events (set_jobs p f d))" for e
    using that job_invD(3) [OF assms(1)] unfolding img by simp
  have "closed_ok (set_jobs p f d) j = closed_ok d j" for j by (simp add: closed_ok_def)
  then show "closed_ok (set_jobs p f d) j" if "j \<in> set (jobs (set_jobs p f d))" for j
    using that assms(3) job_invD(6) [OF assms(1)] by (auto split: if_splits)
qed (use job_invD(4,5) [OF assms(1)] in simp_all)

section \<open>Steps keep the invariant\<close>

lemma in_ids: "job_row i d = Some j \<Longrightarrow> i \<in> j_id ` set (jobs d)"
  by (auto dest: job_row_Some)

lemma ids_set_jobs:
  assumes "i \<in> j_id ` set (jobs d)" "\<And>j. j_id (f j) = j_id j"
  shows "i \<in> j_id ` set (jobs (set_jobs p f d))"
proof -
  obtain j where "j \<in> set (jobs d)" "i = j_id j" using assms(1) by blast
  then show ?thesis
    by (intro rev_image_eqI [of "if p j then f j else j"]) (auto simp: set_jobs_def assms(2))
qed

lemma row_unique:
  assumes "job_inv d" "job_row i d = Some j" "j' \<in> set (jobs d)" "j_id j' = i"
  shows "j' = j"
  using job_row_distinct [OF job_invD(1) [OF assms(1)] assms(3)] assms(2,4) by simp

lemma inv_opened:
  assumes inv: "job_inv d" and fresh: "job_row (j_id j) d = None"
    and j: "j_state j = StateOpen" "j_closed_at j = None"
  shows "job_inv (d\<lparr>jobs := jobs d @ [j]\<rparr>)"
proof (rule job_invI)
  let ?d = "d\<lparr>jobs := jobs d @ [j]\<rparr>"
  show "distinct (map j_id (jobs ?d))"
    using job_invD(1) [OF inv] fresh by (simp add: job_row_None)
  have "events_of (j_id j) d = []"
    using job_invD(3) [OF inv] fresh unfolding events_of_def filter_empty_conv job_row_None by metis
  then have none: "closings (j_id j) d = []" by (simp add: closings_def)
  show "closed_ok ?d j'" if "j' \<in> set (jobs ?d)" for j'
  proof (cases "j' = j")
    case True
    then show ?thesis using j none by (simp add: closed_ok_def IsState_def)
  next
    case False
    then have "closed_ok d j'" using that job_invD(6) [OF inv] by simp
    then show ?thesis by (simp add: closed_ok_def)
  qed
  show "numbered (input_seqs i ?d)" for i using job_invD(4) [OF inv] by (simp add: input_seqs_def)
qed (use job_invD [OF inv] in auto)

lemma inv_closed:
  assumes inv: "job_inv d" and row: "job_row (i_job x) d = Some j" "j_state j \<noteq> StateClosed"
    and v: "IsVerdict v" and x: "i_kind x = InputWrapUp"
  shows "job_inv (push_event (closed_event (i_job x) v s now'')
         (push_event (input_event x now')
           (push_input x
             (set_job (i_job x)
               (\<lambda>j. j\<lparr>j_state := StateClosed, j_verdict := v, j_score := s, j_closed_at := Some now\<rparr>)
               d))))"
    (is "job_inv ?d")
proof (rule job_invI)
  let ?f = "\<lambda>j. j\<lparr>j_state := StateClosed, j_verdict := v, j_score := s, j_closed_at := Some now\<rparr>"
  let ?upd = "\<lambda>j. if j_id j = i_job x then ?f j else j"
  have jobs: "jobs ?d = map ?upd (jobs d)" by simp
  have ids: "map j_id (jobs ?d) = map j_id (jobs d)"
    unfolding jobs by (simp add: comp_def if_distrib cong: if_cong)
  show "distinct (map j_id (jobs ?d))" using job_invD(1) [OF inv] by (simp only: ids)
  have img: "j_id ` set (jobs ?d) = j_id ` set (jobs d)"
    using arg_cong [OF ids, of set] by (simp only: list.set_map)
  have ix: "i_job x \<in> j_id ` set (jobs d)" using row(1) by (rule in_ids)
  show "i_job x' \<in> j_id ` set (jobs ?d)" if "x' \<in> set (inputs ?d)" for x'
    using that ix job_invD(2) [OF inv] unfolding img by (auto simp: push_input_def)
  show "ev_job e \<in> j_id ` set (jobs ?d)" if "e \<in> set (events ?d)" for e
    using that ix job_invD(3) [OF inv] unfolding img
    by (auto simp: push_event_def closed_event_def input_event_def)
  show "numbered (input_seqs i ?d)" for i
    by simp (rule numbered_push, simp add: job_invD(4) [OF inv])
  show "numbered (event_seqs i ?d)" for i
    by (intro numbered_push(2)) (simp add: job_invD(5) [OF inv])
  show "closed_ok ?d j'" if "j' \<in> set (jobs ?d)" for j'
  proof -
    obtain j0 where j0: "j0 \<in> set (jobs d)" "j' = ?upd j0" using \<open>j' \<in> set (jobs ?d)\<close> unfolding jobs by auto
    show ?thesis
    proof (cases "j_id j0 = i_job x")
      case True
      have "j0 = j" by (rule row_unique [OF inv row(1) j0(1) True])
      then have "closings (i_job x) d = []"
        using job_invD(6) [OF inv j0(1)] row(2) True by (simp add: closed_ok_def)
      then show ?thesis using True j0(2) v x
        by (simp add: closed_ok_def closed_event_def input_event_def no_fields_def)
    next
      case False
      then show ?thesis using job_invD(6) [OF inv j0(1)] j0(2)
        by (simp add: closed_ok_def closed_event_def input_event_def)
    qed
  qed
qed

lemma inv_acknowledged:
  assumes inv: "job_inv d" and f: "\<And>x. i_job (f x) = i_job x \<and> i_seq (f x) = i_seq x \<and> i_kind (f x) = i_kind x"
  shows "job_inv (d\<lparr>inputs := map f (inputs d)\<rparr>)"
proof (rule job_invI)
  let ?d = "d\<lparr>inputs := map f (inputs d)\<rparr>"
  have of: "inputs_of i ?d = map f (inputs_of i d)" for i
    by (simp add: inputs_of_def filter_map comp_def f)
  have "input_seqs i ?d = input_seqs i d" for i
    by (simp add: seqs_of of comp_def f)
  then show "numbered (input_seqs i ?d)" for i using job_invD(4) [OF inv] by simp
  have "wrapped i ?d = wrapped i d" for i by (simp add: wrapped_def of f)
  then show "closed_ok ?d j" if "j \<in> set (jobs ?d)" for j
    using job_invD(6) [OF inv] that by (simp add: closed_ok_def)
qed (use job_invD [OF inv] f in auto)

lemma job_step_inv:
  assumes "job_step d d'" "job_inv d" shows "job_inv d'"
  using assms
proof (induction rule: job_step.induct)
  case (opened j d f now)
  then show ?case by (intro inv_push_event inv_opened) simp_all
next
  case (sent x d j now' now)
  then have ix: "i_job x \<in> j_id ` set (jobs d)" and inv: "job_inv d" by (auto dest: in_ids)
  let ?f = "\<lambda>j. j\<lparr>j_state := StateWorking, j_last_input_at := i_sent_at x\<rparr>"
  have d1: "job_inv (push_event (input_event x now) (push_input x d))"
    using ix inv by (intro inv_push_event inv_push_input) (simp_all add: input_event_def)
  have "job_inv (set_job (i_job x) ?f (push_event (input_event x now) (push_input x d)))"
  proof (rule inv_set_jobs [OF d1])
    fix j' assume j': "j' \<in> set (jobs (push_event (input_event x now) (push_input x d)))"
      "j_id j' = i_job x" "closed_ok (push_event (input_event x now) (push_input x d)) j'"
    then have "j' = j" using row_unique [OF inv sent(1)] by simp
    then show "closed_ok (push_event (input_event x now) (push_input x d)) (?f j')"
      using j'(3) sent(2) by (simp add: closed_ok_def IsState_def)
  qed simp
  then show ?case
    by (rule inv_push_event) (use ids_set_jobs [of "i_job x" _ ?f] ix in \<open>simp_all add: state_event_def\<close>)
next
  case (wrap_up_sent x d j now)
  then have ix: "i_job x \<in> j_id ` set (jobs d)" and inv: "job_inv d" by (auto dest: in_ids)
  have "job_inv (push_event (input_event x now) (push_input x d))"
    using ix inv by (intro inv_push_event inv_push_input) (simp_all add: input_event_def)
  then show ?case by (rule inv_set_jobs) simp_all
next
  case (closed x d j v s now'' now' now)
  then show ?case by (intro inv_closed)
next
  case (claimed q d bank mid m)
  then show ?case by (intro inv_set_jobs) simp_all
next
  case (acknowledged d i now)
  then show ?case by (intro inv_acknowledged) (simp_all add: ack_input_def)
next
  case (state_set i d j s now ses)
  then have ix: "i \<in> j_id ` set (jobs d)" and inv: "job_inv d" by (auto dest: in_ids)
  let ?f = "\<lambda>j. j\<lparr>j_state := s, j_session := (if ses = [] then j_session j else ses)\<rparr>"
  have "job_inv (set_job i ?f d)"
  proof (rule inv_set_jobs [OF inv])
    fix j' assume j': "j' \<in> set (jobs d)" "j_id j' = i" "closed_ok d j'"
    then have "j' = j" using row_unique [OF inv state_set(1)] by simp
    then show "closed_ok d (?f j')"
      using j'(3) state_set(2-4) by (simp add: closed_ok_def)
  qed simp
  then show ?case
    by (rule inv_push_event) (use ids_set_jobs [OF ix, of ?f] in \<open>simp_all add: state_event_def\<close>)
next
  case (delivered i d j dv now)
  then have ix: "i \<in> j_id ` set (jobs d)" and inv: "job_inv d" by (auto dest: in_ids)
  let ?f = "\<lambda>j. j\<lparr>j_deliverables := j_deliverables j @ [dv]\<rparr>"
  have "job_inv (set_job i ?f d)" by (rule inv_set_jobs [OF inv]) simp_all
  then show ?case
    by (rule inv_push_event) (use ids_set_jobs [OF ix, of ?f] in simp_all)
next
  case (released mid d)
  then show ?case by (intro inv_set_jobs) simp_all
qed

section \<open>A closed job is final\<close>

text \<open>What no operation changes on a closed job; deliverables and the wrap-up turn come later.\<close>

definition same_verdict :: "job \<Rightarrow> job \<Rightarrow> bool" where
  "same_verdict j j' \<longleftrightarrow>
     j_id j' = j_id j \<and> j_bank j' = j_bank j \<and> j_member j' = j_member j \<and> j_state j' = j_state j \<and>
     j_spec j' = j_spec j \<and> j_session j' = j_session j \<and> j_opened_by j' = j_opened_by j \<and>
     j_opened_at j' = j_opened_at j \<and> j_closed_at j' = j_closed_at j \<and>
     j_verdict j' = j_verdict j \<and> j_score j' = j_score j"

lemma same_verdict_refl [simp]: "same_verdict j j"
  by (simp add: same_verdict_def)

lemma same_verdict_updates [simp]:
  "same_verdict j (j\<lparr>j_last_input_at := now\<rparr>)" "same_verdict j (j\<lparr>j_deliverables := dvs\<rparr>)"
  by (simp_all add: same_verdict_def)

definition closed_final :: "tenant_db \<Rightarrow> tenant_db \<Rightarrow> bool" where
  "closed_final d d' \<longleftrightarrow>
     (\<forall>j \<in> set (jobs d). j_state j = StateClosed \<longrightarrow> (\<exists>j' \<in> set (jobs d'). same_verdict j j'))"

lemma closed_final_jobs:
  assumes "\<And>j. j \<in> set (jobs d) \<Longrightarrow> j_state j = StateClosed \<Longrightarrow> p j \<Longrightarrow> same_verdict j (f j)"
    and "jobs d' = map (\<lambda>j. if p j then f j else j) (jobs d)"
  shows "closed_final d d'"
  unfolding closed_final_def
proof (intro ballI impI)
  fix j assume j: "j \<in> set (jobs d)" "j_state j = StateClosed"
  then have "(if p j then f j else j) \<in> set (jobs d')" by (auto simp: assms(2))
  moreover have "same_verdict j (if p j then f j else j)" using assms(1) [OF j] by simp
  ultimately show "\<exists>j' \<in> set (jobs d'). same_verdict j j'" by blast
qed

lemma open_row_untouched:
  assumes "job_inv d" "job_row i d = Some j" "j_state j \<noteq> StateClosed"
    and "j' \<in> set (jobs d)" "j_state j' = StateClosed"
  shows "j_id j' \<noteq> i"
  using row_unique [OF assms(1,2,4)] assms(3,5) by auto

lemma job_step_final:
  assumes "job_step d d'" "job_inv d" shows "closed_final d d'"
  using assms
proof (induction rule: job_step.induct)
  case (opened j d f now)
  show ?case unfolding closed_final_def by simp (blast intro: same_verdict_refl)
next
  case (sent x d j now' now)
  from open_row_untouched [OF sent(4,1,2)] show ?case
    by (intro closed_final_jobs [where p = "\<lambda>j. j_id j = i_job x"
        and f = "\<lambda>j. j\<lparr>j_state := StateWorking, j_last_input_at := i_sent_at x\<rparr>"]) simp_all
next
  case (wrap_up_sent x d j now)
  show ?case by (rule closed_final_jobs [where p = "\<lambda>j. j_id j = i_job x"
        and f = "\<lambda>j. j\<lparr>j_last_input_at := i_sent_at x\<rparr>"]) auto
next
  case (closed x d j v s now'' now' now)
  from open_row_untouched [OF closed(6,1,2)] show ?case
    by (intro closed_final_jobs [where p = "\<lambda>j. j_id j = i_job x"
        and f = "\<lambda>j. j\<lparr>j_state := StateClosed, j_verdict := v, j_score := s, j_closed_at := Some now\<rparr>"]) simp_all
next
  case (claimed q d bank mid m)
  have "j = q" if "j \<in> set (jobs d)" "j_id j = j_id q" for j
    using row_unique [OF claimed(6) job_row_distinct [OF job_invD(1) [OF claimed(6)] claimed(1)]] that
    by simp
  with claimed(2) have "j_id j \<noteq> j_id q" if "j \<in> set (jobs d)" "j_state j = StateClosed" for j
    using that by (auto simp: queued_def)
  then show ?case by (intro closed_final_jobs [where p = "\<lambda>j. j_id j = j_id q"
        and f = "\<lambda>j. j\<lparr>j_member := mid\<rparr>"]) simp_all
next
  case (acknowledged d i now)
  show ?case unfolding closed_final_def by simp (blast intro: same_verdict_refl)
next
  case (state_set i d j s now ses)
  from open_row_untouched [OF state_set(5,1,2)] show ?case
    by (intro closed_final_jobs [where p = "\<lambda>j. j_id j = i"
        and f = "\<lambda>j. j\<lparr>j_state := s, j_session := (if ses = [] then j_session j else ses)\<rparr>"]) simp_all
next
  case (delivered i d j dv now)
  show ?case by (rule closed_final_jobs [where p = "\<lambda>j. j_id j = i"
        and f = "\<lambda>j. j\<lparr>j_deliverables := j_deliverables j @ [dv]\<rparr>"]) auto
next
  case (released mid d)
  show ?case
    by (rule closed_final_jobs [where p = "\<lambda>j. j_member j = mid \<and> j_state j \<noteq> StateClosed"
        and f = "\<lambda>j. j\<lparr>j_member := []\<rparr>"]) auto
qed

end
