(* ===== verification/BankSpec.thy ===== *)
theory BankSpec
  imports BankStore JobInvariant
begin

text \<open>
  What the bank store promises, without the driver: one step of the tables per operation
  (\<open>bank_step\<close>), the proof that every operation takes one such step or changes nothing, and the
  invariants of banks, members and their foreign keys. Steps of the bank store and of the job
  store then interleave freely: \<open>store_step\<close> is either, and the invariant \<open>store_inv\<close> of all five
  tables is kept by both.
\<close>

section \<open>Steps\<close>

definition set_bank :: "string \<Rightarrow> (bank \<Rightarrow> bank) \<Rightarrow> tenant_db \<Rightarrow> tenant_db" where
  "set_bank i f d = d\<lparr>banks := map (\<lambda>b. if b_id b = i then f b else b) (banks d)\<rparr>"

definition set_member :: "string \<Rightarrow> (member \<Rightarrow> member) \<Rightarrow> tenant_db \<Rightarrow> tenant_db" where
  "set_member i f d = d\<lparr>members := map (\<lambda>m. if m_id m = i then f m else m) (members d)\<rparr>"

definition without_member :: "string \<Rightarrow> tenant_db \<Rightarrow> tenant_db" where
  "without_member i d = d\<lparr>members := filter (\<lambda>m. m_id m \<noteq> i) (members d)\<rparr>"

definition without_bank :: "string \<Rightarrow> tenant_db \<Rightarrow> tenant_db" where
  "without_bank i d =
     d\<lparr>banks := filter (\<lambda>b. b_id b \<noteq> i) (banks d),
       members := filter (\<lambda>m. m_bank m \<noteq> i) (members d),
       jobs := filter (\<lambda>j. j_bank j \<noteq> i) (jobs d),
       inputs := filter (\<lambda>x. i_job x \<notin> set (jobs_of_bank i d)) (inputs d),
       events := filter (\<lambda>e. ev_job e \<notin> set (jobs_of_bank i d)) (events d)\<rparr>"

text \<open>A stored bank: what \<open>CreateInput.Validate\<close> accepts and \<open>UpdateInput.Validate\<close> keeps.\<close>

definition bank_ok :: "bank \<Rightarrow> bool" where
  "bank_ok b \<longleftrightarrow>
     b_name b \<noteq> [] \<and> b_agent_name b \<noteq> [] \<and> \<not> blank (b_owner_id b) \<and>
     (b_owner_kind b = OwnerUser \<or> b_owner_kind b = OwnerTenant) \<and> IsLoginShape (b_login_shape b) \<and>
     (b_login_shape b = LoginShapeSubscription \<longrightarrow>
        b_owner_kind b = OwnerUser \<and> blank (b_provider_config_name b)) \<and>
     (NeedsProviderConfig (b_login_shape b) \<longrightarrow> \<not> blank (b_provider_config_name b)) \<and>
     0 \<le> b_desired_count b \<and> 0 \<le> b_max_jobs_in_flight b \<and> 0 \<le> b_stale_limit b \<and>
     IsSpillPolicy (b_spill_policy b)"

text \<open>What a create request has to say, and what is filled in for it.\<close>

definition create_ok :: "create_input \<Rightarrow> bool" where
  "create_ok inp \<longleftrightarrow>
     TrimSpace (cr_name inp) \<noteq> [] \<and>
     (cr_owner_kind inp = OwnerUser \<or> cr_owner_kind inp = OwnerTenant) \<and> \<not> blank (cr_owner_id inp) \<and>
     IsLoginShape (cr_login_shape inp) \<and>
     (if cr_login_shape inp = LoginShapeSubscription
      then cr_owner_kind inp = OwnerUser \<and> blank (cr_provider_config_name inp)
      else \<not> blank (cr_provider_config_name inp)) \<and>
     0 \<le> cr_desired_count inp \<and> 0 \<le> cr_max_jobs_in_flight inp \<and> 0 \<le> cr_stale_limit inp \<and>
     (cr_spill_policy inp = SpillOther [] \<or> IsSpillPolicy (cr_spill_policy inp))"

definition create_filled :: "create_input \<Rightarrow> create_input" where
  "create_filled inp =
     inp\<lparr>cr_name := TrimSpace (cr_name inp),
         cr_spill_policy := (if cr_spill_policy inp = SpillOther [] then SpillQueue else cr_spill_policy inp),
         cr_agent_name := (if cr_agent_name inp = [] then DefaultAgentName else cr_agent_name inp),
         cr_max_jobs_in_flight :=
           (if cr_max_jobs_in_flight inp = 0 then DefaultMaxJobsInFlight else cr_max_jobs_in_flight inp),
         cr_stale_limit := (if cr_stale_limit inp = 0 then DefaultStaleLimit else cr_stale_limit inp)\<rparr>"

lemma NeedsProviderConfig_iff:
  "IsLoginShape s \<Longrightarrow> NeedsProviderConfig s \<longleftrightarrow> s \<noteq> LoginShapeSubscription"
  by (cases s) (simp_all add: IsLoginShape_def NeedsProviderConfig_def)

lemma create_bad: "\<not> create_ok inp \<Longrightarrow> CreateInput_Validate inp = Inl (ErrInvalid Pkg_bank)"
  unfolding CreateInput_Validate_def Let_def create_ok_def
  by (simp add: NeedsProviderConfig_iff) (auto simp: IsSpillPolicy_def)

lemma create_good: "create_ok inp \<Longrightarrow> CreateInput_Validate inp = Inr (create_filled inp)"
  unfolding CreateInput_Validate_def Let_def create_ok_def create_filled_def
  by (cases "cr_spill_policy inp = SpillOther []"; cases "cr_agent_name inp = []";
      cases "cr_max_jobs_in_flight inp = 0"; cases "cr_stale_limit inp = 0")
     (auto simp: NeedsProviderConfig_iff IsSpillPolicy_def)

inductive bank_step :: "tenant_db \<Rightarrow> tenant_db \<Rightarrow> bool" where
  created:
    "bank_row (b_id b) d = None \<Longrightarrow> b_name b \<notin> b_name ` set (banks d) \<Longrightarrow> bank_ok b \<Longrightarrow>
     bank_step d (d\<lparr>banks := banks d @ [b]\<rparr>)"
| updated:
    "UpdateInput_Validate inp = None \<Longrightarrow> bank_step d (set_bank i (apply_update inp now) d)"
| deleted:
    "bank_step d (without_bank i d)"
| member_added:
    "m_id m \<noteq> [] \<Longrightarrow> member_row (m_id m) d = None \<Longrightarrow> bank_row (m_bank m) d \<noteq> None \<Longrightarrow>
     (m_mission_run m \<noteq> [] \<Longrightarrow> m_mission_run m \<notin> m_mission_run ` set (members d)) \<Longrightarrow>
     bank_step d (d\<lparr>members := members d @ [m]\<rparr>)"
| reported:
    "isReportableState (ms_state st) \<Longrightarrow> bank_step d (set_member i (report_status st now) d)"
| member_state_set:
    "IsMemberState s \<Longrightarrow>
     bank_step d (set_member i (\<lambda>m. m\<lparr>m_state := s, m_updated_at := now\<rparr>) d)"
| member_removed:
    "bank_step d (without_member i d)"

inductive_cases bank_stepE: "bank_step d d'"

section \<open>Operations take steps\<close>

lemma statements_Inr:
  "insert_bank b d = Inr (u, d') \<longleftrightarrow>
     bank_row (b_id b) d = None \<and> b_name b \<notin> b_name ` set (banks d) \<and> d' = d\<lparr>banks := banks d @ [b]\<rparr>"
  "update_bank i f d = Inr (bo, d') \<longleftrightarrow> bo = map_option f (bank_row i d) \<and> d' = set_bank i f d"
  "delete_bank i d = Inr (n, d') \<longleftrightarrow>
     n = length (filter (\<lambda>b. b_id b = i) (banks d)) \<and> d' = without_bank i d"
  "update_member i g d = Inr (mo, d') \<longleftrightarrow> mo = map_option g (member_row i d) \<and> d' = set_member i g d"
  "delete_member i d = Inr (n, d') \<longleftrightarrow>
     n = length (filter (\<lambda>m. m_id m = i) (members d)) \<and> d' = without_member i d"
  by (auto simp: insert_bank_def update_bank_def delete_bank_def update_member_def delete_member_def
      set_bank_def set_member_def without_bank_def without_member_def)

lemma insert_member_Inr:
  "insert_member m d = Inr (u, d') \<longleftrightarrow>
     member_row (m_id m) d = None \<and> bank_row (m_bank m) d \<noteq> None \<and>
     (m_mission_run m \<noteq> [] \<longrightarrow> m_mission_run m \<notin> m_mission_run ` set (members d)) \<and>
     d' = d\<lparr>members := members d @ [m]\<rparr>"
  by (auto simp: insert_member_def)

lemma staleLimitSeconds_nonneg: "0 \<le> d \<Longrightarrow> 0 \<le> staleLimitSeconds d"
  by (simp add: staleLimitSeconds_def Second_def pos_imp_zdiv_nonneg_iff)

lemma create_filled_ok:
  assumes "create_ok inp" shows "bank_ok (bank_columns (new_bank (create_filled inp) i now))"
proof -
  have "0 \<le> DefaultStaleLimit" by (simp add: DefaultStaleLimit_def Hour_def Minute_def Second_def)
  then have "0 \<le> cr_stale_limit (create_filled inp)" using assms by (simp add: create_ok_def create_filled_def)
  then have "0 \<le> b_stale_limit (bank_columns (new_bank (create_filled inp) i now))"
    by (simp add: bank_columns_def new_bank_def staleLimitSeconds_nonneg)
  then show ?thesis
    using assms unfolding bank_ok_def create_ok_def
    by (simp add: bank_columns_def new_bank_def create_filled_def DefaultAgentName_def
        DefaultMaxJobsInFlight_def NeedsProviderConfig_iff IsSpillPolicy_def)
       (auto split: if_splits)
qed

lemma Validate_bank_ok:
  assumes "CreateInput_Validate inp = Inr inp'" shows "bank_ok (bank_columns (new_bank inp' i now))"
proof -
  have "create_ok inp" using assms create_bad [of inp] by (cases "create_ok inp") simp_all
  with assms create_good [of inp] create_filled_ok [of inp] show ?thesis by simp
qed

interpretation bank_steps: db_reflexive "bank_step\<^sup>=\<^sup>="
  by unfold_locales simp

lemmas bank_op_rules = effect_cases bank_steps.effect_with_conn bank_steps.effect_fail
  bank_steps.effect_bnd_readonly [OF readonly.effect_read_clock]
  bank_steps.effect_bnd_readonly [OF readonly.effect_NewID]
  bank_steps.effect_handle_fail bank_steps.effect_exec
  readonly.effect_from_option readonly.effect_ret readonly.effect_fail

lemma Bank_Create_refines: "effect t bank_step\<^sup>=\<^sup>= (Bank_Create t inp)"
proof (cases "CreateInput_Validate inp")
  case (Inr inp')
  have "bank_step\<^sup>=\<^sup>= d d'" if "insert_bank (bank_columns (new_bank inp' i now)) d = Inr (u, d')" for d d' u i now
    using that Validate_bank_ok [OF Inr] by (auto simp: statements_Inr intro: created)
  then show ?thesis
    unfolding Bank_Create_def Inr sum.case Let_def
    by (intro bank_op_rules bank_steps.effect_bnd_ret)
qed (simp add: Bank_Create_def bank_steps.effect_fail)

lemma Bank_Update_refines: "effect t bank_step\<^sup>=\<^sup>= (Bank_Update t i inp)"
  unfolding Bank_Update_def
  by (cases "UpdateInput_Validate inp")
     (auto simp: statements_Inr intro!: bank_op_rules bank_steps.effect_bnd_reader intro: updated)

lemma Bank_Delete_refines: "effect t bank_step\<^sup>=\<^sup>= (Bank_Delete t i)"
  unfolding Bank_Delete_def
  by (intro bank_op_rules bank_steps.effect_bnd_reader) (auto simp: statements_Inr intro: deleted)

lemma AddMember_refines: "effect t bank_step\<^sup>=\<^sup>= (AddMember t mo)"
proof (cases mo)
  case (Some m)
  show ?thesis
  proof (cases "m_id m = [] \<or> m_bank m = []")
    case False
    then have "bank_step\<^sup>=\<^sup>= d d'" if "insert_member (member_columns m now) d = Inr (u, d')" for d d' u now
      using that by (auto simp: insert_member_Inr member_columns_def intro!: member_added)
    then show ?thesis unfolding AddMember_def Some option.case if_not_P [OF False] by (intro bank_op_rules)
  qed (simp add: AddMember_def Some bank_steps.effect_fail)
qed (simp add: AddMember_def bank_steps.effect_fail)

lemma UpdateMemberStatus_refines: "effect t bank_step\<^sup>=\<^sup>= (UpdateMemberStatus t i st)"
  unfolding UpdateMemberStatus_def
  by (auto simp: statements_Inr intro!: bank_op_rules bank_steps.effect_bnd_reader intro: reported)

lemma SetMemberState_refines: "effect t bank_step\<^sup>=\<^sup>= (SetMemberState t i s)"
  unfolding SetMemberState_def
  by (auto simp: statements_Inr intro!: bank_op_rules bank_steps.effect_bnd_reader intro: member_state_set)

lemma RemoveMember_refines: "effect t bank_step\<^sup>=\<^sup>= (RemoveMember t i)"
  unfolding RemoveMember_def
  by (intro bank_op_rules bank_steps.effect_bnd_reader) (auto simp: statements_Inr intro: member_removed)

lemma bank_readers:
  "effect t (=) (Bank_Get t i)" "effect t (=) (Bank_List t n tok)" "effect t (=) (ListAll t)"
  "effect t (=) (ListMembers t b n tok)" "effect t (=) (GetMember t i)" "effect t (=) (MemberByRun t i)"
  unfolding Bank_Get_def Bank_List_def ListAll_def ListMembers_def GetMember_def MemberByRun_def Let_def
  by (intro readonly.effect_rules effect_cases)+

section \<open>The invariant of all five tables\<close>

definition bank_inv :: "tenant_db \<Rightarrow> bool" where
  "bank_inv d \<longleftrightarrow>
     distinct (map b_id (banks d)) \<and> distinct (map b_name (banks d)) \<and> list_all bank_ok (banks d) \<and>
     distinct (map m_id (members d)) \<and> [] \<notin> m_id ` set (members d) \<and>
     distinct (filter (\<lambda>r. r \<noteq> []) (map m_mission_run (members d))) \<and>
     m_bank ` set (members d) \<subseteq> b_id ` set (banks d) \<and> j_bank ` set (jobs d) \<subseteq> b_id ` set (banks d)"

definition store_inv :: "tenant_db \<Rightarrow> bool" where
  "store_inv d \<longleftrightarrow> job_inv d \<and> bank_inv d"

lemma bank_row_None: "bank_row i d = None \<longleftrightarrow> i \<notin> b_id ` set (banks d)"
  by (auto simp: bank_row_def find_None_iff)

lemma bank_row_Some: "bank_row i d = Some b \<Longrightarrow> b \<in> set (banks d) \<and> b_id b = i"
  by (auto simp: bank_row_def find_Some_iff)

lemma member_row_None: "member_row i d = None \<longleftrightarrow> i \<notin> m_id ` set (members d)"
  by (auto simp: member_row_def find_None_iff)

lemma member_row_Some: "member_row i d = Some m \<Longrightarrow> m \<in> set (members d) \<and> m_id m = i"
  by (auto simp: member_row_def find_Some_iff)

lemma member_row_set_member:
  "(\<And>m. m_id (f m) = m_id m) \<Longrightarrow> member_row i (set_member i f d) = map_option f (member_row i d)"
proof -
  assume "\<And>m. m_id (f m) = m_id m"
  then have "find (\<lambda>m. m_id m = i) (map (\<lambda>m. if m_id m = i then f m else m) ms) =
      map_option f (find (\<lambda>m. m_id m = i) ms)" for ms by (induction ms) auto
  then show ?thesis by (simp add: member_row_def set_member_def)
qed

lemma apply_update_fixed:
  "b_id (apply_update inp now b) = b_id b" "b_name (apply_update inp now b) = b_name b"
  by (simp_all add: apply_update_def)

lemma apply_update_ok:
  assumes "bank_ok b" "UpdateInput_Validate inp = None" shows "bank_ok (apply_update inp now b)"
proof -
  have "0 \<le> coalesce (up_desired_count inp) (b_desired_count b)"
    "0 \<le> coalesce (up_max_jobs_in_flight inp) (b_max_jobs_in_flight b)"
    "0 \<le> coalesce (map_option staleLimitSeconds (up_stale_limit inp)) (b_stale_limit b)"
    "IsSpillPolicy (coalesce (up_spill_policy inp) (b_spill_policy b))"
    using assms
    by (simp_all add: UpdateInput_Validate_def bank_ok_def coalesce_def staleLimitSeconds_nonneg Let_def
        split: if_splits option.splits)
  then show ?thesis using assms(1) unfolding bank_ok_def by (simp add: apply_update_def)
qed

lemma member_updates_fixed:
  "m_id (report_status st now m) = m_id m" "m_bank (report_status st now m) = m_bank m"
  "m_mission_run (report_status st now m) = m_mission_run m"
  by (simp_all add: report_status_def)

lemma bank_inv_set_member:
  assumes "bank_inv d" "\<And>m. m_id (f m) = m_id m" "\<And>m. m_bank (f m) = m_bank m"
    and "\<And>m. m_mission_run (f m) = m_mission_run m"
  shows "bank_inv (set_member i f d)"
proof -
  have keys: "map k (members (set_member i f d)) = map k (members d)"
    if "\<And>m. k (f m) = k m" for k :: "member \<Rightarrow> string"
    by (simp add: set_member_def that)
  have ids: "map k (members (set_member i f d)) = map k (members d)"
    "k ` set (members (set_member i f d)) = k ` set (members d)"
    if "\<And>m. k (f m) = k m" for k :: "member \<Rightarrow> string"
    using keys [of k, OF that] by (simp_all only: set_map [symmetric])
  have same: "banks (set_member i f d) = banks d" "jobs (set_member i f d) = jobs d"
    by (simp_all add: set_member_def)
  show ?thesis
    using assms(1) unfolding bank_inv_def same ids [of m_id, OF assms(2)] ids [of m_bank, OF assms(3)]
      ids [of m_mission_run, OF assms(4)] .
qed

lemma bank_inv_set_bank:
  assumes "bank_inv d" "UpdateInput_Validate inp = None"
  shows "bank_inv (set_bank i (apply_update inp now) d)"
proof -
  let ?f = "apply_update inp now"
  have ids: "map b_id (banks (set_bank i ?f d)) = map b_id (banks d)"
    "map b_name (banks (set_bank i ?f d)) = map b_name (banks d)"
    by (simp_all add: set_bank_def apply_update_fixed)
  then have img: "b_id ` set (banks (set_bank i ?f d)) = b_id ` set (banks d)"
    by (simp only: set_map [symmetric])
  have same: "members (set_bank i ?f d) = members d" "jobs (set_bank i ?f d) = jobs d"
    by (simp_all add: set_bank_def)
  have "list_all bank_ok (banks d)" using assms(1) by (simp add: bank_inv_def)
  then have "list_all bank_ok (banks (set_bank i ?f d))"
    using apply_update_ok [OF _ assms(2)] by (auto simp: set_bank_def list_all_iff)
  then show ?thesis using assms(1) unfolding bank_inv_def same ids img by blast
qed

lemma distinct_map_filter': "distinct (map f xs) \<Longrightarrow> distinct (map f (filter p xs))"
  by (simp add: distinct_map_filter)

lemma distinct_filter_map_filter:
  "distinct (filter q (map f xs)) \<Longrightarrow> distinct (filter q (map f (filter p xs)))"
  by (induction xs) auto

lemma bank_inv_restrict:
  assumes "bank_inv d" "jobs d' = filter pj (jobs d)" "members d' = filter pm (members d)"
    and "banks d' = filter (\<lambda>b. b_id b \<notin> B) (banks d)"
    and "\<And>j. j \<in> set (jobs d) \<Longrightarrow> pj j \<Longrightarrow> j_bank j \<notin> B" "\<And>m. m \<in> set (members d) \<Longrightarrow> pm m \<Longrightarrow> m_bank m \<notin> B"
  shows "bank_inv d'"
proof -
  have keep: "b_id ` set (banks d') = b_id ` set (banks d) - B" by (auto simp: assms(4))
  have "m_bank ` set (members d') \<subseteq> b_id ` set (banks d) - B" "j_bank ` set (jobs d') \<subseteq> b_id ` set (banks d) - B"
    using assms(1,5,6) unfolding assms(2,3) bank_inv_def by auto
  then show ?thesis using assms(1) unfolding bank_inv_def keep
    by (simp add: assms(2,3,4) distinct_map_filter' distinct_filter_map_filter list_all_iff) blast
qed

lemma bank_step_bank_inv:
  assumes "bank_step d d'" "bank_inv d" shows "bank_inv d'"
  using assms
proof (induction rule: bank_step.induct)
  case (created b d)
  then show ?case by (auto simp: bank_inv_def bank_row_None)
next
  case (updated inp d i now)
  then show ?case by (simp add: bank_inv_set_bank)
next
  case (deleted d i)
  then show ?case
    by (rule bank_inv_restrict [where B = "{i}"]) (auto simp: without_bank_def)
next
  case (member_added m d)
  then show ?case by (auto simp: bank_inv_def member_row_None bank_row_None)
next
  case (reported st d i now)
  then show ?case by (simp add: bank_inv_set_member member_updates_fixed)
next
  case (member_state_set s d i now)
  then show ?case by (simp add: bank_inv_set_member)
next
  case (member_removed d i)
  then show ?case
    by (rule bank_inv_restrict [where B = "{}" and pj = "\<lambda>_. True"]) (auto simp: without_member_def)
qed

text \<open>The job store leaves banks and members alone and opens jobs on existing banks.\<close>

lemma job_step_tables:
  assumes "job_step d d'"
  shows "banks d' = banks d" "members d' = members d"
    "j_bank ` set (jobs d') \<subseteq> j_bank ` set (jobs d) \<union> b_id ` set (banks d)"
  using assms by (induction rule: job_step.induct) (auto simp: set_jobs_def push_event_def push_input_def bank_row_None)

lemma job_step_bank_inv: "job_step d d' \<Longrightarrow> bank_inv d \<Longrightarrow> bank_inv d'"
  using job_step_tables [of d d'] unfolding bank_inv_def by (simp add: Un_absorb1 subset_trans) 

lemma job_inv_cong:
  assumes "jobs d' = jobs d" "inputs d' = inputs d" "events d' = events d"
  shows "job_inv d' = job_inv d"
proof -
  have "closed_ok d' = closed_ok d" "input_seqs i d' = input_seqs i d" "event_seqs i d' = event_seqs i d" for i
    by (simp_all add: fun_eq_iff closed_ok_def closings_def wrapped_def events_of_def inputs_of_def
        input_seqs_def event_seqs_def assms)
  then show ?thesis by (simp add: job_inv_def assms)
qed

lemma without_bank_views:
  assumes "i \<notin> set (jobs_of_bank b d)"
  shows "events_of i (without_bank b d) = events_of i d" "inputs_of i (without_bank b d) = inputs_of i d"
  using assms by (auto simp: events_of_def inputs_of_def without_bank_def intro!: filter_cong)

lemma without_bank_gone:
  assumes "i \<in> set (jobs_of_bank b d)"
  shows "events_of i (without_bank b d) = []" "inputs_of i (without_bank b d) = []"
  using assms by (auto simp: events_of_def inputs_of_def without_bank_def filter_empty_conv)

lemma job_bank_unique:
  assumes "job_inv d" "j \<in> set (jobs d)" "j_bank j \<noteq> b"
  shows "j_id j \<notin> set (jobs_of_bank b d)"
proof
  assume "j_id j \<in> set (jobs_of_bank b d)"
  then obtain j' where "j' \<in> set (jobs d)" "j_bank j' = b" "j_id j' = j_id j" by (auto simp: jobs_of_bank_def)
  then have "j' = j" using job_row_distinct [OF job_invD(1) [OF assms(1)]] assms(2) by (metis option.inject)
  with \<open>j_bank j' = b\<close> assms(3) show False by simp
qed

lemma job_inv_without_bank:
  assumes inv: "job_inv d" shows "job_inv (without_bank b d)"
proof (rule job_invI)
  have jobs: "jobs (without_bank b d) = filter (\<lambda>j. j_bank j \<noteq> b) (jobs d)" by (simp add: without_bank_def)
  show "distinct (map j_id (jobs (without_bank b d)))"
    using job_invD(1) [OF inv] by (simp add: jobs distinct_map_filter)
  have kept: "i \<in> j_id ` set (jobs (without_bank b d))"
    if "i \<in> j_id ` set (jobs d)" "i \<notin> set (jobs_of_bank b d)" for i
    using that by (auto simp: jobs jobs_of_bank_def)
  show "i_job x \<in> j_id ` set (jobs (without_bank b d))" if "x \<in> set (inputs (without_bank b d))" for x
    using that kept job_invD(2) [OF inv] by (simp add: without_bank_def)
  show "ev_job e \<in> j_id ` set (jobs (without_bank b d))" if "e \<in> set (events (without_bank b d))" for e
    using that kept job_invD(3) [OF inv] by (simp add: without_bank_def)
  show "numbered (input_seqs i (without_bank b d))" for i
    using job_invD(4) [OF inv, of i] without_bank_views(2) [of i b d] without_bank_gone(2) [of i b d]
    by (cases "i \<in> set (jobs_of_bank b d)") (simp_all add: seqs_of numbered_def)
  show "numbered (event_seqs i (without_bank b d))" for i
    using job_invD(5) [OF inv, of i] without_bank_views(1) [of i b d] without_bank_gone(1) [of i b d]
    by (cases "i \<in> set (jobs_of_bank b d)") (simp_all add: seqs_of numbered_def)
  show "closed_ok (without_bank b d) j" if "j \<in> set (jobs (without_bank b d))" for j
  proof -
    have "j \<in> set (jobs d)" "j_bank j \<noteq> b" using that by (simp_all add: jobs)
    then have "j_id j \<notin> set (jobs_of_bank b d)" "closed_ok d j"
      using job_bank_unique [OF inv] job_invD(6) [OF inv] by simp_all
    moreover from this have "closings (j_id j) (without_bank b d) = closings (j_id j) d"
      "wrapped (j_id j) (without_bank b d) = wrapped (j_id j) d"
      by (simp_all add: closings_def wrapped_def without_bank_views)
    ultimately show ?thesis by (simp add: closed_ok_def)
  qed
qed

text \<open>Only the deletion of a bank reaches the tables of the job store.\<close>

lemma bank_step_jobs:
  assumes "bank_step d d'"
  shows "(\<exists>i. d' = without_bank i d) \<or> jobs d' = jobs d \<and> inputs d' = inputs d \<and> events d' = events d"
  using assms
  by (induction rule: bank_step.induct) (auto simp: set_bank_def set_member_def without_member_def)

lemma bank_step_job_inv:
  assumes "bank_step d d'" "job_inv d" shows "job_inv d'"
  using bank_step_jobs [OF assms(1)]
proof
  assume "\<exists>i. d' = without_bank i d"
  then show ?thesis using job_inv_without_bank [OF assms(2)] by blast
next
  assume "jobs d' = jobs d \<and> inputs d' = inputs d \<and> events d' = events d"
  then show ?thesis using job_inv_cong [of d' d] assms(2) by simp
qed

definition store_step :: "tenant_db \<Rightarrow> tenant_db \<Rightarrow> bool" where
  "store_step d d' \<longleftrightarrow> job_step d d' \<or> bank_step d d'"

lemma store_step_inv: "store_step d d' \<Longrightarrow> store_inv d \<Longrightarrow> store_inv d'"
  unfolding store_step_def store_inv_def
  using job_step_inv job_step_bank_inv bank_step_job_inv bank_step_bank_inv by blast

end
