(* ===== verification/JobProperties.thy ===== *)
theory JobProperties
  imports JobInvariant
begin

text \<open>
  The properties of the job store over whole operations and over histories of operations, with
  every behaviour of the driver.
\<close>

section \<open>Operations and histories\<close>

datatype job_op =
    OpOpen open_input | OpGet string | OpSend send_input | OpClose close_input
  | OpClaim string string | OpPending string int | OpAcknowledge string
  | OpSetState string job_state string | OpAddDeliverable string "deliverable option"
  | OpEvents string int int | OpReleaseMember string | OpStale string int int | OpUnassigned string
  | OpList list_filter int string

fun run_job_op :: "string \<Rightarrow> job_op \<Rightarrow> ('x world_scheme, unit) action" where
  "run_job_op t (OpOpen inp) = bnd (Open t inp) (\<lambda>_. ret ())"
| "run_job_op t (OpGet i) = bnd (Get t i) (\<lambda>_. ret ())"
| "run_job_op t (OpSend inp) = bnd (Send t inp) (\<lambda>_. ret ())"
| "run_job_op t (OpClose inp) = bnd (Close t inp) (\<lambda>_. ret ())"
| "run_job_op t (OpClaim b mid) = bnd (Claim t b mid) (\<lambda>_. ret ())"
| "run_job_op t (OpPending mid n) = bnd (PendingInputs t mid n) (\<lambda>_. ret ())"
| "run_job_op t (OpAcknowledge i) = bnd (Acknowledge t i) (\<lambda>_. ret ())"
| "run_job_op t (OpSetState i s ses) = bnd (SetState t i s ses) (\<lambda>_. ret ())"
| "run_job_op t (OpAddDeliverable i dvo) = bnd (AddDeliverable t i dvo) (\<lambda>_. ret ())"
| "run_job_op t (OpEvents i since n) = bnd (Events t i since n) (\<lambda>_. ret ())"
| "run_job_op t (OpReleaseMember mid) = bnd (ReleaseMember t mid) (\<lambda>_. ret ())"
| "run_job_op t (OpStale b secs n) = bnd (Stale t b secs n) (\<lambda>_. ret ())"
| "run_job_op t (OpUnassigned b) = bnd (Unassigned t b) (\<lambda>_. ret ())"
| "run_job_op t (OpList f n tok) = bnd (Job_List t f n tok) (\<lambda>_. ret ())"

text \<open>A history: operations of any tenants in any order, each keeping whatever it returned.\<close>

definition run_job_ops :: "(string \<times> job_op) list \<Rightarrow> 'x world_scheme \<Rightarrow> 'x world_scheme" where
  "run_job_ops = fold (\<lambda>(t, op) w. snd (run_job_op t op w))"

lemma reader_refines: "effect t (=) m \<Longrightarrow> effect t job_step\<^sup>=\<^sup>= m"
  by (erule effect_mono) simp

lemmas op_refines = Open_refines Send_refines Close_refines Claim_refines Acknowledge_refines
  SetState_refines AddDeliverable_refines ReleaseMember_refines
  readers_refine [THEN reader_refines]

lemma run_job_op_refines: "effect t job_step\<^sup>=\<^sup>= (run_job_op t op)"
  by (cases op) (auto intro: job_steps.effect_bnd_ret op_refines)

text \<open>The invariant and finality together form a preorder that every step follows.\<close>

definition evolves :: "tenant_db \<Rightarrow> tenant_db \<Rightarrow> bool" where
  "evolves d d' \<longleftrightarrow> (job_inv d \<longrightarrow> job_inv d' \<and> closed_final d d')"

lemma same_verdict_trans: "same_verdict a b \<Longrightarrow> same_verdict b c \<Longrightarrow> same_verdict a c"
  by (simp add: same_verdict_def)

lemma closed_final_refl: "closed_final d d"
  unfolding closed_final_def by (blast intro: same_verdict_refl)

lemma closed_final_trans:
  assumes "closed_final d1 d2" "closed_final d2 d3" shows "closed_final d1 d3"
  unfolding closed_final_def
proof (intro ballI impI)
  fix j assume "j \<in> set (jobs d1)" "j_state j = StateClosed"
  then obtain j2 where j2: "j2 \<in> set (jobs d2)" "same_verdict j j2" "j_state j2 = StateClosed"
    using assms(1) unfolding closed_final_def by (metis same_verdict_def)
  then obtain j3 where "j3 \<in> set (jobs d3)" "same_verdict j2 j3"
    using assms(2) unfolding closed_final_def by blast
  with j2 show "\<exists>j' \<in> set (jobs d3). same_verdict j j'" using same_verdict_trans by blast
qed

interpretation evolution: db_preorder evolves
  by unfold_locales (auto simp: evolves_def closed_final_refl intro: closed_final_trans)

lemma job_step_evolves: "job_step\<^sup>=\<^sup>= d d' \<Longrightarrow> evolves d d'"
  by (auto simp: evolves_def job_step_inv job_step_final closed_final_refl)

lemma refines_evolves:
  assumes "effect t' job_step\<^sup>=\<^sup>= m" shows "evolves (dbs w t) (dbs (snd (m w)) t)"
proof -
  obtain d where "dbs (snd (m w)) = (dbs w)(t' := d)" "job_step\<^sup>=\<^sup>= (dbs w t') d"
    by (rule effectE [OF assms, where w = w, OF surjective_pairing])
  then show ?thesis using job_step_evolves evolution.refl by auto
qed

lemma refines_inv:
  assumes "effect t' job_step\<^sup>=\<^sup>= m" "job_inv (dbs w t)" shows "job_inv (dbs (snd (m w)) t)"
  using refines_evolves [OF assms(1), of w t] assms(2) by (simp add: evolves_def)

lemmas run_job_op_evolves = refines_evolves [OF run_job_op_refines]

lemma run_job_ops_evolves: "evolves (dbs w t) (dbs (run_job_ops ops w) t)"
proof (induction ops arbitrary: w)
  case (Cons top ops)
  obtain t' op where top: "top = (t', op)" by force
  from evolution.trans [OF run_job_op_evolves Cons.IH] show ?case
    by (simp add: run_job_ops_def top)
qed (simp add: run_job_ops_def evolution.refl)

section \<open>Properties\<close>

text \<open>
  C21: every operation of the job store, whatever the driver does at each statement, either
  leaves the tables as they were or takes exactly one abstract step of its tenant's tables, and
  never touches another tenant.
\<close>

theorem job_store_refines:
  "\<exists>d. dbs (snd (run_job_op t op w)) = (dbs w)(t := d) \<and> (d = dbs w t \<or> job_step (dbs w t) d)"
proof -
  obtain d where "dbs (snd (run_job_op t op w)) = (dbs w)(t := d)" "job_step\<^sup>=\<^sup>= (dbs w t) d"
    by (rule effectE [OF run_job_op_refines, where w = w, OF surjective_pairing])
  then show ?thesis by (intro exI [of _ d]) auto
qed

text \<open>
  C6: through any history of operations, inputs and events stay numbered from one without a gap
  per job, and a job is closed exactly when one closing event records its verdict and score, with
  a wrap-up input beside it; a closed job keeps its verdict, score, closing time and member.
\<close>

theorem job_history_safe:
  assumes "job_inv (dbs w t)"
  shows "job_inv (dbs (run_job_ops ops w) t) \<and> closed_final (dbs w t) (dbs (run_job_ops ops w) t)"
  using run_job_ops_evolves [of w t ops] assms by (simp add: evolves_def)

definition demo_bank :: bank where
  "demo_bank = \<lparr>b_id = ''b1'', b_name = ''bank'', b_owner_kind = OwnerTenant, b_owner_id = ''acme'',
     b_desired_count = 1, b_login_shape = LoginShapeAPIKey, b_provider_config_name = ''p'',
     b_agent_name = ''claude'', b_model = [], b_max_jobs_in_flight = 1, b_stale_limit = 86400,
     b_spill_policy = SpillQueue, b_created_at = 0, b_updated_at = 0\<rparr>"

definition demo_member :: "string \<Rightarrow> member" where
  "demo_member i = \<lparr>m_id = i, m_bank = ''b1'', m_mission = [], m_mission_run = i, m_agent_run = [],
     m_sandbox = [], m_state = MemberIdle, m_jobs_in_flight = 0, m_job_cap = 1,
     m_active_job_ids = [], m_claude_version = [], m_last_heartbeat = None, m_idle_since = None,
     m_created_at = 0, m_updated_at = 0\<rparr>"

definition demo_db :: tenant_db where
  "demo_db = empty_db\<lparr>banks := [demo_bank], members := [demo_member ''m1'', demo_member ''m2'']\<rparr>"

definition demo_world :: world where
  "demo_world = \<lparr>dbs = \<lambda>_. demo_db, faults = [], clock = int, ticks = 0,
     uuid = \<lambda>n. ''id-'' @ nat_digits n, fresh = 0, valid_tenant = \<lambda>_. True,
     marshals_spec = \<lambda>_. True, marshals_deliverable = \<lambda>_. True\<rparr>"

definition demo_user :: principal where
  "demo_user = \<lparr>p_kind = User, p_id = ''ada''\<rparr>"

definition demo_spec :: job_spec where
  "demo_spec = \<lparr>sp_goal = ''fix it'', sp_repositories = [], sp_credential_names = [],
     sp_acceptance = None, sp_inputs = [], sp_context = []\<rparr>"

definition demo_open :: "string \<Rightarrow> open_input" where
  "demo_open mid = \<lparr>oi_bank = ''b1'', oi_member = mid, oi_spec = Some demo_spec, oi_opened_by = demo_user\<rparr>"

definition demo_close :: "verdict \<Rightarrow> close_input" where
  "demo_close v = \<lparr>ci_job = ''id-0'', ci_verdict = v, ci_score = Fin 1, ci_closer = demo_user\<rparr>"

lemma demo_db_inv: "job_inv demo_db"
  by (simp add: job_inv_def demo_db_def empty_db_def numbered_def input_seqs_def event_seqs_def)

lemma demo_world_inv: "job_inv (dbs demo_world t)"
  by (simp add: demo_world_def demo_db_inv)

theorem job_history_safe_witness:
  "job_inv (dbs (run_job_ops [(''acme'', OpOpen (demo_open [])), (''acme'', OpClaim ''b1'' ''m1''),
     (''acme'', OpClose (demo_close VerdictFailed))] demo_world) ''acme'') \<and>
   map j_state (jobs (dbs (run_job_ops [(''acme'', OpOpen (demo_open [])), (''acme'', OpClaim ''b1'' ''m1''),
     (''acme'', OpClose (demo_close VerdictFailed))] demo_world) ''acme'')) = [StateClosed]"
proof
  show "map j_state (jobs (dbs (run_job_ops [(''acme'', OpOpen (demo_open [])),
     (''acme'', OpClaim ''b1'' ''m1''), (''acme'', OpClose (demo_close VerdictFailed))]
     demo_world) ''acme'')) = [StateClosed]" by code_simp
qed (rule job_history_safe [OF demo_world_inv, THEN conjunct1])

lemma Close_closed:
  fixes w :: "'x world_scheme"
  assumes "job_row (ci_job inp) (dbs w t) = Some j" "j_state j = StateClosed"
  shows "isl (fst (Close t inp w))"
proof (rule ccontr)
  assume "\<not> isl (fst (Close t inp w))"
  then obtain y w' where "Close t inp w = (Inr y, w')" by (metis isl_def prod.collapse sum.exhaust)
  then have "with_conn t (InTx t (Close_tx t inp)) w = (Inr y, w')"
    by (simp add: Close_def split: option.splits)
  then obtain w1 w2 :: "'x world_scheme" where "Close_tx t inp w1 = (Inr y, w2)" "dbs w1 = dbs w"
    by (rule tx_Inr)
  with assms show False by (auto elim: Close_tx_row)
qed

text \<open>
  C22: two scorers cannot give one job two verdicts. \<open>Close\<close> returns the job with the verdict and
  score it was asked for, and after that no \<open>Close\<close> of the same job succeeds, whatever operations
  of whatever tenants run in between.
\<close>

theorem Close_once:
  fixes w :: "'x world_scheme"
  assumes "job_inv (dbs w t)" "Close t a w = (Inr j, w1)" "ci_job b = ci_job a"
  shows "j_state j = StateClosed \<and> j_verdict j = ci_verdict a \<and> j_score j = ci_score a \<and>
         isl (fst (Close t b (run_job_ops ops w1)))"
proof -
  from assms(2) have "with_conn t (InTx t (Close_tx t a)) w = (Inr j, w1)"
    by (simp add: Close_def split: option.splits)
  then obtain w2 w3 :: "'x world_scheme" where tx: "Close_tx t a w2 = (Inr j, w3)" "dbs w2 = dbs w" "dbs w1 = dbs w3"
    by (rule tx_Inr)
  from tx(1) obtain j0 now where j: "j = j0\<lparr>j_state := StateClosed, j_verdict := ci_verdict a,
      j_score := ci_score a, j_closed_at := Some now\<rparr>"
    and row: "job_row (ci_job a) (dbs w1 t) = Some j" unfolding tx(3) by (rule Close_tx_row)
  have "job_inv (dbs w1 t)"
    using refines_inv [OF Close_refines assms(1), of t a] assms(2) by simp
  with run_job_ops_evolves [of w1 t ops]
  have ev: "job_inv (dbs (run_job_ops ops w1) t)" "closed_final (dbs w1 t) (dbs (run_job_ops ops w1) t)"
    by (simp_all add: evolves_def)
  from job_row_Some [OF row] j obtain j' where "j' \<in> set (jobs (dbs (run_job_ops ops w1) t))"
    "same_verdict j j'" using ev(2) unfolding closed_final_def by fastforce
  then have "job_row (ci_job b) (dbs (run_job_ops ops w1) t) = Some j'" "j_state j' = StateClosed"
    using job_row_distinct [OF job_invD(1) [OF ev(1)], of j'] job_row_Some [OF row] assms(3) j
    by (auto simp: same_verdict_def)
  then show ?thesis using Close_closed j by auto
qed

definition demo_opened :: world where
  "demo_opened = snd (Open ''acme'' (demo_open []) demo_world)"

lemma demo_opened_inv: "job_inv (dbs demo_opened ''acme'')"
  unfolding demo_opened_def by (rule refines_inv [OF Open_refines demo_world_inv])

lemma demo_close_Inr: "\<not> isl (fst (Close ''acme'' (demo_close VerdictFailed) demo_opened))"
  by code_simp

theorem Close_once_witness:
  "isl (fst (Close ''acme'' (demo_close VerdictAccomplished)
      (run_job_ops [(''acme'', OpReleaseMember ''m1'')]
        (snd (Close ''acme'' (demo_close VerdictFailed) demo_opened)))))"
proof -
  obtain j w1 where c: "Close ''acme'' (demo_close VerdictFailed) demo_opened = (Inr j, w1)"
    using demo_close_Inr by (metis isl_def prod.collapse sum.exhaust)
  have "ci_job (demo_close VerdictAccomplished) = ci_job (demo_close VerdictFailed)"
    by (simp add: demo_close_def)
  from Close_once [OF demo_opened_inv c this] show ?thesis by (simp add: c)
qed





lemma ack_input_acked: "i_id (ack_input i now x) = i \<Longrightarrow> i_acknowledged_at (ack_input i now x) \<noteq> None"
  by (simp add: ack_input_def split: if_splits)

lemma ack_input_twice: "ack_input i now' (ack_input i now x) = ack_input i now x"
  by (simp add: ack_input_def)

lemma ack_input_keeps: "i_acknowledged_at x \<noteq> None \<Longrightarrow> ack_input i now x = x"
  by (simp add: ack_input_def)

lemma Acknowledge_Inr:
  assumes "Acknowledge t i w = (Inr u, w1)"
  obtains now where "dbs w1 = (dbs w)(t := (dbs w t)\<lparr>inputs := map (ack_input i now) (inputs (dbs w t))\<rparr>)"
  using assms that by (auto simp: Acknowledge_def)

lemma Acknowledge_effect:
  assumes "\<And>now. map (ack_input i now) (inputs d) = inputs d"
  shows "effect t (\<lambda>d0 d'. d0 = d \<longrightarrow> d' = d) (Acknowledge t i)"
proof -
  have R: "db_reflexive (\<lambda>d0 d'. d0 = d \<longrightarrow> d' = d)" by unfold_locales simp
  have same: "d\<lparr>inputs := map (ack_input i now) (inputs d)\<rparr> = d" for now
    unfolding assms by simp
  show ?thesis
    unfolding Acknowledge_def
    by (intro db_reflexive.effect_with_conn [OF R] db_reflexive.effect_exec [OF R]
        db_reflexive.effect_bnd_readonly [OF R readonly.effect_read_clock])
       (use same in \<open>clarsimp simp del: map_eq_conv\<close>)
qed

text \<open>
  An acknowledged input is not delivered again to any member, acknowledging twice changes
  nothing, and the first acknowledgement keeps its time.
\<close>

theorem Acknowledge_once:
  assumes "Acknowledge t i w = (Inr u, w1)"
  shows "i \<notin> i_id ` set (pending mid (dbs w1 t)) \<and>
         dbs (snd (Acknowledge t i w1)) = dbs w1 \<and>
         {x \<in> set (inputs (dbs w t)). i_acknowledged_at x \<noteq> None} \<subseteq> set (inputs (dbs w1 t))"
proof -
  obtain now where w1: "dbs w1 = (dbs w)(t := (dbs w t)\<lparr>inputs := map (ack_input i now) (inputs (dbs w t))\<rparr>)"
    using assms by (rule Acknowledge_Inr)
  then have ins: "inputs (dbs w1 t) = map (ack_input i now) (inputs (dbs w t))" by simp
  have acked: "i_acknowledged_at x \<noteq> None" if x: "x \<in> set (inputs (dbs w1 t))" "i_id x = i" for x
  proof -
    obtain y where "x = ack_input i now y" using x(1) unfolding ins set_map by blast
    then show ?thesis using x(2) ack_input_acked [of i now y] by simp
  qed
  have "map (ack_input i now') (inputs (dbs w1 t)) = inputs (dbs w1 t)" for now'
    unfolding ins map_map comp_def ack_input_twice ..
  then obtain d where "dbs (snd (Acknowledge t i w1)) = (dbs w1)(t := d)" "dbs w1 t = dbs w1 t \<longrightarrow> d = dbs w1 t"
    by (rule effectE [OF Acknowledge_effect, where w = w1, OF _ surjective_pairing])
  then have "dbs (snd (Acknowledge t i w1)) = dbs w1" by simp
  moreover have "i \<notin> i_id ` set (pending mid (dbs w1 t))"
    using acked by (fastforce simp: pending_def)
  moreover have "x \<in> set (inputs (dbs w1 t))"
    if "x \<in> set (inputs (dbs w t))" "i_acknowledged_at x \<noteq> None" for x
  proof -
    have "ack_input i now x = x" using that(2) by (rule ack_input_keeps)
    then have "x \<in> ack_input i now ` set (inputs (dbs w t))"
      using imageI [OF that(1), of "ack_input i now"] by simp
    then show ?thesis unfolding ins set_map .
  qed
  ultimately show ?thesis by blast
qed

definition demo_closed :: world where
  "demo_closed = snd (Close ''acme'' (demo_close VerdictFailed) demo_opened)"

theorem Acknowledge_once_witness:
  "i_id ` set (pending [] (dbs demo_closed ''acme'')) = {''id-1''} \<and>
   ''id-1'' \<notin> i_id ` set (pending [] (dbs (snd (Acknowledge ''acme'' ''id-1'' demo_closed)) ''acme''))"
proof
  show "i_id ` set (pending [] (dbs demo_closed ''acme'')) = {''id-1''}" by code_simp
  have "\<not> isl (fst (Acknowledge ''acme'' ''id-1'' demo_closed))" by code_simp
  then obtain u w1 where "Acknowledge ''acme'' ''id-1'' demo_closed = (Inr u, w1)"
    by (metis isl_def prod.collapse sum.exhaust)
  from Acknowledge_once [OF this] this
  show "''id-1'' \<notin> i_id ` set (pending [] (dbs (snd (Acknowledge ''acme'' ''id-1'' demo_closed)) ''acme''))"
    by simp
qed

lemma numbered_nth:
  assumes "numbered (map f xs)" "k < length xs" shows "f (xs ! k) = int k + 1"
proof -
  have "map f xs ! k = [1..int (length xs)] ! k"
    using assms(1) unfolding numbered_def by (simp del: nth_map)
  with assms(2) show ?thesis by (simp add: nth_upto)
qed

lemma numbered_drop:
  assumes "numbered (map f xs)" "0 \<le> since"
  shows "sort_key f (filter (\<lambda>x. since < f x) xs) = drop (nat since) xs"
    and "map f (drop (nat since) xs) = [since + 1..int (length xs)]"
proof -
  let ?k = "nat since"
  note xs = numbered_nth [OF assms(1)]
  have low: "\<not> since < f x" if x: "x \<in> set (take ?k xs)" for x
  proof -
    obtain j where "j < length xs" "j < ?k" "x = xs ! j" using x by (auto simp: in_set_conv_nth)
    then show ?thesis using xs [of j] by simp
  qed
  have high: "since < f x" if x: "x \<in> set (drop ?k xs)" for x
  proof -
    obtain j where "j < length (drop ?k xs)" "x = drop ?k xs ! j" using x by (auto simp only: in_set_conv_nth)
    then show ?thesis using xs [of "?k + j"] assms(2) by simp
  qed
  have "filter (\<lambda>x. since < f x) (take ?k xs @ drop ?k xs) = drop ?k xs"
    unfolding filter_append using low high by (simp add: filter_empty_conv filter_id_conv)
  then have flt: "filter (\<lambda>x. since < f x) xs = drop ?k xs" by simp
  show mf: "map f (drop ?k xs) = [since + 1..int (length xs)]"
    using assms(2) xs by (intro nth_equalityI) (simp_all add: nth_upto)
  have "sorted (map f (drop ?k xs))" unfolding mf by simp
  then show "sort_key f (filter (\<lambda>x. since < f x) xs) = drop ?k xs"
    unfolding flt by (rule sort_key_id_if_sorted)
qed

lemma numbered_after:
  assumes "numbered (map f xs)" "0 \<le> since"
  shows "map f (take n (sort_key f (filter (\<lambda>x. since < f x) xs))) =
         [since + 1..min (since + int n) (int (length xs))]"
proof -
  have "map f (take n (sort_key f (filter (\<lambda>x. since < f x) xs))) = take n [since + 1..int (length xs)]"
    unfolding numbered_drop(1) [OF assms] by (simp add: numbered_drop(2) [OF assms] flip: take_map)
  also have "\<dots> = [since + 1..min (since + int n) (int (length xs))]"
    by (intro nth_equalityI) (auto simp: nth_upto)
  finally show ?thesis .
qed

lemma Events_Inr:
  assumes "job_inv (dbs w t)" "0 \<le> since" "Events t i since limit w = (Inr es, w')"
  shows "es = take (nat (clampPageSize limit)) (drop (nat since) (events_of i (dbs w t)))"
    and "dbs w' = dbs w"
proof -
  have "filter (\<lambda>e. since < ev_seq e) (events_of i d) =
      filter (\<lambda>e. ev_job e = i \<and> since < ev_seq e) (events d)" for d
    unfolding events_of_def filter_filter by (rule filter_cong) auto
  with assms(3) have "es = take (nat (clampPageSize limit))
      (sort_key ev_seq (filter (\<lambda>e. since < ev_seq e) (events_of i (dbs w t))))"
    by (simp add: Events_def)
  then show "es = take (nat (clampPageSize limit)) (drop (nat since) (events_of i (dbs w t)))"
    using numbered_drop(1) [OF job_invD(5) [OF assms(1), unfolded seqs_of] assms(2)] by simp
  show "dbs w' = dbs w" using assms(3) by (auto simp: Events_def)
qed

text \<open>
  C24: the event stream resumes without a gap or a repeat: asked for the events after \<open>since\<close>,
  \<open>Events\<close> returns the events with the numbers right after it, in order, up to the clamped limit
  or the last event.
\<close>

theorem Events_resume:
  assumes "job_inv (dbs w t)" "0 \<le> since" "Events t i since limit w = (Inr es, w')"
  shows "map ev_seq es =
         [since + 1..min (since + clampPageSize limit) (int (length (events_of i (dbs w t))))]"
proof -
  note num = job_invD(5) [OF assms(1), of i, unfolded seqs_of]
  have "0 \<le> clampPageSize limit" by (simp add: clampPageSize_def DefaultPageSize_def MaxPageSize_def)
  then show ?thesis
    unfolding Events_Inr(1) [OF assms]
    using numbered_after [OF num assms(2), of "nat (clampPageSize limit)"] numbered_drop(1) [OF num assms(2)] by simp
qed

theorem Events_resume_witness:
  "let (r, w1) = Events ''acme'' ''id-0'' 1 10 demo_closed
   in (case r of Inl _ \<Rightarrow> False | Inr es \<Rightarrow> map ev_seq es = [2..3])"
proof -
  have "\<not> isl (fst (Events ''acme'' ''id-0'' 1 10 demo_closed))"
    and len: "length (events_of ''id-0'' (dbs demo_closed ''acme'')) = 3" by code_simp+
  then obtain es w1 where es: "Events ''acme'' ''id-0'' 1 10 demo_closed = (Inr es, w1)"
    by (metis isl_def prod.collapse sum.exhaust)
  have "job_inv (dbs demo_closed ''acme'')"
    unfolding demo_closed_def by (rule refines_inv [OF Close_refines demo_opened_inv])
  from Events_resume [OF this _ es] show ?thesis
    by (simp add: es len clampPageSize_def MaxPageSize_def)
qed


lemma repositories_ok_iff:
  "repositories_ok rs names \<longleftrightarrow>
     list_all (\<lambda>r. \<not> repository_invalid r) rs \<and> distinct (map r_name rs) \<and> names \<inter> r_name ` set rs = {}"
  by (induction rs arbitrary: names) auto

text \<open>
  A spec is accepted exactly when it has a goal or a repository, its repositories are
  complete and no two share a worktree directory, no credential name is blank, and its
  acceptance is one a verifier can decide.
\<close>

theorem ValidateSpec_exact:
  "ValidateSpec (Some s) = None \<longleftrightarrow>
     \<not> (blank (sp_goal s) \<and> sp_repositories s = []) \<and>
     list_all (\<lambda>r. \<not> repository_invalid r) (sp_repositories s) \<and>
     distinct (map r_name (sp_repositories s)) \<and>
     list_all (\<lambda>c. \<not> blank c) (sp_credential_names s) \<and>
     pred_option acceptance_ok (sp_acceptance s)"
  by (auto simp: ValidateSpec_def repositories_ok_iff list_all_iff list_ex_iff split: option.splits)

text \<open>
  The slot check of \<open>Open\<close> reads the count of the last heartbeat, which \<open>Open\<close> does not
  raise. Two opens pinned to one member with a cap of one both succeed, and the member then holds
  two jobs.
\<close>

theorem Open_overcommits:
  "let (r1, w1) = Open ''acme'' (demo_open ''m1'') demo_world;
       (r2, w2) = Open ''acme'' (demo_open ''m1'') w1;
       d = dbs w2 ''acme''
   in \<not> isl r1 \<and> \<not> isl r2 \<and> map_option m_job_cap (member_row ''m1'' d) = Some 1 \<and>
      length (filter (\<lambda>j. j_member j = ''m1'' \<and> j_state j \<noteq> StateClosed) (jobs d)) = 2"
  by code_simp

end
