(* ===== verification/BankProperties.thy ===== *)
theory BankProperties
  imports BankSpec JobProperties
begin

text \<open>
  The properties of the bank store, and of the two stores together: histories that interleave the
  operations of both, for any tenants and whatever the driver does.
\<close>

section \<open>Operations and histories\<close>

datatype bank_op =
    OpBankCreate create_input | OpBankGet string | OpBankList int string
  | OpBankUpdate string update_input | OpBankDelete string | OpListAll
  | OpListMembers string int string | OpGetMember string | OpMemberByRun string
  | OpAddMember "member option" | OpUpdateMemberStatus string member_status
  | OpSetMemberState string member_state | OpRemoveMember string

fun run_bank_op :: "string \<Rightarrow> bank_op \<Rightarrow> ('x world_scheme, unit) action" where
  "run_bank_op t (OpBankCreate inp) = bnd (Bank_Create t inp) (\<lambda>_. ret ())"
| "run_bank_op t (OpBankGet i) = bnd (Bank_Get t i) (\<lambda>_. ret ())"
| "run_bank_op t (OpBankList n tok) = bnd (Bank_List t n tok) (\<lambda>_. ret ())"
| "run_bank_op t (OpBankUpdate i inp) = bnd (Bank_Update t i inp) (\<lambda>_. ret ())"
| "run_bank_op t (OpBankDelete i) = bnd (Bank_Delete t i) (\<lambda>_. ret ())"
| "run_bank_op t OpListAll = bnd (ListAll t) (\<lambda>_. ret ())"
| "run_bank_op t (OpListMembers b n tok) = bnd (ListMembers t b n tok) (\<lambda>_. ret ())"
| "run_bank_op t (OpGetMember i) = bnd (GetMember t i) (\<lambda>_. ret ())"
| "run_bank_op t (OpMemberByRun r) = bnd (MemberByRun t r) (\<lambda>_. ret ())"
| "run_bank_op t (OpAddMember mo) = bnd (AddMember t mo) (\<lambda>_. ret ())"
| "run_bank_op t (OpUpdateMemberStatus i st) = bnd (UpdateMemberStatus t i st) (\<lambda>_. ret ())"
| "run_bank_op t (OpSetMemberState i s) = bnd (SetMemberState t i s) (\<lambda>_. ret ())"
| "run_bank_op t (OpRemoveMember i) = bnd (RemoveMember t i) (\<lambda>_. ret ())"

datatype store_op = JobOp job_op | BankOp bank_op

fun run_store_op :: "string \<Rightarrow> store_op \<Rightarrow> ('x world_scheme, unit) action" where
  "run_store_op t (JobOp op) = run_job_op t op"
| "run_store_op t (BankOp op) = run_bank_op t op"

definition run_store_ops :: "(string \<times> store_op) list \<Rightarrow> 'x world_scheme \<Rightarrow> 'x world_scheme" where
  "run_store_ops = fold (\<lambda>(t, op) w. snd (run_store_op t op w))"

lemma bank_reader_refines: "effect t (=) m \<Longrightarrow> effect t bank_step\<^sup>=\<^sup>= m"
  by (erule effect_mono) simp

lemmas bank_op_refines = Bank_Create_refines Bank_Update_refines Bank_Delete_refines AddMember_refines
  UpdateMemberStatus_refines SetMemberState_refines RemoveMember_refines
  bank_readers [THEN bank_reader_refines]

lemma run_bank_op_refines: "effect t bank_step\<^sup>=\<^sup>= (run_bank_op t op)"
  by (cases op) (auto intro: bank_steps.effect_bnd_ret bank_op_refines)

lemma run_store_op_refines: "effect t store_step\<^sup>=\<^sup>= (run_store_op t op)"
proof (cases op)
  case (JobOp op')
  then show ?thesis
    using effect_mono [OF run_job_op_refines, of "store_step\<^sup>=\<^sup>="] by (auto simp: store_step_def)
next
  case (BankOp op')
  then show ?thesis
    using effect_mono [OF run_bank_op_refines, of "store_step\<^sup>=\<^sup>="] by (auto simp: store_step_def)
qed

text \<open>The closed jobs of one bank, as long as the bank is not deleted.\<close>

definition final_in :: "string \<Rightarrow> tenant_db \<Rightarrow> tenant_db \<Rightarrow> bool" where
  "final_in b d d' \<longleftrightarrow>
     (\<forall>j \<in> set (jobs d). j_bank j = b \<and> j_state j = StateClosed \<longrightarrow> (\<exists>j' \<in> set (jobs d'). same_verdict j j'))"

definition keeps :: "string \<Rightarrow> tenant_db \<Rightarrow> tenant_db \<Rightarrow> bool" where
  "keeps b d d' \<longleftrightarrow> (store_inv d \<longrightarrow> store_inv d' \<and> final_in b d d')"

lemma final_in_same: "jobs d' = jobs d \<Longrightarrow> final_in b d d'"
  unfolding final_in_def by (auto intro: same_verdict_refl)

lemma final_in_trans:
  assumes "final_in b d1 d2" "final_in b d2 d3" shows "final_in b d1 d3"
  unfolding final_in_def
proof (intro ballI impI)
  fix j assume "j \<in> set (jobs d1)" "j_bank j = b \<and> j_state j = StateClosed"
  then obtain j2 where j2: "j2 \<in> set (jobs d2)" "same_verdict j j2" "j_bank j2 = b" "j_state j2 = StateClosed"
    using assms(1) unfolding final_in_def by (metis same_verdict_def)
  then obtain j3 where "j3 \<in> set (jobs d3)" "same_verdict j2 j3"
    using assms(2) unfolding final_in_def by blast
  with j2(2) show "\<exists>j' \<in> set (jobs d3). same_verdict j j'" using same_verdict_trans by blast
qed

interpretation keeping: db_preorder "keeps b" for b
proof
  show "keeps b d d" for b d by (simp add: keeps_def final_in_same)
  show "keeps b d1 d3" if "keeps b d1 d2" "keeps b d2 d3" for b d1 d2 d3
    using that final_in_trans unfolding keeps_def by blast
qed

lemma job_step_keeps: "job_step d d' \<Longrightarrow> keeps b d d'"
  using store_step_inv [of d d'] job_step_final [of d d']
  by (auto simp: keeps_def store_step_def store_inv_def closed_final_def final_in_def)

lemma bank_step_keeps:
  assumes "bank_step d d'" "jobs d' = jobs d \<or> (\<exists>i. i \<noteq> b \<and> d' = without_bank i d)" shows "keeps b d d'"
  using assms store_step_inv [of d d']
  by (auto simp: keeps_def store_step_def final_in_same) (auto simp: final_in_def without_bank_def)

lemma Bank_Delete_keeps: "i \<noteq> b \<Longrightarrow> effect t (keeps b) (Bank_Delete t i)"
  unfolding Bank_Delete_def
  by (intro keeping.effect_with_conn keeping.effect_bnd_reader keeping.effect_exec effect_cases
      readonly.effect_ret readonly.effect_fail)
     (auto simp: statements_Inr intro: bank_step_keeps deleted)

interpretation same_jobs: db_preorder "\<lambda>d d'. jobs d' = jobs d"
  by unfold_locales auto

lemma keeps_jobs:
  "effect t (\<lambda>d d'. jobs d' = jobs d) (Bank_Create t inp)"
  "effect t (\<lambda>d d'. jobs d' = jobs d) (Bank_Update t i up)"
  "effect t (\<lambda>d d'. jobs d' = jobs d) (AddMember t mo)"
  "effect t (\<lambda>d d'. jobs d' = jobs d) (UpdateMemberStatus t i st)"
  "effect t (\<lambda>d d'. jobs d' = jobs d) (SetMemberState t i s)"
  "effect t (\<lambda>d d'. jobs d' = jobs d) (RemoveMember t i)"
  unfolding Bank_Create_def Bank_Update_def AddMember_def UpdateMemberStatus_def SetMemberState_def
    RemoveMember_def Let_def
  by (intro same_jobs.effect_rules effect_cases same_jobs.effect_handle_fail;
      auto simp: statements_Inr insert_member_Inr set_bank_def set_member_def without_member_def)+

lemma effect_conj:
  assumes "effect t R m" "effect t S m" shows "effect t (\<lambda>d d'. R d d' \<and> S d d') m"
proof (rule effectI)
  fix w r w' assume run: "m w = (r, w')"
  obtain d where "dbs w' = (dbs w)(t := d)" "R (dbs w t) d" by (rule effectE [OF assms(1) run])
  moreover obtain d' where "dbs w' = (dbs w)(t := d')" "S (dbs w t) d'" by (rule effectE [OF assms(2) run])
  moreover from calculation have "d' = d" by (metis fun_upd_same)
  ultimately show "\<exists>d. dbs w' = (dbs w)(t := d) \<and> R (dbs w t) d \<and> S (dbs w t) d" by blast
qed

lemma same_jobs_keeps:
  assumes "effect t bank_step\<^sup>=\<^sup>= m" "effect t (\<lambda>d d'. jobs d' = jobs d) m" shows "effect t (keeps b) m"
  using effect_conj [OF assms]
proof (rule effect_mono)
  show "keeps b d d'" if "bank_step\<^sup>=\<^sup>= d d' \<and> jobs d' = jobs d" for d d'
    using that bank_step_keeps [of d d' b] keeping.refl [of b d] by auto
qed

lemma reader_keeps: "effect t (=) m \<Longrightarrow> effect t (keeps b) m"
  by (erule effect_mono) (simp add: keeping.refl)

lemma run_job_op_keeps: "effect t (keeps b) (run_job_op t op)"
  by (rule effect_mono [OF run_job_op_refines]) (auto simp: keeping.refl job_step_keeps)

lemmas bank_ops_keep = same_jobs_keeps [OF Bank_Create_refines keeps_jobs(1)]
  same_jobs_keeps [OF Bank_Update_refines keeps_jobs(2)] same_jobs_keeps [OF AddMember_refines keeps_jobs(3)]
  same_jobs_keeps [OF UpdateMemberStatus_refines keeps_jobs(4)]
  same_jobs_keeps [OF SetMemberState_refines keeps_jobs(5)]
  same_jobs_keeps [OF RemoveMember_refines keeps_jobs(6)] bank_readers [THEN reader_keeps]

lemma run_bank_op_keeps: "op \<noteq> OpBankDelete b \<Longrightarrow> effect t (keeps b) (run_bank_op t op)"
  by (cases op) (auto intro: keeping.effect_bnd_ret bank_ops_keep Bank_Delete_keeps)

lemma effect_at:
  assumes "effect t' (keeps b) m" shows "keeps b (dbs w t) (dbs (snd (m w)) t)"
proof -
  obtain d where "dbs (snd (m w)) = (dbs w)(t' := d)" "keeps b (dbs w t') d"
    by (rule effectE [OF assms, where w = w, OF surjective_pairing])
  then show ?thesis using keeping.refl by auto
qed

lemma store_op_inv:
  assumes "store_inv (dbs w t)" shows "store_inv (dbs (snd (run_store_op t' op w)) t)"
proof -
  obtain d where "dbs (snd (run_store_op t' op w)) = (dbs w)(t' := d)" "store_step\<^sup>=\<^sup>= (dbs w t') d"
    by (rule effectE [OF run_store_op_refines, where w = w, OF surjective_pairing])
  then show ?thesis using assms store_step_inv [of "dbs w t'" d] by auto
qed

lemma run_store_ops_inv: "store_inv (dbs w t) \<Longrightarrow> store_inv (dbs (run_store_ops ops w) t)"
  by (induction ops arbitrary: w) (auto simp: run_store_ops_def intro: store_op_inv split: prod.split)

lemma run_store_ops_keeps:
  assumes "(t, BankOp (OpBankDelete b)) \<notin> set ops"
  shows "keeps b (dbs w t) (dbs (run_store_ops ops w) t)"
  using assms
proof (induction ops arbitrary: w)
  case (Cons top ops)
  obtain t' op where top: "top = (t', op)" by force
  have "keeps b (dbs w t) (dbs (snd (run_store_op t' op w)) t)"
  proof (cases "t' = t")
    case True
    then have "effect t' (keeps b) (run_store_op t' op)"
      using Cons.prems top by (cases op) (auto intro: run_job_op_keeps run_bank_op_keeps)
    then show ?thesis by (rule effect_at)
  next
    case False
    obtain d where "dbs (snd (run_store_op t' op w)) = (dbs w)(t' := d)"
      by (rule effectE [OF run_store_op_refines, where w = w, OF surjective_pairing])
    with False show ?thesis by (simp add: keeping.refl)
  qed
  from keeping.trans [OF this Cons.IH] Cons.prems show ?case by (simp add: run_store_ops_def top)
qed (simp add: run_store_ops_def keeping.refl)

section \<open>Properties\<close>

text \<open>
  C26: every operation of the bank store or the job store, whatever the driver does at each
  statement, changes nothing or takes one abstract step of its own tenant's tables.
\<close>

theorem stores_refine:
  "\<exists>d. dbs (snd (run_store_op t op w)) = (dbs w)(t := d) \<and> (d = dbs w t \<or> store_step (dbs w t) d)"
proof -
  obtain d where "dbs (snd (run_store_op t op w)) = (dbs w)(t := d)" "store_step\<^sup>=\<^sup>= (dbs w t) d"
    by (rule effectE [OF run_store_op_refines, where w = w, OF surjective_pairing])
  then show ?thesis by (intro exI [of _ d]) auto
qed

text \<open>
  C4: through any interleaving of the operations of both stores by any tenants, the five tables
  keep their invariant: unique bank ids and names, valid banks, unique members on existing banks
  with unique mission runs, jobs on existing banks, and the invariant of jobs, inputs and events;
  and as long as a bank is not deleted, its closed jobs keep their verdict, score and closing time.
\<close>

theorem store_history_safe:
  assumes "store_inv (dbs w t)"
  shows "store_inv (dbs (run_store_ops ops w) t) \<and>
    ((t, BankOp (OpBankDelete b)) \<notin> set ops \<longrightarrow> final_in b (dbs w t) (dbs (run_store_ops ops w) t))"
  using run_store_ops_inv [OF assms] run_store_ops_keeps [of t b ops w] assms by (simp add: keeps_def)

lemma demo_bank_inv: "bank_inv demo_db"
  by code_simp

lemma demo_store_inv: "store_inv (dbs demo_world t)"
  using demo_world_inv demo_bank_inv by (simp add: store_inv_def demo_world_def)

definition demo_ops :: "(string \<times> store_op) list" where
  "demo_ops = [(''acme'', JobOp (OpOpen (demo_open []))), (''acme'', BankOp (OpSetMemberState ''m1'' MemberDraining)),
     (''acme'', JobOp (OpClose (demo_close VerdictFailed))), (''acme'', BankOp (OpRemoveMember ''m1''))]"

theorem store_history_safe_witness:
  "store_inv (dbs (run_store_ops demo_ops demo_world) ''acme'') \<and>
   final_in ''b1'' (dbs demo_world ''acme'') (dbs (run_store_ops demo_ops demo_world) ''acme'')"
proof -
  have "(''acme'', BankOp (OpBankDelete ''b1'')) \<notin> set demo_ops" by (simp add: demo_ops_def)
  then show ?thesis using store_history_safe [OF demo_store_inv, of demo_ops "''acme''" "''b1''"] by blast
qed

text \<open>
  A create request is accepted exactly when it names the bank and its owner, its login shape is
  known, a subscription belongs to a user and names no provider while every other shape names one,
  and no number is negative; what is accepted is the request with its name trimmed and the
  defaults filled in. Everything else is an invalid request.
\<close>

theorem CreateInput_Validate_exact:
  "CreateInput_Validate inp =
     (if create_ok inp then Inr (create_filled inp) else Inl (ErrInvalid Pkg_bank))"
  by (simp add: create_bad create_good)

lemma Bank_Create_Inr:
  assumes "Bank_Create t inp w = (Inr b, w1)"
  shows "create_ok inp" "\<exists>i now. b = new_bank (create_filled inp) i now"
    "bank_row (b_id b) (dbs w t) = None" "valid_tenant w1 = valid_tenant w" "valid_tenant w t"
    "dbs w1 = (dbs w)(t := (dbs w t)\<lparr>banks := banks (dbs w t) @ [bank_columns b]\<rparr>)"
proof -
  show ok: "create_ok inp" using assms create_bad [of inp] by (cases "create_ok inp") (auto simp: Bank_Create_def)
  from assms show "\<exists>i now. b = new_bank (create_filled inp) i now"
    "bank_row (b_id b) (dbs w t) = None" "valid_tenant w1 = valid_tenant w" "valid_tenant w t"
    "dbs w1 = (dbs w)(t := (dbs w t)\<lparr>banks := banks (dbs w t) @ [bank_columns b]\<rparr>)"
    by (auto simp: Bank_Create_def create_good [OF ok] Let_def statements_Inr bank_columns_def)
qed



definition demo_create :: create_input where
  "demo_create = \<lparr>cr_name = ''pool'', cr_owner_kind = OwnerUser, cr_owner_id = ''ada'', cr_desired_count = 2,
     cr_login_shape = LoginShapeSubscription, cr_provider_config_name = [], cr_agent_name = [],
     cr_model = [], cr_max_jobs_in_flight = 0, cr_stale_limit = 1500000000, cr_spill_policy = SpillOther []\<rparr>"


text \<open>
  A stale limit below one second is accepted, returned by \<open>Create\<close>, and stored as zero; with a
  limit of zero the stale sweep never reads the database, so no job of the bank is ever stale.
\<close>

theorem subsecond_limit_lost:
  assumes "Bank_Create t inp w = (Inr b, w1)" "0 < cr_stale_limit inp" "cr_stale_limit inp < Second"
  shows "b_stale_limit b = cr_stale_limit inp \<and>
    (\<exists>r. bank_row (b_id b) (dbs w1 t) = Some r \<and> b_stale_limit (scanBank r) = 0) \<and>
    Stale t (b_id b) 0 limit w2 = (Inr [], w2)"
proof -
  note created = Bank_Create_Inr [OF assms(1)]
  have lim: "b_stale_limit b = cr_stale_limit inp"
    using created(2) assms(2) by (auto simp: new_bank_def create_filled_def)
  moreover have "staleLimitSeconds (cr_stale_limit inp) = 0" using assms(2,3) by (simp add: staleLimitSeconds_def)
  moreover have "bank_row (b_id b) (dbs w1 t) = Some (bank_columns b)"
    using created(3,6) by (simp add: bank_row_def find_append bank_columns_def)
  ultimately show ?thesis by (simp add: scanBank_def bank_columns_def to_int64_def Stale_def)
qed

theorem subsecond_limit_lost_witness:
  "\<exists>b w1. Bank_Create ''acme'' (demo_create\<lparr>cr_stale_limit := 500\<rparr>) demo_world = (Inr b, w1) \<and>
     b_stale_limit b = 500 \<and>
     (\<exists>r. bank_row (b_id b) (dbs w1 ''acme'') = Some r \<and> b_stale_limit (scanBank r) = 0)"
proof -
  have "\<not> isl (fst (Bank_Create ''acme'' (demo_create\<lparr>cr_stale_limit := 500\<rparr>) demo_world))" by code_simp
  then obtain b w1 where c: "Bank_Create ''acme'' (demo_create\<lparr>cr_stale_limit := 500\<rparr>) demo_world = (Inr b, w1)"
    by (metis isl_def prod.collapse sum.exhaust)
  have "b_stale_limit b = 500 \<and> (\<exists>r. bank_row (b_id b) (dbs w1 ''acme'') = Some r \<and> b_stale_limit (scanBank r) = 0)"
    using subsecond_limit_lost [OF c, of 10 demo_world] by (simp add: Second_def)
  with c show ?thesis by blast
qed







text \<open>
  C30: a page token is read back as the cursor it was made from, for every time of the years 1 to
  9999 at the resolution of the database and every id.
\<close>

theorem page_token_roundtrip:
  assumes "case c_at c of None \<Rightarrow> c_id c = [] | Some a \<Rightarrow> time_ok a"
  shows "decodeToken p (encodeToken c) = Inr c"
  using assms token_round_trip
  by (cases c; cases "c_at c") (simp_all add: encodeToken_def decodeToken_def start_cursor_def)

theorem page_token_roundtrip_witness:
  "decodeToken Pkg_bank (encodeToken \<lparr>c_at = Some 1700000000123456, c_id = ''m1''\<rparr>) =
     Inr \<lparr>c_at = Some 1700000000123456, c_id = ''m1''\<rparr>"
  by (rule page_token_roundtrip) (simp add: time_ok_def unix_epoch_days_def day_us_def days_before_year_def)

end
