(* ===== verification/BankReconciler.thy ===== *)
theory BankReconciler
  imports BankProperties
begin

text \<open>
  The reconciler of \<open>internal/engine/bank/reconciler.go\<close> and its runner (\<open>runner.go\<close>): the policy
  that brings the members of a bank to its desired count. The stores are the modelled ones; the
  launcher is a component of the environment that may fail at each call and whose calls are
  recorded in order, as are the events. An operation that continues after an error returns the
  list of its failures, which Go joins into one error.

  A time is a number of microseconds and a duration one of nanoseconds, so a difference of times is
  scaled and, as \<open>Time.Sub\<close> does, saturated at 64 bits.
\<close>

section \<open>Environment\<close>

record launched_member =
  l_mission :: string
  l_mission_run :: string
  l_agent_run :: string
  l_sandbox :: string

datatype launcher_call =
    LaunchMember string | StopMember string | SuspendMember string | ResumeMember string

datatype member_event =
    EvMemberLaunched string | EvMemberDead string | EvMemberDraining string | EvMemberRemoved string
  | EvMemberSuspended string | EvMemberResumed string

record rworld = world +
  launcher_fails :: "bool list"
  launched :: "string \<Rightarrow> launched_member"
  launcher_calls :: "launcher_call list"
  emitted :: "member_event list"

type_synonym ('w) pass = "'w \<Rightarrow> err list \<times> 'w"

definition launcher :: "launcher_call \<Rightarrow> ('x rworld_scheme, unit) action" where
  "launcher c w =
     (let w' = w\<lparr>launcher_calls := launcher_calls w @ [c], launcher_fails := tl (launcher_fails w)\<rparr>
      in case launcher_fails w of
           True # _ \<Rightarrow> (Inl ErrLauncher, w')
         | _ \<Rightarrow> (Inr (), w'))"

text \<open>A nil sink takes no events.\<close>

definition emit :: "bool \<Rightarrow> member_event \<Rightarrow> ('x rworld_scheme, unit) action" where
  "emit on e w = (Inr (), if on then w\<lparr>emitted := emitted w @ [e]\<rparr> else w)"

definition time_sub :: "time \<Rightarrow> time \<Rightarrow> duration" where
  "time_sub a b = max (- (2 ^ 63)) (min (2 ^ 63 - 1) ((a - b) * 1000))"

text \<open>What a step that may fail leaves in the list of failures, and one pass after another.\<close>

definition attempt :: "('w, 'a) action \<Rightarrow> 'w pass" where
  "attempt m w = (case m w of (Inl e, w') \<Rightarrow> ([e], w') | (Inr _, w') \<Rightarrow> ([], w'))"

definition nothing :: "'w pass" where
  "nothing w = ([], w)"

definition and_then :: "'w pass \<Rightarrow> 'w pass \<Rightarrow> 'w pass" where
  "and_then a b w = (let (es, w1) = a w; (es', w2) = b w1 in (es @ es', w2))"

fun for_each :: "('a \<Rightarrow> 'w pass) \<Rightarrow> 'a list \<Rightarrow> 'w pass" where
  "for_each f [] = nothing"
| "for_each f (x # xs) = and_then (f x) (for_each f xs)"

section \<open>Configuration\<close>

record config =
  cfg_store :: bool
  cfg_launcher :: bool
  cfg_jobs :: bool
  cfg_events :: bool
  cfg_heartbeat :: duration
  cfg_launch :: duration
  cfg_idle :: duration
  cfg_recycle :: duration

definition DefaultIdleSuspendAfter :: duration where "DefaultIdleSuspendAfter = 10 * Minute"
definition DefaultSuspendedRecycleAfter :: duration where "DefaultSuspendedRecycleAfter = 7 * 24 * Hour"
definition DefaultHeartbeatTimeout :: duration where "DefaultHeartbeatTimeout = 30 * Second"
definition DefaultLaunchTimeout :: duration where "DefaultLaunchTimeout = 5 * Minute"

text \<open>The store, the launcher and the jobs are required; a timeout that is not set takes its default.\<close>

definition New :: "config \<Rightarrow> config option" where
  "New cfg =
     (if \<not> cfg_store cfg \<or> \<not> cfg_launcher cfg \<or> \<not> cfg_jobs cfg then None
      else Some (cfg\<lparr>
        cfg_heartbeat := (if cfg_heartbeat cfg \<le> 0 then DefaultHeartbeatTimeout else cfg_heartbeat cfg),
        cfg_launch := (if cfg_launch cfg \<le> 0 then DefaultLaunchTimeout else cfg_launch cfg),
        cfg_idle := (if cfg_idle cfg \<le> 0 then DefaultIdleSuspendAfter else cfg_idle cfg),
        cfg_recycle := (if cfg_recycle cfg \<le> 0 then DefaultSuspendedRecycleAfter else cfg_recycle cfg)\<rparr>))"

definition staleJobBatch :: int where "staleJobBatch = 100"

definition staleJobCloser :: principal where
  "staleJobCloser = \<lparr>p_kind = Service, p_id = ''bank-reconciler''\<rparr>"

section \<open>Counting\<close>

definition resumeCount :: "int \<Rightarrow> int \<Rightarrow> int" where
  "resumeCount waiting jobCap =
     (let jobCap = (if jobCap < 1 then 1 else jobCap)
      in go_div (to_int64 (waiting + jobCap - 1)) jobCap)"

definition spillMembers :: "int \<Rightarrow> int \<Rightarrow> int \<Rightarrow> int" where
  "spillMembers waiting jobCap limit =
     (if waiting \<le> 0 then 0
      else let jobCap = (if jobCap < 1 then 1 else jobCap);
               limit = max limit 1;
               n = go_div (to_int64 (waiting + jobCap - 1)) jobCap
           in if n > limit then limit else to_int32 n)"

definition targetCount :: "string \<Rightarrow> bank \<Rightarrow> ('x rworld_scheme, int) action" where
  "targetCount t b =
     (if b_spill_policy b \<noteq> SpillEphemeral \<or> b_login_shape b = LoginShapeSubscription
      then ret (b_desired_count b)
      else bnd (Unassigned t (b_id b)) (\<lambda>waiting.
           ret (to_int32 (b_desired_count b +
                  spillMembers (int waiting) (b_max_jobs_in_flight b) (b_desired_count b)))))"

definition lessDrainable :: "member \<Rightarrow> member \<Rightarrow> bool" where
  "lessDrainable a b =
     (if m_jobs_in_flight a \<noteq> m_jobs_in_flight b then m_jobs_in_flight a < m_jobs_in_flight b
      else m_created_at a < m_created_at b)"

text \<open>The two loops of \<open>drainOrder\<close>: the inner one swaps an element down to its place.\<close>

fun sift_down :: "member list \<Rightarrow> nat \<Rightarrow> member list" where
  "sift_down ordered 0 = ordered"
| "sift_down ordered (Suc j) =
     (if lessDrainable (ordered ! Suc j) (ordered ! j)
      then sift_down (ordered[Suc j := ordered ! j, j := ordered ! Suc j]) j
      else ordered)"

definition drainOrder :: "member list \<Rightarrow> member list" where
  "drainOrder live = fold (\<lambda>i ordered. sift_down ordered i) [1..<length live] live"

definition initialState :: "bank \<Rightarrow> member_state" where
  "initialState b =
     (if b_login_shape b = LoginShapeSubscription then MemberNeedsSignIn else MemberLaunching)"

section \<open>Members\<close>

text \<open>
  \<open>allMembers\<close> follows the pages; a model of the loop that has used its number of pages has no
  result.
\<close>

fun allMembers :: "nat \<Rightarrow> string \<Rightarrow> string \<Rightarrow> string \<Rightarrow> member list \<Rightarrow> 'x rworld_scheme \<Rightarrow>
    ((err + member list) \<times> 'x rworld_scheme) option" where
  "allMembers 0 t bank token out w = None"
| "allMembers (Suc n) t bank token out w =
     (case ListMembers t bank 0 token w of
        (Inl e, w') \<Rightarrow> Some (Inl e, w')
      | (Inr (page, next_token), w') \<Rightarrow>
          if next_token = [] then Some (Inr (out @ page), w')
          else allMembers n t bank next_token (out @ page) w')"

definition isDead :: "config \<Rightarrow> member \<Rightarrow> ('x rworld_scheme, bool) action" where
  "isDead r m =
     (if m_state m = MemberDead then ret True
      else case m_last_heartbeat m of
             None \<Rightarrow> bnd read_clock (\<lambda>now. ret (time_sub now (m_created_at m) > cfg_launch r))
           | Some beat \<Rightarrow> bnd read_clock (\<lambda>now. ret (time_sub now beat > cfg_heartbeat r)))"

definition removeMember :: "config \<Rightarrow> string \<Rightarrow> member \<Rightarrow> ('x rworld_scheme, unit) action" where
  "removeMember r t m =
     bnd (if m_state m = MemberDraining then launcher (StopMember (m_id m)) else ret ()) (\<lambda>_.
     bnd (RemoveMember t (m_id m)) (\<lambda>_.
     emit (cfg_events r) (EvMemberRemoved (m_id m))))"

definition recycle :: "config \<Rightarrow> string \<Rightarrow> member \<Rightarrow> ('x rworld_scheme, unit) action" where
  "recycle r t m = bnd (launcher (StopMember (m_id m))) (\<lambda>_. removeMember r t m)"

definition markDead :: "config \<Rightarrow> string \<Rightarrow> member \<Rightarrow> ('x rworld_scheme, unit) action" where
  "markDead r t m =
     bnd (if m_state m \<noteq> MemberDead
          then bnd (SetMemberState t (m_id m) MemberDead) (\<lambda>updated.
               emit (cfg_events r) (EvMemberDead (m_id updated)))
          else ret ()) (\<lambda>_.
     bnd (handle (launcher (StopMember (m_id m))) (\<lambda>_. ret ())) (\<lambda>_.
     bnd (ReleaseMember t (m_id m)) (\<lambda>released.
     removeMember r t m)))"

text \<open>One excess member: marked, and removed at once when nothing is in flight.\<close>

definition drain_one :: "config \<Rightarrow> string \<Rightarrow> member \<Rightarrow> ('x rworld_scheme, unit) action" where
  "drain_one r t m =
     bnd (SetMemberState t (m_id m) MemberDraining) (\<lambda>updated.
     bnd (emit (cfg_events r) (EvMemberDraining (m_id updated))) (\<lambda>_.
     if m_jobs_in_flight m = 0 then removeMember r t (updated\<lparr>m_state := MemberDraining\<rparr>) else ret ()))"

definition drain :: "config \<Rightarrow> string \<Rightarrow> member list \<Rightarrow> int \<Rightarrow> 'x rworld_scheme pass" where
  "drain r t live n = for_each (\<lambda>m. attempt (drain_one r t m)) (take (nat n) (drainOrder live))"

definition new_member :: "bank \<Rightarrow> string \<Rightarrow> launched_member \<Rightarrow> member" where
  "new_member b i l =
     \<lparr>m_id = i, m_bank = b_id b, m_mission = l_mission l, m_mission_run = l_mission_run l,
      m_agent_run = l_agent_run l, m_sandbox = l_sandbox l, m_state = initialState b,
      m_jobs_in_flight = 0, m_job_cap = b_max_jobs_in_flight b, m_active_job_ids = [],
      m_claude_version = [], m_last_heartbeat = None, m_idle_since = None, m_created_at = 0,
      m_updated_at = 0\<rparr>"

text \<open>A launched member that cannot be recorded is stopped, and the record's error is the failure.\<close>

definition launch_one :: "config \<Rightarrow> string \<Rightarrow> bank \<Rightarrow> ('x rworld_scheme, unit) action" where
  "launch_one r t b =
     bnd NewID (\<lambda>i.
     bnd (launcher (LaunchMember i)) (\<lambda>_ w.
       let m = new_member b i (launched w i)
       in bnd (handle (AddMember t (Some m))
                 (\<lambda>e. bnd (handle (launcher (StopMember i)) (\<lambda>_. ret ())) (\<lambda>_. fail e))) (\<lambda>_.
          emit (cfg_events r) (EvMemberLaunched i)) w))"

definition launch :: "config \<Rightarrow> string \<Rightarrow> bank \<Rightarrow> int \<Rightarrow> 'x rworld_scheme pass" where
  "launch r t b n = for_each (\<lambda>_. attempt (launch_one r t b)) [0..<nat n]"

section \<open>Idle members\<close>

definition idleLongEnough :: "config \<Rightarrow> member \<Rightarrow> ('x rworld_scheme, bool) action" where
  "idleLongEnough r m =
     (case m_idle_since m of
        Some since \<Rightarrow>
          if m_state m = MemberIdle \<and> m_jobs_in_flight m = 0
          then bnd read_clock (\<lambda>now. ret (time_sub now since \<ge> cfg_idle r))
          else ret False
      | None \<Rightarrow> ret False)"

definition resume_one :: "config \<Rightarrow> member \<Rightarrow> ('x rworld_scheme, unit) action" where
  "resume_one r m =
     bnd (launcher (ResumeMember (m_id m))) (\<lambda>_. emit (cfg_events r) (EvMemberResumed (m_id m)))"

definition suspend_one :: "config \<Rightarrow> string \<Rightarrow> member \<Rightarrow> ('x rworld_scheme, unit) action" where
  "suspend_one r t m =
     bnd (idleLongEnough r m) (\<lambda>idle.
     if \<not> idle then ret ()
     else
       bnd (launcher (SuspendMember (m_id m))) (\<lambda>_.
       bnd (SetMemberState t (m_id m) MemberSuspended) (\<lambda>updated.
       emit (cfg_events r) (EvMemberSuspended (m_id updated)))))"

definition suspendOrResume ::
  "config \<Rightarrow> string \<Rightarrow> bank \<Rightarrow> member list \<Rightarrow> member list \<Rightarrow> 'x rworld_scheme pass" where
  "suspendOrResume r t b live suspended w =
     (case Unassigned t (b_id b) w of
        (Inl e, w') \<Rightarrow> ([e], w')
      | (Inr waiting, w') \<Rightarrow>
          if waiting > 0
          then for_each (\<lambda>m. attempt (resume_one r m))
                 (take (min (length suspended) (nat (resumeCount (int waiting) (b_max_jobs_in_flight b))))
                   suspended) w'
          else for_each (\<lambda>m. attempt (suspend_one r t m)) live w')"

section \<open>Stale jobs\<close>

definition close_stale :: "string \<Rightarrow> job \<Rightarrow> ('x rworld_scheme, unit) action" where
  "close_stale t j =
     handle (bnd (Close t \<lparr>ci_job = j_id j, ci_verdict = VerdictAbandoned, ci_score = Fin 0,
                           ci_closer = staleJobCloser\<rparr>) (\<lambda>_. ret ()))
       (\<lambda>e. case e of ErrClosed _ \<Rightarrow> ret () | ErrNotFound Pkg_job _ \<Rightarrow> ret () | _ \<Rightarrow> fail e)"

definition closeStaleJobs :: "string \<Rightarrow> bank \<Rightarrow> 'x rworld_scheme pass" where
  "closeStaleJobs t b w =
     (let staleSeconds = go_div (b_stale_limit b) Second
      in if staleSeconds \<le> 0 then ([], w)
         else case Stale t (b_id b) staleSeconds staleJobBatch w of
                (Inl e, w') \<Rightarrow> ([e], w')
              | (Inr stale, w') \<Rightarrow> for_each (\<lambda>j. attempt (close_stale t j)) stale w')"

section \<open>One pass\<close>

text \<open>What the loop over the members does with one of them: its failures, and where it counts.\<close>

definition review :: "config \<Rightarrow> string \<Rightarrow> member \<Rightarrow> 'x rworld_scheme \<Rightarrow>
    (err list \<times> member list \<times> member list) \<times> 'x rworld_scheme" where
  "review r t m w =
     (if m_state m = MemberSuspended then
        let now = clock w (ticks w); w = w\<lparr>ticks := Suc (ticks w)\<rparr>
        in if time_sub now (m_updated_at m) > cfg_recycle r
           then let (es, w) = attempt (recycle r t m) w in ((es, [], []), w)
           else (([], [], [m]), w)
      else
        case isDead r m w of
          (Inl e, w) \<Rightarrow> (([e], [], []), w)
        | (Inr dead, w) \<Rightarrow>
            if dead then let (es, w) = attempt (markDead r t m) w in ((es, [], []), w)
            else if m_state m = MemberDraining then
              let (es, w) = (if m_jobs_in_flight m = 0 then attempt (removeMember r t m) w else ([], w))
              in ((es, [], []), w)
            else (([], [m], []), w))"

fun review_all :: "config \<Rightarrow> string \<Rightarrow> member list \<Rightarrow> 'x rworld_scheme \<Rightarrow>
    (err list \<times> member list \<times> member list) \<times> 'x rworld_scheme" where
  "review_all r t [] w = (([], [], []), w)"
| "review_all r t (m # ms) w =
     (let ((es, live, suspended), w1) = review r t m w;
          ((es', live', suspended'), w2) = review_all r t ms w1
      in ((es @ es', live @ live', suspended @ suspended'), w2))"

text \<open>The count against the target: recycle and drain the excess, or launch what is missing.\<close>

definition adjust :: "config \<Rightarrow> string \<Rightarrow> bank \<Rightarrow> int \<Rightarrow> int \<Rightarrow> member list \<Rightarrow> member list \<Rightarrow>
    'x rworld_scheme \<Rightarrow> (err list \<times> member list) \<times> 'x rworld_scheme" where
  "adjust r t b running target live suspended w =
     (if running > target then
        let excess = to_int32 (running - target);
            k = min (nat excess) (length suspended);
            (es, w1) = for_each (\<lambda>m. attempt (recycle r t m)) (take k suspended) w;
            left = excess - int k;
            (es', w2) = (if left > 0 then drain r t live left w1 else ([], w1))
        in ((es @ es', drop k suspended), w2)
      else if running < target then
        let (es, w1) = launch r t b (to_int32 (target - running)) w in ((es, suspended), w1)
      else (([], suspended), w))"

definition reconcile_members ::
  "config \<Rightarrow> string \<Rightarrow> bank \<Rightarrow> member list \<Rightarrow> 'x rworld_scheme pass" where
  "reconcile_members r t b ms w =
     (let ((es1, live, suspended), w1) = review_all r t ms w;
          running = to_int32 (int (length live + length suspended));
          (tr, w2) = targetCount t b w1;
          (es2, target) = (case tr of Inl e \<Rightarrow> ([e], max running (b_desired_count b)) | Inr n \<Rightarrow> ([], n));
          ((es3, suspended), w3) = adjust r t b running target live suspended w2;
          (es4, w4) = suspendOrResume r t b live suspended w3;
          (es5, w5) = closeStaleJobs t b w4
      in (es1 @ es2 @ es3 @ es4 @ es5, w5))"

definition ReconcileBank :: "nat \<Rightarrow> config \<Rightarrow> string \<Rightarrow> bank \<Rightarrow> 'x rworld_scheme \<Rightarrow>
    (err list \<times> 'x rworld_scheme) option" where
  "ReconcileBank pages r t b w =
     (case allMembers pages t (b_id b) [] [] w of
        None \<Rightarrow> None
      | Some (Inl e, w') \<Rightarrow> Some ([e], w')
      | Some (Inr ms, w') \<Rightarrow> Some (reconcile_members r t b ms w'))"

fun reconcile_banks :: "nat \<Rightarrow> config \<Rightarrow> string \<Rightarrow> bank list \<Rightarrow> 'x rworld_scheme \<Rightarrow>
    (err list \<times> 'x rworld_scheme) option" where
  "reconcile_banks pages r t [] w = Some ([], w)"
| "reconcile_banks pages r t (b # bs) w =
     (case ReconcileBank pages r t b w of
        None \<Rightarrow> None
      | Some (es, w1) \<Rightarrow> map_option (\<lambda>(es', w2). (es @ es', w2)) (reconcile_banks pages r t bs w1))"

definition ReconcileTenant :: "nat \<Rightarrow> config \<Rightarrow> string \<Rightarrow> 'x rworld_scheme \<Rightarrow>
    (err list \<times> 'x rworld_scheme) option" where
  "ReconcileTenant pages r t w =
     (case ListAll t w of
        (Inl e, w') \<Rightarrow> Some ([e], w')
      | (Inr bs, w') \<Rightarrow> reconcile_banks pages r t bs w')"

section \<open>The runner\<close>

text \<open>A runner needs a reconciler and a source of tenants; without an interval it takes the default.\<close>

definition DefaultInterval :: duration where "DefaultInterval = DefaultHeartbeatTimeout"

definition NewRunner :: "bool \<Rightarrow> bool \<Rightarrow> duration \<Rightarrow> duration option" where
  "NewRunner has_reconciler has_tenants interval =
     (if \<not> has_reconciler \<or> \<not> has_tenants then None
      else Some (if interval \<le> 0 then DefaultInterval else interval))"

text \<open>
  The tenants of a pass in turn, until the context has ended: \<open>stopped\<close> is what the context says
  before each of them. The failures of a tenant are only logged.
\<close>

fun reconcile_tenants :: "nat \<Rightarrow> config \<Rightarrow> (string \<times> bool) list \<Rightarrow> 'x rworld_scheme \<Rightarrow> 'x rworld_scheme option" where
  "reconcile_tenants pages r [] w = Some w"
| "reconcile_tenants pages r ((t, stopped) # ts) w =
     (if stopped then Some w
      else case ReconcileTenant pages r t w of
             None \<Rightarrow> None
           | Some (_, w') \<Rightarrow> reconcile_tenants pages r ts w')"

text \<open>\<open>Pass\<close>: tenants that cannot be listed skip the whole pass.\<close>

definition Pass :: "nat \<Rightarrow> config \<Rightarrow> (string \<times> bool) list option \<Rightarrow> 'x rworld_scheme \<Rightarrow> 'x rworld_scheme option" where
  "Pass pages r listing w = (case listing of None \<Rightarrow> Some w | Some ts \<Rightarrow> reconcile_tenants pages r ts w)"

text \<open>\<open>Run\<close>: one pass at once and one per tick until the context ends; the listings are those of the passes.\<close>

fun Run :: "nat \<Rightarrow> config \<Rightarrow> (string \<times> bool) list option list \<Rightarrow> 'x rworld_scheme \<Rightarrow> 'x rworld_scheme option" where
  "Run pages r [] w = Some w"
| "Run pages r (l # ls) w = Option.bind (Pass pages r l w) (Run pages r ls)"

end
