(* ===== verification/ReconcilerSteps.thy ===== *)
theory ReconcilerSteps
  imports BankReconciler
begin

text \<open>
  What a pass of the reconciler does to the tables, from the contract of the store operations it
  calls: whatever preorder those operations follow, the whole pass follows, with any failures of
  the database and the launcher. The contract is a locale; it is met by the steps of the stores
  and by the relation that keeps the invariant and the closed jobs of a bank.
\<close>

section \<open>Passes\<close>

definition pass_effect :: "string \<Rightarrow> (tenant_db \<Rightarrow> tenant_db \<Rightarrow> bool) \<Rightarrow> 'x world_scheme pass \<Rightarrow> bool" where
  "pass_effect t R p \<longleftrightarrow>
     (\<forall>w es w'. p w = (es, w') \<longrightarrow> (\<exists>d. dbs w' = (dbs w)(t := d) \<and> R (dbs w t) d))"

lemma pass_effectE:
  assumes "pass_effect t R p" "p w = (es, w')"
  obtains d where "dbs w' = (dbs w)(t := d)" "R (dbs w t) d"
  using assms unfolding pass_effect_def by blast

lemma dbs_of_rworld [simp]:
  "dbs (w\<lparr>launcher_calls := c, launcher_fails := f\<rparr>) = dbs w" "dbs (w\<lparr>emitted := e\<rparr>) = dbs w"
  by simp_all

lemma launcher_dbs: "launcher c w = (r, w') \<Longrightarrow> dbs w' = dbs w"
  by (auto simp: launcher_def Let_def split: list.splits bool.splits)

lemma emit_dbs: "emit on e w = (r, w') \<Longrightarrow> dbs w' = dbs w"
  by (auto simp: emit_def split: if_splits)

lemma environment_effects: "effect t (=) (launcher c)" "effect t (=) (emit on e)"
  by (auto intro!: effectI dest!: launcher_dbs emit_dbs)

lemma isDead_effect: "effect t (=) (isDead r m)" "effect t (=) (idleLongEnough r m)"
  unfolding isDead_def idleLongEnough_def by (intro readonly.effect_rules effect_cases)+

text \<open>
  The contract: a preorder on the tables that \<open>Close\<close> follows, and one that every store operation
  of a pass follows.
\<close>

locale closing_store = db_preorder R for R +
  fixes world_type :: "'x rworld_scheme itself"
  assumes close: "effect t R (Close t inp :: ('x rworld_scheme, job) action)"
begin

lemma reader: "effect t (=) (m :: ('x rworld_scheme, 'a) action) \<Longrightarrow> effect t R m"
  by (erule effect_mono) (simp add: refl)

lemma attempt_effect:
  "effect t R (m :: ('x rworld_scheme, 'a) action) \<Longrightarrow> pass_effect t R (attempt m)"
  by (force simp: pass_effect_def attempt_def elim: effectE split: prod.splits sum.splits)

lemma same_effect: "dbs w' = dbs w \<Longrightarrow> \<exists>d. dbs w' = (dbs w)(t := d) \<and> R (dbs w t) d"
  by (rule unchanged)

lemma chain:
  assumes "dbs w1 = (dbs w)(t := d1)" "R (dbs w t) d1" "dbs w2 = (dbs w1)(t := d2)" "R (dbs w1 t) d2"
  shows "\<exists>d. dbs w2 = (dbs w)(t := d) \<and> R (dbs w t) d"
  using assms by (auto intro: trans)

lemma chain_ex:
  assumes "\<exists>d. dbs w1 = (dbs w)(t := d) \<and> R (dbs w t) d" "\<exists>d. dbs w2 = (dbs w1)(t := d) \<and> R (dbs w1 t) d"
  shows "\<exists>d. dbs w2 = (dbs w)(t := d) \<and> R (dbs w t) d"
  using assms by (elim exE conjE) (rule chain)

lemma nothing_effect: "pass_effect t R nothing"
  unfolding pass_effect_def nothing_def by (auto intro: unchanged)

lemma and_then_effect:
  assumes "pass_effect t R p" "pass_effect t R q" shows "pass_effect t R (and_then p q)"
  unfolding pass_effect_def
proof (intro allI impI)
  fix w es w' assume "and_then p q w = (es, w')"
  then obtain es1 w1 es2 where p: "p w = (es1, w1)" and q: "q w1 = (es2, w')"
    by (auto simp: and_then_def Let_def split: prod.splits)
  show "\<exists>d. dbs w' = (dbs w)(t := d) \<and> R (dbs w t) d"
    by (rule pass_effectE [OF assms(1) p], rule pass_effectE [OF assms(2) q]) (rule chain)
qed

lemma for_each_effect: "(\<And>x. pass_effect t R (f x)) \<Longrightarrow> pass_effect t R (for_each f xs)"
  by (induction xs) (simp_all add: nothing_effect and_then_effect)

lemma close_stale_effect: "effect t R (close_stale t j :: ('x rworld_scheme, unit) action)"
proof -
  have "effect t R ((case e of ErrClosed _ \<Rightarrow> ret () | ErrNotFound Pkg_job _ \<Rightarrow> ret () | _ \<Rightarrow> fail e) ::
      ('x rworld_scheme, unit) action)" for e
    by (cases e; cases "case e of ErrNotFound p _ \<Rightarrow> p | _ \<Rightarrow> Pkg_job") (simp_all add: effect_ret effect_fail)
  then show ?thesis unfolding close_stale_def by (intro effect_handle effect_bnd effect_ret close)
qed

lemma read_pass:
  assumes "effect t (=) (m :: ('x rworld_scheme, 'a) action)" "\<And>x. pass_effect t R (f x)"
  shows "pass_effect t R (\<lambda>w. case m w of (Inl e, w') \<Rightarrow> ([e], w') | (Inr x, w') \<Rightarrow> f x w')"
  unfolding pass_effect_def
proof (intro allI impI)
  fix w es w' assume run: "(case m w of (Inl e, w') \<Rightarrow> ([e], w') | (Inr x, w') \<Rightarrow> f x w') = (es, w')"
  obtain mr w1 where m: "m w = (mr, w1)" by force
  have same: "dbs w1 = dbs w" by (rule effectE [OF assms(1) m]) auto
  show "\<exists>d. dbs w' = (dbs w)(t := d) \<and> R (dbs w t) d"
  proof (cases mr)
    case (Inl e)
    with run m same show ?thesis by (simp add: unchanged)
  next
    case (Inr x)
    with run m have "f x w1 = (es, w')" by simp
    from pass_effectE [OF assms(2) this] same show ?thesis by metis
  qed
qed

lemma closeStaleJobs_effect: "pass_effect t R (closeStaleJobs t b :: 'x rworld_scheme pass)"
proof (cases "go_div (b_stale_limit b) Second \<le> 0")
  case True
  then show ?thesis
    using nothing_effect [of t] unfolding closeStaleJobs_def [abs_def] nothing_def [abs_def] by simp
next
  case False
  have "pass_effect t R (for_each (\<lambda>j. attempt (close_stale t j)) stale :: 'x rworld_scheme pass)" for stale
    by (intro for_each_effect attempt_effect close_stale_effect)
  from read_pass [where m = "Stale t (b_id b) (go_div (b_stale_limit b) Second) staleJobBatch",
      OF readers_refine(4) this] False
  show ?thesis unfolding closeStaleJobs_def [abs_def] by (simp add: Let_def)
qed

end

locale reconciler_store = closing_store R world_type for R and world_type :: "'x rworld_scheme itself" +
  assumes set_state: "effect t R (SetMemberState t i s :: ('x rworld_scheme, member) action)"
    and remove: "effect t R (RemoveMember t i :: ('x rworld_scheme, unit) action)"
    and add: "effect t R (AddMember t mo :: ('x rworld_scheme, unit) action)"
    and release: "effect t R (ReleaseMember t i :: ('x rworld_scheme, nat) action)"
begin

lemmas ops = set_state remove add release close
  environment_effects [THEN reader] isDead_effect [THEN reader]

lemma member_actions:
  "effect t R (removeMember r t m :: ('x rworld_scheme, unit) action)"
  "effect t R (recycle r t m :: ('x rworld_scheme, unit) action)"
  "effect t R (markDead r t m :: ('x rworld_scheme, unit) action)"
  "effect t R (drain_one r t m :: ('x rworld_scheme, unit) action)"
  "effect t R (resume_one r m :: ('x rworld_scheme, unit) action)"
  "effect t R (suspend_one r t m :: ('x rworld_scheme, unit) action)"
proof -
  show remove_member: "effect t R (removeMember r t m :: ('x rworld_scheme, unit) action)" for m
    unfolding removeMember_def by (intro effect_rules effect_cases ops)
  show "effect t R (recycle r t m :: ('x rworld_scheme, unit) action)"
    "effect t R (markDead r t m :: ('x rworld_scheme, unit) action)"
    "effect t R (drain_one r t m :: ('x rworld_scheme, unit) action)"
    "effect t R (resume_one r m :: ('x rworld_scheme, unit) action)"
    "effect t R (suspend_one r t m :: ('x rworld_scheme, unit) action)"
    unfolding recycle_def markDead_def drain_one_def resume_one_def suspend_one_def
    by (intro effect_rules effect_cases effect_handle ops remove_member)+
qed

lemma effect_with_state:
  assumes "\<And>w0. effect t R (f w0)" shows "effect t R (\<lambda>w. f w w)"
  using assms by (auto intro!: effectI elim: effectE)

lemma launch_one_effect: "effect t R (launch_one r t b :: ('x rworld_scheme, unit) action)"
proof -
  have "effect t R (\<lambda>w :: 'x rworld_scheme.
       let m = new_member b i (launched w i)
       in bnd (handle (AddMember t (Some m))
                 (\<lambda>e. bnd (handle (launcher (StopMember i)) (\<lambda>_. ret ())) (\<lambda>_. fail e))) (\<lambda>_.
          emit (cfg_events r) (EvMemberLaunched i)) w)" for i
    unfolding Let_def
    by (rule effect_with_state [where f = "\<lambda>w0. bnd (handle (AddMember t (Some (new_member b i (launched w0 i))))
                 (\<lambda>e. bnd (handle (launcher (StopMember i)) (\<lambda>_. ret ())) (\<lambda>_. fail e))) (\<lambda>_.
          emit (cfg_events r) (EvMemberLaunched i))"])
       (intro effect_rules effect_handle ops)
  then show ?thesis unfolding launch_one_def by (intro effect_rules ops)
qed

lemma passes:
  "pass_effect t R (drain r t live n :: 'x rworld_scheme pass)"
  "pass_effect t R (launch r t b n :: 'x rworld_scheme pass)"
  unfolding drain_def launch_def
  by (intro for_each_effect attempt_effect member_actions launch_one_effect)+

lemma suspendOrResume_effect: "pass_effect t R (suspendOrResume r t b live susp :: 'x rworld_scheme pass)"
proof -
  have "pass_effect t R (\<lambda>w :: 'x rworld_scheme.
      if waiting > 0
      then for_each (\<lambda>m. attempt (resume_one r m))
             (take (min (length susp) (nat (resumeCount (int waiting) (b_max_jobs_in_flight b)))) susp) w
      else for_each (\<lambda>m. attempt (suspend_one r t m)) live w)" for waiting :: nat
    by (cases "waiting > 0") (simp_all add: for_each_effect attempt_effect member_actions)
  from read_pass [where m = "Unassigned t (b_id b)", OF readers_refine(5) this] show ?thesis
    unfolding suspendOrResume_def [abs_def] by simp
qed

lemma attempt_step:
  assumes "effect t R (m :: ('x rworld_scheme, 'a) action)" "attempt m w = (es, w')" "dbs w = dbs w0"
  shows "\<exists>d. dbs w' = (dbs w0)(t := d) \<and> R (dbs w0 t) d"
  using pass_effectE [OF attempt_effect [OF assms(1)] assms(2)] assms(3) by metis

lemma review_effect:
  fixes w :: "'x rworld_scheme"
  assumes "review r t m w = (out, w')"
  shows "\<exists>d. dbs w' = (dbs w)(t := d) \<and> R (dbs w t) d"
proof (cases "m_state m = MemberSuspended")
  case True
  with assms show ?thesis
    by (auto simp: review_def Let_def split: if_splits prod.splits
        intro: unchanged attempt_step [OF member_actions(2)])
next
  case False
  obtain dr w1 where dead: "isDead r m w = (dr, w1)" by force
  have same: "dbs w1 = dbs w" by (rule effectE [OF isDead_effect(1) dead]) auto
  with False assms dead show ?thesis
    by (auto simp: review_def Let_def split: if_splits prod.splits sum.splits
        intro: unchanged attempt_step [OF member_actions(1)] attempt_step [OF member_actions(3)])
qed

lemma review_all_effect:
  fixes w :: "'x rworld_scheme"
  assumes "review_all r t ms w = (out, w')"
  shows "\<exists>d. dbs w' = (dbs w)(t := d) \<and> R (dbs w t) d"
  using assms
proof (induction ms arbitrary: w out)
  case (Cons m ms)
  obtain out1 w1 where r: "review r t m w = (out1, w1)" by (cases "review r t m w")
  obtain out2 where rs: "review_all r t ms w1 = (out2, w')"
    using Cons.prems r by (auto simp: Let_def split: prod.splits)
  show ?case by (rule chain_ex [OF review_effect [OF r] Cons.IH [OF rs]])
qed (simp add: unchanged)

lemma adjust_effect:
  fixes w :: "'x rworld_scheme"
  assumes "adjust r t b running target live susp w = (out, w')"
  shows "\<exists>d. dbs w' = (dbs w)(t := d) \<and> R (dbs w t) d"
proof -
  define k where "k = min (nat (to_int32 (running - target))) (length susp)"
  define lft where "lft = to_int32 (running - target) - int k"
  have rec: "pass_effect t R (for_each (\<lambda>m. attempt (recycle r t m)) (take k susp) :: 'x rworld_scheme pass)"
    by (intro for_each_effect attempt_effect member_actions)
  show ?thesis
  proof (cases "running > target")
    case True
    obtain es w1 where one: "for_each (\<lambda>m. attempt (recycle r t m)) (take k susp) w = (es, w1)" by force
    show ?thesis
    proof (cases "lft > 0")
      case drain: True
      have "int k < to_int32 (running - target)" using drain unfolding lft_def by linarith
      then have "snd (adjust r t b running target live susp w) = snd (drain r t live lft w1)"
        using True one by (simp add: adjust_def Let_def split_def flip: k_def lft_def)
      then obtain es' where two: "drain r t live lft w1 = (es', w')"
        using assms by (cases "drain r t live lft w1") auto
      show ?thesis by (rule pass_effectE [OF rec one], rule pass_effectE [OF passes(1) two]) (rule chain)
    next
      case False
      then have "\<not> int k < to_int32 (running - target)" unfolding lft_def by linarith
      then have "snd (adjust r t b running target live susp w) = w1"
        using True one by (simp add: adjust_def Let_def split_def flip: k_def lft_def)
      then have "w' = w1" using assms by simp
      then show ?thesis using pass_effectE [OF rec one] by metis
    qed
  next
    case False
    then show ?thesis
    proof (cases "running < target")
      case True
      then obtain es where "launch r t b (to_int32 (target - running)) w = (es, w')"
        using assms by (auto simp: adjust_def Let_def split: prod.splits)
      from pass_effectE [OF passes(2) this] show ?thesis by metis
    qed (use False assms in \<open>auto simp: adjust_def intro: unchanged\<close>)
  qed
qed

lemma targetCount_effect: "effect t (=) (targetCount t b :: ('x rworld_scheme, int) action)"
  unfolding targetCount_def by (intro readonly.effect_rules effect_cases readers_refine)

lemma reconcile_members_effect: "pass_effect t R (reconcile_members r t b ms :: 'x rworld_scheme pass)"
  unfolding pass_effect_def
proof (intro allI impI)
  fix w es and w' :: "'x rworld_scheme" assume run: "reconcile_members r t b ms w = (es, w')"
  obtain es1 live susp w1 where a: "review_all r t ms w = ((es1, live, susp), w1)" by (metis prod.collapse)
  define running where "running = to_int32 (int (length live + length susp))"
  obtain tr w2 where b: "targetCount t b w1 = (tr, w2)" by force
  define target where "target = (case tr of Inl e \<Rightarrow> max running (b_desired_count b) | Inr n \<Rightarrow> n)"
  obtain es3 susp' w3 where c: "adjust r t b running target live susp w2 = ((es3, susp'), w3)" by (metis prod.collapse)
  obtain es4 w4 where d: "suspendOrResume r t b live susp' w3 = (es4, w4)" by force
  obtain es5 w5 where e: "closeStaleJobs t b w4 = (es5, w5)" by force
  have w': "w' = w5"
    using run a b c d e unfolding reconcile_members_def Let_def running_def target_def
    by (cases tr) simp_all
  have same: "dbs w2 = dbs w1" by (rule effectE [OF targetCount_effect b]) auto
  obtain d1 where d1: "dbs w1 = (dbs w)(t := d1)" "R (dbs w t) d1" using review_all_effect [OF a] by blast
  obtain d2 where d2: "dbs w3 = (dbs w1)(t := d2)" "R (dbs w1 t) d2" using adjust_effect [OF c] same by auto
  obtain d3 where d3: "dbs w4 = (dbs w3)(t := d3)" "R (dbs w3 t) d3" by (rule pass_effectE [OF suspendOrResume_effect d])
  obtain d4 where d4: "dbs w5 = (dbs w4)(t := d4)" "R (dbs w4 t) d4" by (rule pass_effectE [OF closeStaleJobs_effect e])
  obtain d5 where d5: "dbs w3 = (dbs w)(t := d5)" "R (dbs w t) d5" using chain [OF d1 d2] by blast
  obtain d6 where "dbs w4 = (dbs w)(t := d6)" "R (dbs w t) d6" using chain [OF d5 d3] by blast
  from chain [OF this d4] show "\<exists>d. dbs w' = (dbs w)(t := d) \<and> R (dbs w t) d" by (simp add: w')
qed

lemma allMembers_same:
  fixes w :: "'x rworld_scheme"
  shows "allMembers n t bank token out w = Some (res, w') \<Longrightarrow> dbs w' = dbs w"
proof (induction n arbitrary: token out w)
  case (Suc n)
  obtain lr w1 where l: "ListMembers t bank 0 token w = (lr, w1)" by force
  have same: "dbs w1 = dbs w" by (rule effectE [OF bank_readers(4) l]) auto
  then show ?case using Suc.prems Suc.IH [of _ _ w1] l
    by (auto split: sum.splits prod.splits if_splits)
qed simp

lemma ReconcileBank_effect:
  fixes w :: "'x rworld_scheme"
  assumes "ReconcileBank n r t b w = Some (es, w')"
  shows "\<exists>d. dbs w' = (dbs w)(t := d) \<and> R (dbs w t) d"
proof -
  obtain res w1 where a: "allMembers n t (b_id b) [] [] w = Some (res, w1)"
    using assms by (auto simp: ReconcileBank_def split: option.splits)
  have same: "dbs w1 = dbs w" by (rule allMembers_same [OF a])
  show ?thesis
  proof (cases res)
    case (Inl e)
    then show ?thesis using assms a same by (simp add: ReconcileBank_def unchanged)
  next
    case (Inr ms)
    then have "reconcile_members r t b ms w1 = (es, w')" using assms a by (simp add: ReconcileBank_def)
    from pass_effectE [OF reconcile_members_effect this] same show ?thesis by metis
  qed
qed

lemma ReconcileTenant_effect:
  fixes w :: "'x rworld_scheme"
  assumes "ReconcileTenant n r t w = Some (es, w')"
  shows "\<exists>d. dbs w' = (dbs w)(t := d) \<and> R (dbs w t) d"
proof -
  have banks: "\<exists>d. dbs w' = (dbs w)(t := d) \<and> R (dbs w t) d"
    if "reconcile_banks n r t bs w = Some (es, w')" for bs es and w w' :: "'x rworld_scheme"
    using that
  proof (induction bs arbitrary: w es)
    case (Cons b bs)
    then obtain es1 w1 es2 where one: "ReconcileBank n r t b w = Some (es1, w1)"
      and rest: "reconcile_banks n r t bs w1 = Some (es2, w')"
      by (auto split: option.splits)
    from chain_ex [OF ReconcileBank_effect [OF one] Cons.IH [OF rest]] show ?case .
  qed (simp add: unchanged)
  obtain lr w1 where l: "ListAll t w = (lr, w1)" by force
  have same: "dbs w1 = dbs w" by (rule effectE [OF bank_readers(3) l]) auto
  then show ?thesis using assms l banks [of _ w1 es w']
    by (cases lr) (auto simp: ReconcileTenant_def intro: unchanged)
qed

end

section \<open>The stores meet the contract\<close>

lemma star_of_step: "effect t store_step\<^sup>=\<^sup>= m \<Longrightarrow> effect t store_step\<^sup>*\<^sup>* m"
  by (erule effect_mono) auto

lemma bank_star: "effect t bank_step\<^sup>=\<^sup>= m \<Longrightarrow> effect t store_step\<^sup>*\<^sup>* m"
  by (rule star_of_step, erule effect_mono) (auto simp: store_step_def)

lemma job_star: "effect t job_step\<^sup>=\<^sup>= m \<Longrightarrow> effect t store_step\<^sup>*\<^sup>* m"
  by (rule star_of_step, erule effect_mono) (auto simp: store_step_def)

interpretation store_steps: db_preorder "store_step\<^sup>*\<^sup>*"
  by unfold_locales auto

interpretation step_pass: reconciler_store "store_step\<^sup>*\<^sup>*" "TYPE('x rworld_scheme)"
  by unfold_locales
     (rule bank_star SetMemberState_refines RemoveMember_refines AddMember_refines
       job_star ReleaseMember_refines Close_refines)+

lemma job_keeps: "effect t job_step\<^sup>=\<^sup>= m \<Longrightarrow> effect t (keeps b) m"
  by (erule effect_mono) (auto simp: keeping.refl job_step_keeps)

interpretation keep_pass: reconciler_store "keeps b" "TYPE('x rworld_scheme)" for b
  by unfold_locales (rule bank_ops_keep job_keeps [OF ReleaseMember_refines] job_keeps [OF Close_refines])+

text \<open>Closing jobs leaves the members alone.\<close>

interpretation same_members: db_preorder "\<lambda>d d'. members d' = members d \<and> banks d' = banks d"
  by unfold_locales auto

interpretation closing_pass: closing_store "\<lambda>d d'. members d' = members d \<and> banks d' = banks d"
    "TYPE('x rworld_scheme)"
  by unfold_locales (auto intro!: effect_mono [OF Close_refines] dest: job_step_tables)

end
