(* ===== verification/DrainOrder.thy ===== *)
theory DrainOrder
  imports BankReconciler
begin

text \<open>
  The insertion sort of \<open>drainOrder\<close> (\<open>internal/engine/bank/reconciler.go\<close>): swapping an element down
  inserts it after every element of a key that is not larger, so the loop is the stable sort by jobs
  in flight and creation time.
\<close>

definition drain_key :: "member \<Rightarrow> int \<times> time" where
  "drain_key m = (m_jobs_in_flight m, m_created_at m)"

lemma lessDrainable_key: "lessDrainable a b \<longleftrightarrow> drain_key a < drain_key b"
  by (auto simp: lessDrainable_def drain_key_def less_prod_def)

lemma sift_down_insert:
  assumes "sorted (map drain_key ys)"
  shows "sift_down (ys @ x # zs) (length ys) =
    filter (\<lambda>y. drain_key y \<le> drain_key x) ys @ x # filter (\<lambda>y. drain_key x < drain_key y) ys @ zs"
  using assms
proof (induction ys arbitrary: zs rule: rev_induct)
  case (snoc y ys)
  have swap: "(ys @ y # x # zs)[Suc (length ys) := y, length ys := x] = ys @ x # y # zs"
    by (simp add: list_update_append)
  show ?case
  proof (cases "drain_key x < drain_key y")
    case True
    then show ?thesis using snoc.IH [of "y # zs"] snoc.prems swap
      by (simp add: lessDrainable_key nth_append sorted_append)
  next
    case False
    then have "\<forall>z \<in> set (ys @ [y]). drain_key z \<le> drain_key x"
      using snoc.prems by (auto simp: sorted_append intro: order_trans)
    then have "filter (\<lambda>y. drain_key y \<le> drain_key x) (ys @ [y]) = ys @ [y]"
      "filter (\<lambda>y. drain_key x < drain_key y) (ys @ [y]) = []"
      by (auto simp: filter_id_conv filter_empty_conv not_less)
    then show ?thesis using False by (simp add: lessDrainable_key nth_append del: filter_append)
  qed
qed simp

lemma sort_key_snoc:
  fixes key :: "'a \<Rightarrow> 'k::linorder"
  shows "sort_key key (xs @ [x]) =
    filter (\<lambda>y. key y \<le> key x) (sort_key key xs) @ x # filter (\<lambda>y. key x < key y) (sort_key key xs)"
    (is "_ = ?rhs")
proof (rule properties_for_sort_key)
  have "filter (\<lambda>y. \<not> key y \<le> key x) (sort_key key xs) = filter (\<lambda>y. key x < key y) (sort_key key xs)"
    by (simp add: not_le)
  then have "mset (filter (\<lambda>y. key y \<le> key x) (sort_key key xs)) +
      mset (filter (\<lambda>y. key x < key y) (sort_key key xs)) = mset (sort_key key xs)"
    by (metis mset_filter multiset_partition)
  then show "mset ?rhs = mset (xs @ [x])" by simp
  show "filter (\<lambda>y. key k = key y) ?rhs = filter (\<lambda>y. key k = key y) (xs @ [x])" if "k \<in> set ?rhs" for k
  proof -
    have S: "filter (\<lambda>y. key k = key y) (sort_key key xs) = filter (\<lambda>y. key k = key y) xs"
      using sort_key_stable [of key "key k" xs] by (simp only: eq_commute [of "key k"])
    have part: "filter (\<lambda>y. key k = key y) (filter p (sort_key key xs)) =
        (if q then filter (\<lambda>y. key k = key y) xs else [])" if "\<And>y. key k = key y \<Longrightarrow> p y = q" for p q
    proof -
      have "filter (\<lambda>y. key k = key y) (filter p (sort_key key xs)) =
          filter (\<lambda>y. key k = key y \<and> q) (sort_key key xs)"
        using that by (auto simp: filter_filter intro!: filter_cong)
      then show ?thesis using S by simp
    qed
    show ?thesis
      using part [of "\<lambda>y. key y \<le> key x" "key k \<le> key x"] part [of "\<lambda>y. key x < key y" "key x < key k"]
      by auto
  qed
  have S: "sorted (map key (sort_key key xs))" by simp
  have "sorted (map key (filter p (sort_key key xs)))" for p by (rule sorted_filter [OF S])
  then show "sorted (map key ?rhs)" by (auto simp: sorted_append)
qed

lemma drainOrder_prefix:
  "i \<le> length live \<Longrightarrow> fold (\<lambda>i ordered. sift_down ordered i) [0..<i] live =
     sort_key drain_key (take i live) @ drop i live"
proof (induction i)
  case (Suc i)
  then have i: "i < length live" by simp
  then have "drop i live = live ! i # drop (Suc i) live" by (simp add: Cons_nth_drop_Suc)
  moreover have "take (Suc i) live = take i live @ [live ! i]" using i by (rule take_Suc_conv_app_nth)
  ultimately show ?case
    using Suc sift_down_insert [of "sort_key drain_key (take i live)" "live ! i" "drop (Suc i) live"]
      sort_key_snoc [of drain_key "take i live" "live ! i"] by simp
qed simp

lemma drainOrder_sort: "drainOrder live = sort_key drain_key live"
proof (cases "length live")
  case (Suc n)
  have "fold (\<lambda>i ordered. sift_down ordered i) [0..<length live] live = drainOrder live"
    unfolding drainOrder_def Suc using upt_conv_Cons [of 0 "Suc n"] by simp
  then show ?thesis using drainOrder_prefix [of "length live" live] by simp
qed (simp add: drainOrder_def)

end
