(* ===== verification/MemberPages.thy ===== *)
theory MemberPages
  imports ReconcilerSteps DrainOrder
begin

text \<open>
  Reading all members of a bank page by page: each page starts after the last row of the page before,
  so the pages together are the members in the order of creation, and one page more than there are
  members is always enough.
\<close>

definition members_of :: "string \<Rightarrow> tenant_db \<Rightarrow> member list" where
  "members_of bank d = filter (\<lambda>m. m_bank m = bank) (members d)"

definition times_ok :: "tenant_db \<Rightarrow> bool" where
  "times_ok d \<longleftrightarrow> list_all (\<lambda>m. time_ok (m_created_at m)) (members d)"

lemma ListMembers_Inr:
  assumes "ListMembers t bank 0 token w = (Inr (page, nt), w')" "decodeToken Pkg_bank token = Inr c"
  shows "trimPage member_key (take (nat (50 + 1)) (after_asc member_key c (members_of bank (dbs w t)))) 50 = (page, nt)"
    "dbs w' = dbs w" "faults w = [] \<Longrightarrow> w' = w"
  using assms
  by (auto simp: ListMembers_def clampPageSize_def DefaultPageSize_def members_of_def)

lemma ListMembers_works:
  assumes "faults w = []" "valid_tenant w t" "decodeToken Pkg_bank token = Inr c"
  shows "\<not> isl (fst (ListMembers t bank 0 token w))"
proof -
  have "w\<lparr>faults := []\<rparr> = w" using assms(1) by (metis world.surjective world.update_convs(2))
  then show ?thesis using assms
    by (simp add: ListMembers_def clampPageSize_def DefaultPageSize_def with_conn_def take_fault_def
        query_def bnd_def ret_def split_def)
qed

lemma allMembers_loop:
  assumes "distinct (map member_key (members_of bank (dbs w t)))" "times_ok (dbs w t)"
    and "decodeToken Pkg_bank token = Inr c"
    and "after_asc member_key start_cursor (members_of bank (dbs w t)) = out @ zs"
    and "after_asc member_key c (members_of bank (dbs w t)) = zs" "length zs < n"
  shows "\<exists>r w'. allMembers n t bank token out w = Some (r, w') \<and>
    (isl r \<or> r = Inr (out @ zs)) \<and> (faults w = [] \<and> valid_tenant w t \<longrightarrow> r = Inr (out @ zs) \<and> w' = w)"
  using assms
proof (induction n arbitrary: token c out zs w)
  case (Suc n)
  let ?rows = "members_of bank (dbs w t)"
  obtain lr w1 where l: "ListMembers t bank 0 token w = (lr, w1)" by force
  show ?case
  proof (cases lr)
    case (Inl e)
    then show ?thesis using l ListMembers_works [of w t token c bank] Suc.prems(3) by auto
  next
    case (Inr pn)
    then obtain page nt where pn: "ListMembers t bank 0 token w = (Inr (page, nt), w1)" using l by (cases pn) auto
    note page = ListMembers_Inr [OF pn Suc.prems(3)]
    have ok: "time_ok (fst (member_key m))" if "m \<in> set ?rows" for m
      using Suc.prems(2) that by (auto simp: times_ok_def members_of_def list_all_iff member_key_def)
    note pg = asc.page [OF Suc.prems(1) _ Suc.prems(4,5) ok page(1)]
    show ?thesis
    proof (cases "nt = []")
      case True
      then have "zs = page" using pg(2,3) by simp
      then show ?thesis using pn True page(3) by simp
    next
      case False
      then obtain c' where c': "decodeToken Pkg_bank nt = Inr c'" "after_asc member_key c' ?rows = drop 50 zs"
        using pg(4) [of Pkg_bank] by auto
      have "length zs > 50" using pg(3) False by simp
      then have len: "length (drop 50 zs) < n" using Suc.prems(6) by simp
      have split: "after_asc member_key start_cursor ?rows = (out @ page) @ drop 50 zs"
        using Suc.prems(4) pg(2) by simp
      from Suc.IH [of w1 nt c' "out @ page" "drop 50 zs"] c' len split Suc.prems(1,2)
      obtain r w' where "allMembers n t bank nt (out @ page) w1 = Some (r, w')"
        "isl r \<or> r = Inr ((out @ page) @ drop 50 zs)"
        "faults w1 = [] \<and> valid_tenant w1 t \<longrightarrow> r = Inr ((out @ page) @ drop 50 zs) \<and> w' = w1"
        unfolding page(2) by blast
      moreover have "(out @ page) @ drop 50 zs = out @ zs" using pg(2) by simp
      ultimately show ?thesis using pn False page(3) by auto
    qed
  qed
qed simp

lemma member_keys_distinct:
  assumes "bank_inv d" shows "distinct (map member_key (members_of bank d))"
proof -
  have "distinct (map m_id (members d))" using assms by (simp add: bank_inv_def)
  then have "distinct (map m_id (members_of bank d))" by (simp add: members_of_def distinct_map_filter)
  moreover have "map m_id xs = map snd (map member_key xs)" for xs by (simp add: member_key_def)
  ultimately show ?thesis by (metis distinct_map)
qed

end
