(* ===== verification/ReconcilerCalm.thy ===== *)
theory ReconcilerCalm
  imports MemberPages
begin

text \<open>
  A pass in calm weather: the database and the launcher work, ids are fresh. Then every step of the
  reconciler is determined by the rows it finds, and one pass brings a bank to its desired count.
\<close>

definition rows :: "string \<Rightarrow> 'x world_scheme \<Rightarrow> string \<Rightarrow> member option" where
  "rows t w = (\<lambda>i. member_row i (dbs w t))"

definition run_of :: "'x rworld_scheme \<Rightarrow> nat \<Rightarrow> string" where
  "run_of w k = l_mission_run (launched w (uuid w k))"

definition fresh_ids :: "string \<Rightarrow> 'x rworld_scheme \<Rightarrow> bool" where
  "fresh_ids t w \<longleftrightarrow> inj (uuid w) \<and> rows t w [] = None \<and>
     (\<forall>k \<ge> fresh w. uuid w k \<noteq> [] \<and> rows t w (uuid w k) = None \<and>
        (run_of w k = [] \<or>
         run_of w k \<notin> m_mission_run ` set (members (dbs w t)) \<and>
         (\<forall>k' \<ge> fresh w. k' \<noteq> k \<longrightarrow> run_of w k' \<noteq> run_of w k)))"

definition calm :: "bank \<Rightarrow> string \<Rightarrow> 'x rworld_scheme \<Rightarrow> bool" where
  "calm b t w \<longleftrightarrow> faults w = [] \<and> launcher_fails w = [] \<and> valid_tenant w t \<and>
     b_id b \<noteq> [] \<and> bank_row (b_id b) (dbs w t) \<noteq> None \<and> fresh_ids t w"

section \<open>The database\<close>

lemma calm_world: "faults w = [] \<Longrightarrow> w\<lparr>faults := []\<rparr> = w"
  by (metis world.surjective world.update_convs(2))

lemma calm_rworld: "launcher_fails w = [] \<Longrightarrow> w\<lparr>launcher_fails := []\<rparr> = w"
  by (cases w) simp

lemma with_conn_calm: "faults w = [] \<Longrightarrow> valid_tenant w t \<Longrightarrow> with_conn t m w = m w"
  by (simp add: with_conn_def take_fault_def calm_world)

lemma query_calm: "faults w = [] \<Longrightarrow> query t q w = (Inr (q (dbs w t)), w)"
  by (simp add: query_def take_fault_def calm_world)

lemma exec_calm:
  "faults w = [] \<Longrightarrow> exec t st w =
     (case st (dbs w t) of Inl e \<Rightarrow> (Inl e, w) | Inr (x, d) \<Rightarrow> (Inr x, w\<lparr>dbs := (dbs w)(t := d)\<rparr>))"
  by (auto simp: exec_def take_fault_def calm_world split: sum.splits)

lemmas calm_simps = with_conn_calm query_calm exec_calm bnd_def ret_def fail_def read_clock_def
  from_option_def NewID_def

text \<open>What a change of the members table has to keep.\<close>

lemma fresh_ids_members:
  fixes w :: "'x rworld_scheme" and w' :: "'y rworld_scheme"
  assumes "fresh_ids t w" "uuid w' = uuid w" "fresh w' = fresh w" "launched w' = launched w"
    and "\<And>i. rows t w i = None \<Longrightarrow> rows t w' i = None"
    and "m_mission_run ` set (members (dbs w' t)) \<subseteq> m_mission_run ` set (members (dbs w t))"
  shows "fresh_ids t w'"
  using assms(1,5,6) unfolding fresh_ids_def run_of_def assms(2-4) by blast

lemma calm_members:
  fixes w w' :: "'x rworld_scheme"
  assumes "calm b t w" "faults w' = faults w" "launcher_fails w' = launcher_fails w"
    and "valid_tenant w' = valid_tenant w" "banks (dbs w' t) = banks (dbs w t)"
    and "uuid w' = uuid w" "fresh w' = fresh w" "launched w' = launched w"
    and "\<And>i. rows t w i = None \<Longrightarrow> rows t w' i = None"
    and "m_mission_run ` set (members (dbs w' t)) \<subseteq> m_mission_run ` set (members (dbs w t))"
  shows "calm b t w'"
  using assms(1) fresh_ids_members [OF _ assms(6-10)] assms(2-5) by (simp add: calm_def bank_row_def)

lemma member_row_other: "(\<And>m. m_id (f m) = m_id m) \<Longrightarrow> j \<noteq> i \<Longrightarrow> member_row j (set_member i f d) = member_row j d"
proof -
  assume "\<And>m. m_id (f m) = m_id m" "j \<noteq> i"
  then have "find (\<lambda>m. m_id m = j) (map (\<lambda>m. if m_id m = i then f m else m) ms) = find (\<lambda>m. m_id m = j) ms" for ms
    by (induction ms) auto
  then show ?thesis by (simp add: member_row_def set_member_def)
qed

lemma member_row_without: "member_row j (without_member i d) = (if j = i then None else member_row j d)"
proof -
  have "find (\<lambda>m. m_id m = j) (filter (\<lambda>m. m_id m \<noteq> i) ms) = (if j = i then None else find (\<lambda>m. m_id m = j) ms)" for ms
    by (induction ms) auto
  from this [of "members d"] show ?thesis by (cases "j = i") (simp_all add: member_row_def without_member_def)
qed

lemma rows_id: "rows t w i = Some m \<Longrightarrow> m_id m = i"
  by (auto simp: rows_def dest: member_row_Some)

lemma runs_set_member:
  "(\<And>m. m_mission_run (f m) = m_mission_run m) \<Longrightarrow>
     m_mission_run ` set (members (set_member i f d)) \<subseteq> m_mission_run ` set (members d)"
  by (auto simp: set_member_def)

lemma calm_SetMemberState:
  fixes w :: "'x rworld_scheme"
  assumes "calm b t w" "IsMemberState s" "rows t w i = Some m"
  obtains now w' where "SetMemberState t i s w = (Inr (m\<lparr>m_state := s, m_updated_at := now\<rparr>), w')"
    "calm b t w'" "rows t w' = (rows t w)(i \<mapsto> m\<lparr>m_state := s, m_updated_at := now\<rparr>)"
proof -
  define now where "now = clock w (ticks w)"
  define f where "f = (\<lambda>m :: member. m\<lparr>m_state := s, m_updated_at := now\<rparr>)"
  define w' where "w' = w\<lparr>ticks := Suc (ticks w), dbs := (dbs w)(t := set_member i f (dbs w t))\<rparr>"
  have fid: "m_id (f m) = m_id m" "m_mission_run (f m) = m_mission_run m" for m by (simp_all add: f_def)
  have w: "faults w = []" "valid_tenant w t" using assms(1) by (simp_all add: calm_def)
  have row: "member_row i (dbs w t) = Some m" using assms(3) by (simp add: rows_def)
  have run: "SetMemberState t i s w = (Inr (f m), w')"
    using w row assms(2)
    by (simp add: SetMemberState_def calm_simps update_member_def set_member_def w'_def f_def now_def)
  have rows: "rows t w' = (rows t w)(i \<mapsto> f m)"
    using row by (auto simp: rows_def w'_def member_row_set_member fid member_row_other)
  have "rows t w' j = None" if "rows t w j = None" for j using that assms(3) by (auto simp: rows)
  have env: "faults w' = faults w" "launcher_fails w' = launcher_fails w" "valid_tenant w' = valid_tenant w"
    "banks (dbs w' t) = banks (dbs w t)" "uuid w' = uuid w" "fresh w' = fresh w" "launched w' = launched w"
    by (simp_all add: w'_def set_member_def)
  have runs: "m_mission_run ` set (members (dbs w' t)) \<subseteq> m_mission_run ` set (members (dbs w t))"
    unfolding w'_def using runs_set_member [of f i "dbs w t"] fid(2) by simp
  then have "calm b t w'" using calm_members [OF assms(1) env] \<open>\<And>j. rows t w j = None \<Longrightarrow> rows t w' j = None\<close> by blast
  then show ?thesis by (rule that [OF run [unfolded f_def] _ rows [unfolded f_def]])
qed

lemma calm_SetMemberState_gone:
  fixes w :: "'x rworld_scheme"
  assumes "calm b t w" "IsMemberState s" "rows t w i = None"
  obtains w' where "SetMemberState t i s w = (Inl (ErrNotFound Pkg_bank i), w')" "calm b t w'" "rows t w' = rows t w"
proof -
  define now where "now = clock w (ticks w)"
  define f where "f = (\<lambda>m :: member. m\<lparr>m_state := s, m_updated_at := now\<rparr>)"
  define w' where "w' = w\<lparr>ticks := Suc (ticks w), dbs := (dbs w)(t := set_member i f (dbs w t))\<rparr>"
  have fid: "m_id (f m) = m_id m" "m_mission_run (f m) = m_mission_run m" for m by (simp_all add: f_def)
  have w: "faults w = []" "valid_tenant w t" using assms(1) by (simp_all add: calm_def)
  have row: "member_row i (dbs w t) = None" using assms(3) by (simp add: rows_def)
  have run: "SetMemberState t i s w = (Inl (ErrNotFound Pkg_bank i), w')"
    using w row assms(2)
    by (simp add: SetMemberState_def calm_simps update_member_def set_member_def w'_def f_def now_def)
  have "member_row j (set_member i f (dbs w t)) = member_row j (dbs w t)" for j
    using row by (cases "j = i") (simp_all add: member_row_set_member fid member_row_other)
  then have rows: "rows t w' = rows t w" by (simp add: rows_def w'_def)
  have env: "faults w' = faults w" "launcher_fails w' = launcher_fails w" "valid_tenant w' = valid_tenant w"
    "banks (dbs w' t) = banks (dbs w t)" "uuid w' = uuid w" "fresh w' = fresh w" "launched w' = launched w"
    by (simp_all add: w'_def set_member_def)
  have runs: "m_mission_run ` set (members (dbs w' t)) \<subseteq> m_mission_run ` set (members (dbs w t))"
    unfolding w'_def using runs_set_member [of f i "dbs w t"] fid(2) by simp
  then have "calm b t w'" using calm_members [OF assms(1) env] rows by simp
  then show ?thesis by (rule that [OF run _ rows])
qed

lemma calm_RemoveMember:
  fixes w :: "'x rworld_scheme"
  assumes "calm b t w" "rows t w i \<noteq> None"
  obtains w' where "RemoveMember t i w = (Inr (), w')" "calm b t w'" "rows t w' = (rows t w)(i := None)"
proof -
  define w' where "w' = w\<lparr>dbs := (dbs w)(t := without_member i (dbs w t))\<rparr>"
  have w: "faults w = []" "valid_tenant w t" using assms(1) by (simp_all add: calm_def)
  have "filter (\<lambda>m. m_id m = i) (members (dbs w t)) \<noteq> []"
    using assms(2) by (auto simp: rows_def member_row_None filter_empty_conv)
  then have run: "RemoveMember t i w = (Inr (), w')"
    using w by (simp add: RemoveMember_def calm_simps delete_member_def without_member_def w'_def)
  have rows: "rows t w' = (rows t w)(i := None)"
    by (auto simp: rows_def w'_def member_row_without)
  have "rows t w' j = None" if "rows t w j = None" for j using that by (auto simp: rows)
  have env: "faults w' = faults w" "launcher_fails w' = launcher_fails w" "valid_tenant w' = valid_tenant w"
    "banks (dbs w' t) = banks (dbs w t)" "uuid w' = uuid w" "fresh w' = fresh w" "launched w' = launched w"
    by (simp_all add: w'_def without_member_def)
  have runs: "m_mission_run ` set (members (dbs w' t)) \<subseteq> m_mission_run ` set (members (dbs w t))"
    by (auto simp: w'_def without_member_def)
  then have "calm b t w'" using calm_members [OF assms(1) env] \<open>\<And>j. rows t w j = None \<Longrightarrow> rows t w' j = None\<close> by blast
  then show ?thesis by (rule that [OF run _ rows])
qed

lemma calm_ReleaseMember:
  fixes w :: "'x rworld_scheme"
  assumes "calm b t w" "i \<noteq> []"
  obtains n w' where "ReleaseMember t i w = (Inr n, w')" "calm b t w'" "rows t w' = rows t w"
proof -
  define p where "p = (\<lambda>j :: job. j_member j = i \<and> j_state j \<noteq> StateClosed)"
  define w' where "w' = w\<lparr>dbs := (dbs w)(t := set_jobs p (\<lambda>j. j\<lparr>j_member := []\<rparr>) (dbs w t))\<rparr>"
  have w: "faults w = []" "valid_tenant w t" using assms(1) by (simp_all add: calm_def)
  have run: "ReleaseMember t i w = (Inr (length (filter p (jobs (dbs w t)))), w')"
    using w assms(2) by (simp add: ReleaseMember_def calm_simps update_jobs_def set_jobs_def w'_def p_def)
  have rows: "rows t w' = rows t w" by (simp add: rows_def w'_def member_row_def set_jobs_def)
  then have "calm b t w'" by (intro calm_members [OF assms(1)]) (simp_all add: w'_def set_jobs_def)
  then show ?thesis by (rule that [OF run _ rows])
qed

lemma calm_launcher:
  fixes w :: "'x rworld_scheme"
  assumes "calm b t w"
  obtains w' where "launcher c w = (Inr (), w')" "calm b t w'" "rows t w' = rows t w" "fresh w' = fresh w"
    "launched w' = launched w" "uuid w' = uuid w" "dbs w' = dbs w" "ticks w' = ticks w"
proof -
  define w' where "w' = w\<lparr>launcher_calls := launcher_calls w @ [c], launcher_fails := tl (launcher_fails w)\<rparr>"
  have run: "launcher c w = (Inr (), w')" using assms by (simp add: launcher_def w'_def calm_def)
  have rows: "rows t w' = rows t w" by (simp add: rows_def w'_def)
  have "calm b t w'" using assms by (intro calm_members [OF assms]) (simp_all add: w'_def rows_def calm_def)
  then show ?thesis by (rule that [OF run _ rows]) (simp_all add: w'_def)
qed

lemma calm_emit:
  fixes w :: "'x rworld_scheme"
  assumes "calm b t w"
  obtains w' where "emit on e w = (Inr (), w')" "calm b t w'" "rows t w' = rows t w"
proof -
  define w' where "w' = (if on then w\<lparr>emitted := emitted w @ [e]\<rparr> else w)"
  have "calm b t w'" by (intro calm_members [OF assms]) (simp_all add: w'_def rows_def)
  then show ?thesis by (rule that [of w', rotated]) (simp_all add: emit_def w'_def rows_def)
qed

lemma calm_tick:
  fixes w :: "'x rworld_scheme"
  assumes "calm b t w" shows "calm b t (w\<lparr>ticks := n\<rparr>)" "rows t (w\<lparr>ticks := n\<rparr>) = rows t w"
  by (intro calm_members [OF assms]; simp add: rows_def) (simp add: rows_def)

section \<open>Members\<close>

lemma calm_removeMember:
  fixes w :: "'x rworld_scheme"
  assumes "calm b t w" "rows t w (m_id m) \<noteq> None"
  obtains w' where "removeMember r t m w = (Inr (), w')" "calm b t w'" "rows t w' = (rows t w)(m_id m := None)"
proof -
  obtain w1 where w1: "(if m_state m = MemberDraining then launcher (StopMember (m_id m)) else ret ()) w = (Inr (), w1)"
    "calm b t w1" "rows t w1 = rows t w"
  proof (cases "m_state m = MemberDraining")
    case True
    obtain w1 where "launcher (StopMember (m_id m)) w = (Inr (), w1)" "calm b t w1" "rows t w1 = rows t w"
      using assms(1) by (rule calm_launcher)
    then show ?thesis by (intro that [of w1]) (simp_all add: True)
  qed (rule that [of w], simp_all add: assms(1))
  obtain w2 where w2: "RemoveMember t (m_id m) w1 = (Inr (), w2)" "calm b t w2" "rows t w2 = (rows t w1)(m_id m := None)"
    by (rule calm_RemoveMember [OF w1(2), of "m_id m"]) (use assms(2) w1(3) in auto)
  obtain w3 where w3: "emit (cfg_events r) (EvMemberRemoved (m_id m)) w2 = (Inr (), w3)" "calm b t w3" "rows t w3 = rows t w2"
    using w2(2) by (rule calm_emit)
  have "removeMember r t m w = (Inr (), w3)"
    by (simp only: removeMember_def bnd_def w1(1) w2(1) w3(1) prod.case sum.case)
  then show ?thesis by (rule that [OF _ w3(2)]) (simp add: w1 w2 w3)
qed

lemma calm_recycle:
  fixes w :: "'x rworld_scheme"
  assumes "calm b t w" "rows t w (m_id m) \<noteq> None"
  obtains w' where "recycle r t m w = (Inr (), w')" "calm b t w'" "rows t w' = (rows t w)(m_id m := None)"
proof -
  obtain w1 where w1: "launcher (StopMember (m_id m)) w = (Inr (), w1)" "calm b t w1" "rows t w1 = rows t w"
    using assms(1) by (rule calm_launcher)
  obtain w2 where w2: "removeMember r t m w1 = (Inr (), w2)" "calm b t w2" "rows t w2 = (rows t w1)(m_id m := None)"
    by (rule calm_removeMember [OF w1(2), of m r]) (use assms(2) w1(3) in auto)
  have "recycle r t m w = (Inr (), w2)"
    by (simp only: recycle_def bnd_def w1(1) w2(1) prod.case sum.case)
  then show ?thesis by (rule that [OF _ w2(2)]) (simp add: w1 w2)
qed

lemma calm_markDead:
  fixes w :: "'x rworld_scheme"
  assumes "calm b t w" "rows t w (m_id m) = Some m"
  obtains w' where "markDead r t m w = (Inr (), w')" "calm b t w'" "rows t w' = (rows t w)(m_id m := None)"
proof -
  have ne: "m_id m \<noteq> []" using assms by (auto simp: calm_def fresh_ids_def)
  obtain w1 x where w1: "(if m_state m \<noteq> MemberDead
          then bnd (SetMemberState t (m_id m) MemberDead) (\<lambda>updated.
               emit (cfg_events r) (EvMemberDead (m_id updated)))
          else ret ()) w = (Inr (), w1)" "calm b t w1" "rows t w1 = (rows t w)(m_id m \<mapsto> x)"
  proof (cases "m_state m = MemberDead")
    case True
    then show ?thesis by (intro that [of w m]) (simp_all add: assms fun_upd_idem)
  next
    case False
    obtain now w1 where s: "SetMemberState t (m_id m) MemberDead w = (Inr (m\<lparr>m_state := MemberDead, m_updated_at := now\<rparr>), w1)"
      "calm b t w1" "rows t w1 = (rows t w)(m_id m \<mapsto> m\<lparr>m_state := MemberDead, m_updated_at := now\<rparr>)"
      by (rule calm_SetMemberState [OF assms(1) _ assms(2), of MemberDead]) (simp add: IsMemberState_def)
    obtain w2 where "emit (cfg_events r) (EvMemberDead (m_id m)) w1 = (Inr (), w2)" "calm b t w2" "rows t w2 = rows t w1"
      using s(2) by (rule calm_emit)
    then show ?thesis by (intro that [of w2]) (use s False in \<open>simp_all add: bnd_def\<close>)
  qed
  obtain w2 where w2: "launcher (StopMember (m_id m)) w1 = (Inr (), w2)" "calm b t w2" "rows t w2 = rows t w1"
    using w1(2) by (rule calm_launcher)
  have h: "handle (launcher (StopMember (m_id m))) (\<lambda>_. ret ()) w1 = (Inr (), w2)"
    using w2(1) by (simp add: handle_def)
  obtain n w3 where w3: "ReleaseMember t (m_id m) w2 = (Inr n, w3)" "calm b t w3" "rows t w3 = rows t w2"
    using w2(2) ne by (rule calm_ReleaseMember)
  obtain w4 where w4: "removeMember r t m w3 = (Inr (), w4)" "calm b t w4" "rows t w4 = (rows t w3)(m_id m := None)"
    by (rule calm_removeMember [OF w3(2), of m r]) (use w1(3) w2(3) w3(3) in auto)
  have "markDead r t m w = (Inr (), w4)"
    by (simp only: markDead_def bnd_def w1(1) h w3(1) w4(1) prod.case sum.case)
  then show ?thesis by (rule that [OF _ w4(2)]) (simp add: w1 w2 w3 w4)
qed

lemma calm_drain_one:
  fixes w :: "'x rworld_scheme"
  assumes "calm b t w" "rows t w (m_id m) = Some m"
  obtains w' m' where "drain_one r t m w = (Inr (), w')" "calm b t w'" "rows t w' = (rows t w)(m_id m := m')"
    "case m' of None \<Rightarrow> m_jobs_in_flight m = 0 | Some x \<Rightarrow> m_state x = MemberDraining \<and> m_jobs_in_flight m \<noteq> 0"
proof -
  obtain now w1 where s: "SetMemberState t (m_id m) MemberDraining w =
      (Inr (m\<lparr>m_state := MemberDraining, m_updated_at := now\<rparr>), w1)" "calm b t w1"
    "rows t w1 = (rows t w)(m_id m \<mapsto> m\<lparr>m_state := MemberDraining, m_updated_at := now\<rparr>)"
    by (rule calm_SetMemberState [OF assms(1) _ assms(2), of MemberDraining]) (simp add: IsMemberState_def)
  define u where "u = m\<lparr>m_state := MemberDraining, m_updated_at := now\<rparr>"
  have u: "u\<lparr>m_state := MemberDraining\<rparr> = u" "m_id u = m_id m" "m_state u = MemberDraining" by (simp_all add: u_def)
  note w1 = s [folded u_def]
  obtain w2 where w2: "emit (cfg_events r) (EvMemberDraining (m_id m)) w1 = (Inr (), w2)" "calm b t w2" "rows t w2 = rows t w1"
    using w1(2) by (rule calm_emit)
  show ?thesis
  proof (cases "m_jobs_in_flight m = 0")
    case True
    obtain w3 where w3: "removeMember r t u w2 = (Inr (), w3)" "calm b t w3" "rows t w3 = (rows t w2)(m_id u := None)"
      by (rule calm_removeMember [OF w2(2), of u r]) (use w1(3) w2(3) u(2) in auto)
    then have "drain_one r t m w = (Inr (), w3)" using w1(1) w2(1) True by (simp add: drain_one_def u)
    then show ?thesis by (rule that [OF _ w3(2), of None]) (simp_all add: w1 w2 w3 u True)
  next
    case False
    have "drain_one r t m w = (Inr (), w2)" using w1(1) w2(1) False by (simp add: drain_one_def u)
    then show ?thesis by (rule that [OF _ w2(2), of "Some u"]) (simp_all add: w1 w2 u False)
  qed
qed

end
