(* ===== verification/ReconcilerConverges.thy ===== *)
theory ReconcilerConverges
  imports ReconcilerCalm
begin

text \<open>
  How a pass in calm weather changes the number of members of a bank: what draining, recycling,
  marking dead and launching do to it, put together to one pass that ends at the desired count.
\<close>

text \<open>The members that count toward the size of a bank: all but the draining ones.\<close>

definition counted :: "bank \<Rightarrow> (string \<Rightarrow> member option) \<Rightarrow> string set" where
  "counted b R = {i. \<exists>m. R i = Some m \<and> m_bank m = b_id b \<and> m_state m \<noteq> MemberDraining}"

abbreviation ids :: "member list \<Rightarrow> string set" where
  "ids ms \<equiv> m_id ` set ms"

lemma counted_remove: "counted b (R(i := None)) = counted b R - {i}"
  by (auto simp: counted_def)

lemma counted_drain: "m_state m = MemberDraining \<Longrightarrow> counted b (R(i \<mapsto> m)) = counted b R - {i}"
  by (auto simp: counted_def)

lemma attempt_Inr: "m w = (Inr x, w') \<Longrightarrow> attempt m w = ([], w')"
  by (simp add: attempt_def)

lemma attempt_Inl: "m w = (Inl e, w') \<Longrightarrow> attempt m w = ([e], w')"
  by (simp add: attempt_def)

text \<open>One member of the review: it stays where it is, or its row goes.\<close>

datatype outcome = Live | Asleep | Busy_draining | Gone

definition outcome_ok :: "outcome \<Rightarrow> member \<Rightarrow> member list \<Rightarrow> member list \<Rightarrow> bool" where
  "outcome_ok c m live susp \<longleftrightarrow>
     (case c of
        Live \<Rightarrow> live = [m] \<and> susp = [] \<and> m_state m \<noteq> MemberDraining
      | Asleep \<Rightarrow> live = [] \<and> susp = [m] \<and> m_state m = MemberSuspended
      | Busy_draining \<Rightarrow> live = [] \<and> susp = [] \<and> m_state m = MemberDraining
      | Gone \<Rightarrow> live = [] \<and> susp = [])"

lemma calm_isDead:
  fixes w :: "'x rworld_scheme"
  assumes "calm b t w"
  obtains dead w' where "isDead r m w = (Inr dead, w')" "calm b t w'" "rows t w' = rows t w"
proof (cases "m_state m = MemberDead")
  case True
  then show ?thesis by (intro that [of True w]) (simp_all add: isDead_def assms)
next
  case False
  show ?thesis
  proof (cases "m_last_heartbeat m")
    case None
    then show ?thesis
      by (intro that [of _ "w\<lparr>ticks := Suc (ticks w)\<rparr>"])
         (use False in \<open>simp add: isDead_def bnd_def read_clock_def ret_def\<close>, rule calm_tick [OF assms], rule calm_tick [OF assms])
  next
    case (Some beat)
    then show ?thesis
      by (intro that [of _ "w\<lparr>ticks := Suc (ticks w)\<rparr>"])
         (use False in \<open>simp add: isDead_def bnd_def read_clock_def ret_def\<close>, rule calm_tick [OF assms], rule calm_tick [OF assms])
  qed
qed

lemma calm_review:
  fixes w :: "'x rworld_scheme"
  assumes "calm b t w" "rows t w (m_id m) = Some m"
  obtains c live susp w' where "review r t m w = (([], live, susp), w')" "calm b t w'" "outcome_ok c m live susp"
    "rows t w' = (if c = Gone then (rows t w)(m_id m := None) else rows t w)"
proof (cases "m_state m = MemberSuspended")
  case True
  let ?w = "w\<lparr>ticks := Suc (ticks w)\<rparr>"
  note tick = calm_tick [OF assms(1), of "Suc (ticks w)"]
  show ?thesis
  proof (cases "time_sub (clock w (ticks w)) (m_updated_at m) > cfg_recycle r")
    case old: True
    obtain w1 where w1: "recycle r t m ?w = (Inr (), w1)" "calm b t w1" "rows t w1 = (rows t ?w)(m_id m := None)"
      by (rule calm_recycle [OF tick(1), of m r]) (use assms(2) tick(2) in auto)
    have "review r t m w = (([], [], []), w1)"
      using True old by (simp add: review_def Let_def attempt_Inr [of "recycle r t m", OF w1(1)])
    then show ?thesis by (rule that [OF _ w1(2), of _ _ Gone]) (simp_all add: outcome_ok_def w1 tick)
  next
    case False
    have "review r t m w = (([], [], [m]), ?w)" using True False by (simp add: review_def Let_def)
    then show ?thesis by (rule that [OF _ tick(1), of _ _ Asleep]) (simp_all add: outcome_ok_def True tick)
  qed
next
  case False
  obtain dead w1 where w1: "isDead r m w = (Inr dead, w1)" "calm b t w1" "rows t w1 = rows t w"
    using assms(1) by (rule calm_isDead)
  have row: "rows t w1 (m_id m) = Some m" using assms(2) w1(3) by simp
  consider "dead" | "\<not> dead" "m_state m = MemberDraining" "m_jobs_in_flight m = 0"
    | "\<not> dead" "m_state m = MemberDraining" "m_jobs_in_flight m \<noteq> 0" | "\<not> dead" "m_state m \<noteq> MemberDraining" by blast
  then show ?thesis
  proof cases
    case 1
    obtain w2 where w2: "markDead r t m w1 = (Inr (), w2)" "calm b t w2" "rows t w2 = (rows t w1)(m_id m := None)"
      using w1(2) row by (rule calm_markDead)
    have "review r t m w = (([], [], []), w2)"
      using False 1 by (simp add: review_def w1(1) attempt_Inr [of "markDead r t m", OF w2(1)])
    then show ?thesis by (rule that [OF _ w2(2), of _ _ Gone]) (simp_all add: outcome_ok_def w1 w2)
  next
    case 2
    obtain w2 where w2: "removeMember r t m w1 = (Inr (), w2)" "calm b t w2" "rows t w2 = (rows t w1)(m_id m := None)"
      by (rule calm_removeMember [OF w1(2), of m r]) (use row in auto)
    have "review r t m w = (([], [], []), w2)"
      using False 2 by (simp add: review_def w1(1) attempt_Inr [of "removeMember r t m", OF w2(1)])
    then show ?thesis by (rule that [OF _ w2(2), of _ _ Gone]) (simp_all add: outcome_ok_def w1 w2)
  next
    case 3
    have "review r t m w = (([], [], []), w1)" using False 3 by (simp add: review_def w1(1))
    then show ?thesis by (rule that [OF _ w1(2), of _ _ Busy_draining]) (simp_all add: outcome_ok_def w1 3)
  next
    case 4
    have "review r t m w = (([], [m], []), w1)" using False 4 by (simp add: review_def w1(1))
    then show ?thesis by (rule that [OF _ w1(2), of _ _ Live]) (simp_all add: outcome_ok_def w1 4)
  qed
qed

text \<open>After the review the members that count are the live and the suspended ones.\<close>

lemma calm_review_all:
  fixes w :: "'x rworld_scheme"
  assumes "calm b t w" "\<And>m. m \<in> set ms \<Longrightarrow> rows t w (m_id m) = Some m \<and> m_bank m = b_id b" "distinct (map m_id ms)"
  obtains live susp w' where "review_all r t ms w = (([], live, susp), w')" "calm b t w'"
    "\<forall>i. i \<notin> ids ms \<longrightarrow> rows t w' i = rows t w i"
    "\<forall>m \<in> set live \<union> set susp. rows t w' (m_id m) = Some m"
    "counted b (rows t w') = counted b (rows t w) - ids ms \<union> ids live \<union> ids susp"
    "distinct (map m_id (live @ susp))" "set live \<union> set susp \<subseteq> set ms"
    "\<forall>m \<in> set live. m_state m \<noteq> MemberDraining"
proof -
  have "\<exists>live susp w'. review_all r t ms w = (([], live, susp), w') \<and> calm b t w' \<and>
    (\<forall>i. i \<notin> ids ms \<longrightarrow> rows t w' i = rows t w i) \<and>
    (\<forall>m \<in> set live \<union> set susp. rows t w' (m_id m) = Some m) \<and>
    counted b (rows t w') = counted b (rows t w) - ids ms \<union> ids live \<union> ids susp \<and>
    distinct (map m_id (live @ susp)) \<and> set live \<union> set susp \<subseteq> set ms \<and>
    (\<forall>m \<in> set live. m_state m \<noteq> MemberDraining)"
    using assms
  proof (induction ms arbitrary: w)
    case Nil
    then show ?case by (intro exI [of _ "[]"] exI [of _ w]) simp
  next
    case (Cons m ms)
    have row: "rows t w (m_id m) = Some m" "m_bank m = b_id b" using Cons.prems(2) by auto
    obtain c l s w1 where one: "review r t m w = (([], l, s), w1)" "calm b t w1" "outcome_ok c m l s"
      "rows t w1 = (if c = Gone then (rows t w)(m_id m := None) else rows t w)"
      using Cons.prems(1) row(1) by (rule calm_review)
    have new: "m_id m \<notin> ids ms" using Cons.prems(3) by simp
    have "rows t w1 (m_id x) = Some x \<and> m_bank x = b_id b" if x: "x \<in> set ms" for x
    proof -
      have "m_id x \<noteq> m_id m" using new x by (metis imageI)
      then show ?thesis using Cons.prems(2) [of x] x one(4) by simp
    qed
    from Cons.IH [OF one(2) this] Cons.prems(3) obtain live susp w' where
      rest: "review_all r t ms w1 = (([], live, susp), w')" "calm b t w'"
      "\<forall>i. i \<notin> ids ms \<longrightarrow> rows t w' i = rows t w1 i"
      "\<forall>m \<in> set live \<union> set susp. rows t w' (m_id m) = Some m"
      "counted b (rows t w') = counted b (rows t w1) - ids ms \<union> ids live \<union> ids susp"
      "distinct (map m_id (live @ susp))" "set live \<union> set susp \<subseteq> set ms"
      "\<forall>m \<in> set live. m_state m \<noteq> MemberDraining" by auto
    have run: "review_all r t (m # ms) w = (([], l @ live, s @ susp), w')" using one(1) rest(1) by simp
    have m': "rows t w' (m_id m) = rows t w1 (m_id m)" using rest(3) new by blast
    have out: "m_id m \<notin> ids live \<union> ids susp" using rest(7) new by auto
    show ?case
    proof (intro exI conjI)
      show "review_all r t (m # ms) w = (([], l @ live, s @ susp), w')" "calm b t w'" by (fact run, fact rest(2))
      show "\<forall>i. i \<notin> ids (m # ms) \<longrightarrow> rows t w' i = rows t w i" using rest(3) one(4) by simp
      show "\<forall>x \<in> set (l @ live) \<union> set (s @ susp). rows t w' (m_id x) = Some x"
        using rest(4) one(3,4) m' row by (cases c) (auto simp: outcome_ok_def)
      show "distinct (map m_id ((l @ live) @ s @ susp))"
        using rest(6) out one(3) by (cases c) (auto simp: outcome_ok_def)
      show "set (l @ live) \<union> set (s @ susp) \<subseteq> set (m # ms)"
        using rest(7) one(3) by (cases c) (auto simp: outcome_ok_def)
      show "\<forall>x \<in> set (l @ live). m_state x \<noteq> MemberDraining"
        using rest(8) one(3) by (cases c) (auto simp: outcome_ok_def)
      have "counted b (rows t w1) = (if c = Gone then counted b (rows t w) - {m_id m} else counted b (rows t w))"
        using one(4) by (simp add: counted_remove)
      moreover have "m_id m \<in> counted b (rows t w) \<longleftrightarrow> m_state m \<noteq> MemberDraining"
        using row by (simp add: counted_def)
      ultimately show "counted b (rows t w') =
          counted b (rows t w) - ids (m # ms) \<union> ids (l @ live) \<union> ids (s @ susp)"
        unfolding rest(5) using one(3) new by (cases c) (auto simp: outcome_ok_def)
    qed
  qed
  then show ?thesis by (elim exE conjE) (rule that, assumption+)
qed

text \<open>A loop over members with rows of their own, each of which only its own step touches.\<close>

lemma calm_for_each:
  fixes w :: "'x rworld_scheme"
  assumes step: "\<And>m w :: 'x rworld_scheme. calm b t w \<Longrightarrow> P m (rows t w (m_id m)) \<Longrightarrow>
      \<exists>es w' m'. f m w = (es, w') \<and> calm b t w' \<and> rows t w' = (rows t w)(m_id m := m') \<and> Q m (rows t w (m_id m)) m' \<and> (E \<longrightarrow> es = [])"
    and "calm b t w" "\<And>m. m \<in> set xs \<Longrightarrow> P m (rows t w (m_id m))" "distinct (map m_id xs)"
  shows "\<exists>es w'. for_each f xs w = (es, w') \<and> calm b t w' \<and> (E \<longrightarrow> es = []) \<and>
    (\<forall>i. i \<notin> ids xs \<longrightarrow> rows t w' i = rows t w i) \<and>
    (\<forall>m \<in> set xs. Q m (rows t w (m_id m)) (rows t w' (m_id m)))"
  using assms(2-)
proof (induction xs arbitrary: w)
  case Nil
  then show ?case by (simp add: nothing_def)
next
  case (Cons m xs)
  obtain es1 w1 m' where one: "f m w = (es1, w1)" "calm b t w1" "rows t w1 = (rows t w)(m_id m := m')"
    "Q m (rows t w (m_id m)) m'" "E \<longrightarrow> es1 = []"
    using step [OF Cons.prems(1) Cons.prems(2) [of m]] by auto
  have new: "m_id m \<notin> ids xs" using Cons.prems(3) by simp
  have other: "rows t w1 (m_id x) = rows t w (m_id x)" if "x \<in> set xs" for x
  proof -
    have "m_id x \<noteq> m_id m" using new that by (metis imageI)
    then show ?thesis using one(3) by simp
  qed
  then have "P x (rows t w1 (m_id x))" if "x \<in> set xs" for x using Cons.prems(2) [of x] that by simp
  from Cons.IH [OF one(2) this] Cons.prems(3) obtain es2 w2 where rest: "for_each f xs w1 = (es2, w2)"
    "calm b t w2" "E \<longrightarrow> es2 = []" "\<forall>i. i \<notin> ids xs \<longrightarrow> rows t w2 i = rows t w1 i"
    "\<forall>m \<in> set xs. Q m (rows t w1 (m_id m)) (rows t w2 (m_id m))" by auto
  have "for_each f (m # xs) w = (es1 @ es2, w2)" using one(1) rest(1) by (simp add: and_then_def)
  moreover have "rows t w2 (m_id m) = m'" using rest(4) new one(3) by simp
  ultimately show ?case using rest one other by auto
qed

lemma calm_recycle_all:
  fixes w :: "'x rworld_scheme"
  assumes "calm b t w" "\<And>m. m \<in> set xs \<Longrightarrow> rows t w (m_id m) = Some m" "distinct (map m_id xs)"
  obtains w' where "for_each (\<lambda>m. attempt (recycle r t m)) xs w = ([], w')" "calm b t w'"
    "\<forall>i. rows t w' i = (if i \<in> ids xs then None else rows t w i)"
proof -
  have "\<exists>es w' m'. attempt (recycle r t m) w = (es, w') \<and> calm b t w' \<and>
      rows t w' = (rows t w)(m_id m := m') \<and> m' = None \<and> (True \<longrightarrow> es = [])"
    if c: "calm b t w" "rows t w (m_id m) \<noteq> None" for m and w :: "'x rworld_scheme"
  proof -
    obtain w1 where w1: "recycle r t m w = (Inr (), w1)" "calm b t w1" "rows t w1 = (rows t w)(m_id m := None)"
      using c by (rule calm_recycle)
    then show ?thesis using attempt_Inr [of "recycle r t m", OF w1(1)] by blast
  qed
  from calm_for_each [where P = "\<lambda>_ x. x \<noteq> None" and Q = "\<lambda>_ _ x. x = None" and E = True, OF this assms(1) _ assms(3)]
  obtain es w' where "for_each (\<lambda>m. attempt (recycle r t m)) xs w = (es, w')" "calm b t w'" "es = []"
    "\<forall>i. i \<notin> ids xs \<longrightarrow> rows t w' i = rows t w i" "\<forall>m \<in> set xs. rows t w' (m_id m) = None"
    using assms(2) by auto
  then show ?thesis by (intro that [of w']) auto
qed

lemma calm_drain:
  fixes w :: "'x rworld_scheme"
  assumes "calm b t w" "\<And>m. m \<in> set xs \<Longrightarrow> rows t w (m_id m) = Some m" "distinct (map m_id xs)"
  obtains w' where "for_each (\<lambda>m. attempt (drain_one r t m)) xs w = ([], w')" "calm b t w'"
    "\<forall>i. i \<notin> ids xs \<longrightarrow> rows t w' i = rows t w i"
    "\<forall>m \<in> set xs. (case rows t w' (m_id m) of None \<Rightarrow> m_jobs_in_flight m = 0
       | Some x \<Rightarrow> m_state x = MemberDraining \<and> m_jobs_in_flight m \<noteq> 0)"
proof -
  let ?Q = "\<lambda>m y. case y of None \<Rightarrow> m_jobs_in_flight m = 0 | Some x \<Rightarrow> m_state x = MemberDraining \<and> m_jobs_in_flight m \<noteq> 0"
  have "\<exists>es w' m'. attempt (drain_one r t m) w = (es, w') \<and> calm b t w' \<and>
      rows t w' = (rows t w)(m_id m := m') \<and> ?Q m m' \<and> (True \<longrightarrow> es = [])"
    if c: "calm b t w" "rows t w (m_id m) = Some m" for m and w :: "'x rworld_scheme"
  proof -
    obtain w1 m' where w1: "drain_one r t m w = (Inr (), w1)" "calm b t w1" "rows t w1 = (rows t w)(m_id m := m')" "?Q m m'"
      using c by (rule calm_drain_one)
    then show ?thesis using attempt_Inr [of "drain_one r t m", OF w1(1)] by blast
  qed
  from calm_for_each [where P = "\<lambda>m x. x = Some m" and Q = "\<lambda>m _ y. ?Q m y" and E = True, OF this assms(1) _ assms(3)]
  obtain es w' where "for_each (\<lambda>m. attempt (drain_one r t m)) xs w = (es, w')" "calm b t w'" "es = []"
    "\<forall>i. i \<notin> ids xs \<longrightarrow> rows t w' i = rows t w i" "\<forall>m \<in> set xs. ?Q m (rows t w' (m_id m))"
    using assms(2) by auto
  then show ?thesis by (intro that [of w']) auto
qed

text \<open>
  Suspending idle members changes no count. A member drained in the same pass may be in the list;
  its row is gone or it has work, so it is not counted again.
\<close>

definition settled :: "member \<Rightarrow> member option \<Rightarrow> bool" where
  "settled m x \<longleftrightarrow> x = None \<or> m_jobs_in_flight m \<noteq> 0 \<or> x = Some m \<and> m_state m \<noteq> MemberDraining"

definition same_count :: "member option \<Rightarrow> member option \<Rightarrow> bool" where
  "same_count x y \<longleftrightarrow> y = x \<or>
     (\<exists>m n. x = Some m \<and> y = Some n \<and> m_bank n = m_bank m \<and> m_state m \<noteq> MemberDraining \<and> m_state n \<noteq> MemberDraining)"

lemma calm_idleLongEnough:
  fixes w :: "'x rworld_scheme"
  assumes "calm b t w"
  obtains idle w' where "idleLongEnough r m w = (Inr idle, w')" "calm b t w'" "rows t w' = rows t w"
    "idle \<longrightarrow> m_jobs_in_flight m = 0"
proof (cases "m_idle_since m \<noteq> None \<and> m_state m = MemberIdle \<and> m_jobs_in_flight m = 0")
  case True
  then obtain since where "m_idle_since m = Some since" by blast
  with True show ?thesis
    by (intro that [of _ "w\<lparr>ticks := Suc (ticks w)\<rparr>"])
       (simp add: idleLongEnough_def bnd_def read_clock_def ret_def, rule calm_tick [OF assms],
        rule calm_tick [OF assms], simp)
next
  case False
  then show ?thesis by (intro that [of False w]) (auto simp: idleLongEnough_def assms split: option.splits)
qed

lemma calm_suspend_one:
  fixes w :: "'x rworld_scheme"
  assumes "calm b t w" "settled m (rows t w (m_id m))"
  shows "\<exists>es w' m'. attempt (suspend_one r t m) w = (es, w') \<and> calm b t w' \<and>
    rows t w' = (rows t w)(m_id m := m') \<and> same_count (rows t w (m_id m)) m'"
proof -
  obtain idle w1 where w1: "idleLongEnough r m w = (Inr idle, w1)" "calm b t w1" "rows t w1 = rows t w"
    "idle \<longrightarrow> m_jobs_in_flight m = 0" using assms(1) by (rule calm_idleLongEnough [where r = r and m = m])
  show ?thesis
  proof (cases idle)
    case False
    then have "suspend_one r t m w = (Inr (), w1)" using w1(1) by (simp add: suspend_one_def bnd_def ret_def)
    from attempt_Inr [of "suspend_one r t m", OF this] show ?thesis
      using w1 by (intro exI [of _ "[]"] exI [of _ w1] exI [of _ "rows t w (m_id m)"]) (simp add: same_count_def)
  next
    case True
    obtain w2 where w2: "launcher (SuspendMember (m_id m)) w1 = (Inr (), w2)" "calm b t w2" "rows t w2 = rows t w1"
      using w1(2) by (rule calm_launcher)
    have s: "IsMemberState MemberSuspended" by (simp add: IsMemberState_def)
    from assms(2) w1(4) True consider "rows t w2 (m_id m) = None" | "rows t w2 (m_id m) = Some m" "m_state m \<noteq> MemberDraining"
      by (auto simp: settled_def w1 w2)
    then show ?thesis
    proof cases
      case 1
      obtain w3 where w3: "SetMemberState t (m_id m) MemberSuspended w2 = (Inl (ErrNotFound Pkg_bank (m_id m)), w3)"
        "calm b t w3" "rows t w3 = rows t w2" using w2(2) s 1 by (rule calm_SetMemberState_gone)
      have "suspend_one r t m w = (Inl (ErrNotFound Pkg_bank (m_id m)), w3)"
        using True by (simp add: suspend_one_def bnd_def w1(1) w2(1) w3(1))
      from attempt_Inl [of "suspend_one r t m", OF this] show ?thesis
        using w1 w2 w3 by (intro exI [of _ "[ErrNotFound Pkg_bank (m_id m)]"] exI [of _ w3] exI [of _ "rows t w (m_id m)"])
          (simp add: same_count_def)
    next
      case 2
      obtain now w3 where w3: "SetMemberState t (m_id m) MemberSuspended w2 =
          (Inr (m\<lparr>m_state := MemberSuspended, m_updated_at := now\<rparr>), w3)" "calm b t w3"
        "rows t w3 = (rows t w2)(m_id m \<mapsto> m\<lparr>m_state := MemberSuspended, m_updated_at := now\<rparr>)"
        using w2(2) s 2(1) by (rule calm_SetMemberState)
      obtain w4 where w4: "emit (cfg_events r) (EvMemberSuspended (m_id m)) w3 = (Inr (), w4)" "calm b t w4"
        "rows t w4 = rows t w3" using w3(2) by (rule calm_emit)
      have "suspend_one r t m w = (Inr (), w4)"
        using True by (simp add: suspend_one_def bnd_def w1(1) w2(1) w3(1) w4(1))
      from attempt_Inr [of "suspend_one r t m", OF this] show ?thesis
        using w1 w2 w3 w4 2
        by (intro exI [of _ "[]"] exI [of _ w4] exI [of _ "Some (m\<lparr>m_state := MemberSuspended, m_updated_at := now\<rparr>)"])
           (simp add: same_count_def)
    qed
  qed
qed

lemma counted_cong: "(\<And>i. same_count (R i) (R' i)) \<Longrightarrow> counted b R' = counted b R"
  unfolding counted_def same_count_def by (rule Collect_cong) (metis option.inject option.distinct(1))

lemma calm_resume_all:
  fixes w :: "'x rworld_scheme"
  shows "calm b t w \<Longrightarrow> \<exists>es w'. for_each (\<lambda>m. attempt (resume_one r m)) xs w = (es, w') \<and> calm b t w' \<and> rows t w' = rows t w"
proof (induction xs arbitrary: w)
  case Nil
  then show ?case by (simp add: nothing_def)
next
  case (Cons m xs)
  obtain w1 where w1: "launcher (ResumeMember (m_id m)) w = (Inr (), w1)" "calm b t w1" "rows t w1 = rows t w"
    using Cons.prems by (rule calm_launcher)
  obtain w2 where w2: "emit (cfg_events r) (EvMemberResumed (m_id m)) w1 = (Inr (), w2)" "calm b t w2" "rows t w2 = rows t w1"
    using w1(2) by (rule calm_emit)
  have "resume_one r m w = (Inr (), w2)" by (simp add: resume_one_def bnd_def w1(1) w2(1))
  from attempt_Inr [of "resume_one r m", OF this] Cons.IH [OF w2(2)] w1 w2 show ?case
    by (auto simp: and_then_def)
qed

lemma Unassigned_calm: "calm b t w \<Longrightarrow> \<exists>n. Unassigned t (b_id b) w = (Inr n, w)"
  by (simp add: Unassigned_def calm_def calm_simps)

lemma calm_suspendOrResume:
  fixes w :: "'x rworld_scheme"
  assumes "calm b t w" "\<And>m. m \<in> set live \<Longrightarrow> settled m (rows t w (m_id m))" "distinct (map m_id live)"
  obtains es w' where "suspendOrResume r t b live susp w = (es, w')" "calm b t w'"
    "counted b (rows t w') = counted b (rows t w)"
proof -
  obtain n where n: "Unassigned t (b_id b) w = (Inr n, w)" using Unassigned_calm [OF assms(1)] by blast
  show ?thesis
  proof (cases "n > 0")
    case True
    then show ?thesis using calm_resume_all [OF assms(1), of r] n that
      by (simp add: suspendOrResume_def) metis
  next
    case False
    have "\<exists>es w' m'. attempt (suspend_one r t m) w = (es, w') \<and> calm b t w' \<and>
        rows t w' = (rows t w)(m_id m := m') \<and> same_count (rows t w (m_id m)) m' \<and> (False \<longrightarrow> es = [])"
      if "calm b t w" "settled m (rows t w (m_id m))" for m and w :: "'x rworld_scheme"
      using calm_suspend_one [OF that, of r] by blast
    from calm_for_each [where P = settled and Q = "\<lambda>_ x y. same_count x y" and E = False, OF this assms(1) _ assms(3)]
    obtain es w' where run: "for_each (\<lambda>m. attempt (suspend_one r t m)) live w = (es, w')" "calm b t w'"
      "\<forall>i. i \<notin> ids live \<longrightarrow> rows t w' i = rows t w i"
      "\<forall>m \<in> set live. same_count (rows t w (m_id m)) (rows t w' (m_id m))" using assms(2) by auto
    have "same_count (rows t w i) (rows t w' i)" for i
    proof (cases "i \<in> ids live")
      case True
      then show ?thesis using run(4) by blast
    qed (use run(3) in \<open>simp add: same_count_def\<close>)
    then have "counted b (rows t w') = counted b (rows t w)" by (rule counted_cong)
    then show ?thesis using that run(1,2) n False by (simp add: suspendOrResume_def)
  qed
qed

section \<open>Launching\<close>

lemma finite_counted: "finite (counted b (rows t w))"
proof (rule finite_subset)
  show "counted b (rows t w) \<subseteq> m_id ` set (members (dbs w t))"
    by (auto simp: counted_def rows_def dest: member_row_Some)
qed simp

lemma AddMember_calm:
  fixes w :: "'x rworld_scheme"
  assumes "faults w = []" "valid_tenant w t" "m_id m \<noteq> []" "m_bank m \<noteq> []" "rows t w (m_id m) = None"
    and "bank_row (m_bank m) (dbs w t) \<noteq> None"
    and "m_mission_run m = [] \<or> m_mission_run m \<notin> m_mission_run ` set (members (dbs w t))"
  shows "AddMember t (Some m) w =
    (Inr (), w\<lparr>ticks := Suc (ticks w), dbs := (dbs w)(t := (dbs w t)\<lparr>members :=
       members (dbs w t) @ [member_columns m (clock w (ticks w))]\<rparr>)\<rparr>)"
proof -
  have "insert_member (member_columns m (clock w (ticks w))) (dbs w t) =
      Inr ((), (dbs w t)\<lparr>members := members (dbs w t) @ [member_columns m (clock w (ticks w))]\<rparr>)"
    using assms(5-7) by (auto simp: insert_member_def member_columns_def rows_def)
  then show ?thesis using assms(1-4) by (simp add: AddMember_def calm_simps handle_def)
qed

lemma calm_launch_one:
  fixes w :: "'x rworld_scheme"
  assumes "calm b t w"
  obtains w' m' where "launch_one r t b w = (Inr (), w')" "calm b t w'"
    "rows t w' = (rows t w)(uuid w (fresh w) \<mapsto> m')" "m_bank m' = b_id b" "m_state m' \<noteq> MemberDraining"
    "rows t w (uuid w (fresh w)) = None"
proof -
  define i where "i = uuid w (fresh w)"
  define w0 where "w0 = w\<lparr>fresh := Suc (fresh w)\<rparr>"
  have fr: "fresh_ids t w" using assms by (simp add: calm_def)
  have inj: "inj (uuid w)" using fr by (simp add: fresh_ids_def)
  have i: "i \<noteq> []" "rows t w i = None" using fr by (auto simp: fresh_ids_def i_def)
  define l where "l = launched w i"
  have run: "l_mission_run l = run_of w (fresh w)" by (simp add: l_def i_def run_of_def)
  define w1 where "w1 = w0\<lparr>launcher_calls := launcher_calls w0 @ [LaunchMember i], launcher_fails := tl (launcher_fails w0)\<rparr>"
  have launch: "launcher (LaunchMember i) w0 = (Inr (), w1)" using assms by (simp add: launcher_def w1_def w0_def calm_def)
  define m where "m = new_member b i l"
  have m: "m_id m = i" "m_bank m = b_id b" "m_mission_run m = run_of w (fresh w)"
    by (simp_all add: m_def new_member_def run)
  define m' where "m' = member_columns m (clock w1 (ticks w1))"
  define w2 where "w2 = w1\<lparr>ticks := Suc (ticks w1), dbs := (dbs w1)(t := (dbs w1 t)\<lparr>members := members (dbs w1 t) @ [m']\<rparr>)\<rparr>"
  have "m_mission_run m = [] \<or> m_mission_run m \<notin> m_mission_run ` set (members (dbs w1 t))"
    using fr by (auto simp: m(3) fresh_ids_def w1_def w0_def)
  then have add: "AddMember t (Some m) w1 = (Inr (), w2)"
    unfolding w2_def m'_def
    by (intro AddMember_calm) (use assms i m in \<open>simp_all add: calm_def w1_def w0_def rows_def\<close>)
  define w3 where "w3 = (if cfg_events r then w2\<lparr>emitted := emitted w2 @ [EvMemberLaunched i]\<rparr> else w2)"
  have "launch_one r t b w = (Inr (), w3)"
    using launch add
    by (simp add: launch_one_def bnd_def NewID_def handle_def emit_def w3_def m_def l_def flip: i_def w0_def)
       (simp add: w1_def w0_def i_def emit_def)
  moreover have rows: "rows t w3 = (rows t w)(i \<mapsto> m')"
    using i(2) m(1)
    by (auto simp: fun_eq_iff rows_def w3_def w2_def w1_def w0_def member_row_def find_append m'_def member_columns_def
        split: option.splits)
  moreover have "calm b t w3"
  proof -
    have runs: "m_mission_run ` set (members (dbs w3 t)) = insert (run_of w (fresh w)) (m_mission_run ` set (members (dbs w t)))"
      by (simp add: w3_def w2_def w1_def w0_def m'_def member_columns_def m(3))
    have env: "uuid w3 = uuid w" "fresh w3 = Suc (fresh w)" "run_of w3 = run_of w"
      by (simp_all add: w3_def w2_def w1_def w0_def run_of_def fun_eq_iff)
    have "fresh_ids t w3"
      unfolding fresh_ids_def rows runs env
    proof (intro conjI allI impI)
      fix n assume n: "Suc (fresh w) \<le> n"
      then have new: "fresh w \<le> n" "uuid w n \<noteq> i" using inj by (auto simp: i_def inj_eq)
      then show "uuid w n \<noteq> []" "((rows t w)(i \<mapsto> m')) (uuid w n) = None" using fr by (auto simp: fresh_ids_def)
      have "run_of w n = [] \<or> run_of w n \<notin> m_mission_run ` set (members (dbs w t)) \<and>
          (\<forall>k' \<ge> fresh w. k' \<noteq> n \<longrightarrow> run_of w k' \<noteq> run_of w n)" using fr new(1) unfolding fresh_ids_def by blast
      moreover have "fresh w \<noteq> n" using n by simp
      ultimately show "run_of w n = [] \<or>
          run_of w n \<notin> insert (run_of w (fresh w)) (m_mission_run ` set (members (dbs w t))) \<and>
          (\<forall>k' \<ge> Suc (fresh w). k' \<noteq> n \<longrightarrow> run_of w k' \<noteq> run_of w n)"
        by (metis Suc_leD insert_iff le_refl)
    qed (use fr inj i(1) in \<open>auto simp: fresh_ids_def\<close>)
    moreover have "faults w3 = faults w" "launcher_fails w3 = tl (launcher_fails w)" "valid_tenant w3 = valid_tenant w"
      "banks (dbs w3 t) = banks (dbs w t)"
      by (simp_all add: w3_def w2_def w1_def w0_def)
    ultimately show ?thesis using assms by (simp add: calm_def bank_row_def)
  qed
  moreover have "m_bank m' = b_id b" "m_state m' \<noteq> MemberDraining"
    by (simp_all add: m'_def m_def member_columns_def new_member_def initialState_def)
  ultimately show ?thesis using that [of w3 m'] i(2) unfolding i_def by blast
qed

lemma calm_launch:
  fixes w :: "'x rworld_scheme"
  shows "calm b t w \<Longrightarrow> \<exists>w'. for_each (\<lambda>_. attempt (launch_one r t b)) xs w = ([], w') \<and> calm b t w' \<and>
    card (counted b (rows t w')) = card (counted b (rows t w)) + length xs \<and>
    (\<forall>i m. rows t w i = Some m \<longrightarrow> rows t w' i = Some m)"
proof (induction xs arbitrary: w)
  case Nil
  then show ?case by (simp add: nothing_def)
next
  case (Cons x xs)
  obtain w1 m' where one: "launch_one r t b w = (Inr (), w1)" "calm b t w1"
    "rows t w1 = (rows t w)(uuid w (fresh w) \<mapsto> m')" "m_bank m' = b_id b" "m_state m' \<noteq> MemberDraining"
    "rows t w (uuid w (fresh w)) = None" using Cons.prems by (rule calm_launch_one)
  have "counted b (rows t w1) = insert (uuid w (fresh w)) (counted b (rows t w))"
    using one(3-5) by (auto simp: counted_def)
  moreover have "uuid w (fresh w) \<notin> counted b (rows t w)" using one(6) by (simp add: counted_def)
  ultimately have "card (counted b (rows t w1)) = Suc (card (counted b (rows t w)))"
    using finite_counted [of b t w] by simp
  moreover obtain w2 where "for_each (\<lambda>_. attempt (launch_one r t b)) xs w1 = ([], w2)" "calm b t w2"
    "card (counted b (rows t w2)) = card (counted b (rows t w1)) + length xs"
    "\<forall>i m. rows t w1 i = Some m \<longrightarrow> rows t w2 i = Some m" using Cons.IH [OF one(2)] by blast
  moreover have "\<forall>i m. rows t w i = Some m \<longrightarrow> rows t w1 i = Some m" using one(3,6) by auto
  ultimately show ?case using attempt_Inr [of "launch_one r t b", OF one(1)] by (simp add: and_then_def)
qed

section \<open>The count\<close>

lemma card_ids: "distinct (map m_id xs) \<Longrightarrow> card (ids xs) = length xs"
  using distinct_card [of "map m_id xs"] by simp

lemma card_minus:
  assumes "finite A" "B \<subseteq> A" "C \<subseteq> A - B" shows "card (A - B - C) = card A - card B - card C"
proof -
  have "finite B" "finite C" using assms by (auto intro: finite_subset)
  then show ?thesis using card_Diff_subset [of B A] card_Diff_subset [of C "A - B"] assms(2,3) by simp
qed

lemma distinct_ids_take: "distinct (map m_id xs) \<Longrightarrow> distinct (map m_id (take k xs))"
  using distinct_take [of "map m_id xs" k] by (simp only: take_map)

lemma calm_excess:
  fixes w :: "'x rworld_scheme"
  assumes "calm b t w" "\<And>m. m \<in> set live \<union> set susp \<Longrightarrow> rows t w (m_id m) = Some m"
    and dist: "distinct (map m_id (live @ susp))" and cnt: "counted b (rows t w) = ids live \<union> ids susp"
    and k: "k \<le> length susp" and l: "l \<le> length live"
  obtains w1 w' where "for_each (\<lambda>m. attempt (recycle r t m)) (take k susp) w = ([], w1)" "calm b t w1"
    "drain r t live (int l) w1 = ([], w')" "calm b t w'"
    "card (counted b (rows t w')) = length live + length susp - k - l"
    "\<forall>m \<in> set live. rows t w' (m_id m) = None \<or> m_jobs_in_flight m \<noteq> 0 \<or> rows t w' (m_id m) = Some m"
proof -
  have dk: "distinct (map m_id (take k susp))" using dist by (intro distinct_ids_take) simp
  have row: "rows t w (m_id m) = Some m" if "m \<in> set (take k susp)" for m
    using assms(2) set_take_subset [of k susp] that by blast
  obtain w1 where w1: "for_each (\<lambda>m. attempt (recycle r t m)) (take k susp) w = ([], w1)" "calm b t w1"
    "\<forall>i. rows t w1 i = (if i \<in> ids (take k susp) then None else rows t w i)"
    using assms(1) row dk by (rule calm_recycle_all [where r = r])
  define xs where "xs = take l (drainOrder live)"
  have order: "set (drainOrder live) = set live" "distinct (map m_id (drainOrder live))" "length (drainOrder live) = length live"
  proof -
    have perm: "mset (drainOrder live) = mset live" by (simp add: drainOrder_sort)
    show "set (drainOrder live) = set live" by (rule mset_eq_setD [OF perm])
    show "length (drainOrder live) = length live" by (rule mset_eq_length [OF perm])
    have "mset (map m_id (drainOrder live)) = mset (map m_id live)" by (simp only: mset_map perm)
    from mset_eq_imp_distinct_iff [OF this] dist show "distinct (map m_id (drainOrder live))" by simp
  qed
  have xs: "set xs \<subseteq> set live" "distinct (map m_id xs)" "length xs = l"
    using order l set_take_subset [of l "drainOrder live"] distinct_ids_take by (simp_all add: xs_def)
  have apart: "ids live \<inter> ids susp = {}" using dist by auto
  have kept: "m_id m \<notin> ids (take k susp)" if "m \<in> set live" for m
    using apart that set_take_subset [of k susp] by blast
  have "rows t w1 (m_id m) = Some m" if "m \<in> set xs" for m
    using spec [OF w1(3), of "m_id m"] kept assms(2) xs(1) that by auto
  from w1(2) this xs(2) obtain w' where w': "for_each (\<lambda>m. attempt (drain_one r t m)) xs w1 = ([], w')" "calm b t w'"
    "\<forall>i. i \<notin> ids xs \<longrightarrow> rows t w' i = rows t w1 i"
    "\<forall>m \<in> set xs. (case rows t w' (m_id m) of None \<Rightarrow> m_jobs_in_flight m = 0
       | Some x \<Rightarrow> m_state x = MemberDraining \<and> m_jobs_in_flight m \<noteq> 0)" by (rule calm_drain [where r = r])
  have "counted b (rows t w') = counted b (rows t w) - ids (take k susp) - ids xs"
  proof (rule set_eqI)
    fix i
    show "i \<in> counted b (rows t w') \<longleftrightarrow> i \<in> counted b (rows t w) - ids (take k susp) - ids xs"
    proof (cases "i \<in> ids xs")
      case True
      then obtain m where "m \<in> set xs" "i = m_id m" by blast
      then show ?thesis using bspec [OF w'(4), of m] True by (auto simp: counted_def split: option.splits)
    next
      case False
      then show ?thesis using w'(3) [rule_format, OF False] spec [OF w1(3), of i] by (simp add: counted_def)
    qed
  qed
  moreover have "card (counted b (rows t w) - ids (take k susp) - ids xs) = length live + length susp - k - l"
  proof -
    have "card (ids live \<union> ids susp) = length live + length susp"
      using card_ids [of live] card_ids [of susp] dist apart by (simp add: card_Un_disjoint)
    moreover have sub: "ids (take k susp) \<subseteq> ids live \<union> ids susp" "ids xs \<subseteq> ids live \<union> ids susp - ids (take k susp)"
      using set_take_subset [of k susp] xs(1) kept by auto
    moreover have "card (ids (take k susp)) = k" "card (ids xs) = l"
      using card_ids [OF dk] card_ids [OF xs(2)] xs(3) k by simp_all
    ultimately show ?thesis unfolding cnt using card_minus [OF _ sub] by simp
  qed
  ultimately have card: "card (counted b (rows t w')) = length live + length susp - k - l" by simp
  have settle: "rows t w' (m_id m) = None \<or> m_jobs_in_flight m \<noteq> 0 \<or> rows t w' (m_id m) = Some m" if m: "m \<in> set live" for m
  proof (cases "m_id m \<in> ids xs")
    case True
    then obtain x where x: "x \<in> set xs" "m_id x = m_id m" by auto
    then have "x = m" using assms(2) [of x] assms(2) [of m] m xs(1) by auto
    then show ?thesis using bspec [OF w'(4) x(1)] by (auto split: option.splits)
  next
    case False
    then show ?thesis using w'(3) [rule_format, OF False] w1(3) kept [OF m] assms(2) [of m] m by simp
  qed
  have "drain r t live (int l) w1 = ([], w')" using w'(1) by (simp add: drain_def xs_def)
  then show ?thesis by (rule that [OF w1(1,2) _ w'(2) card]) (intro ballI settle)
qed

lemma calm_adjust:
  fixes w :: "'x rworld_scheme"
  assumes "calm b t w" "\<And>m. m \<in> set live \<union> set susp \<Longrightarrow> rows t w (m_id m) = Some m"
    and "distinct (map m_id (live @ susp))" "counted b (rows t w) = ids live \<union> ids susp"
    and "\<And>m. m \<in> set live \<Longrightarrow> m_state m \<noteq> MemberDraining"
    and n: "running = int (length live + length susp)" "running < 2 ^ 31" and target: "0 \<le> target" "target < 2 ^ 31"
  obtains susp' w' where "adjust r t b running target live susp w = (([], susp'), w')" "calm b t w'"
    "card (counted b (rows t w')) = nat target" "\<forall>m \<in> set live. settled m (rows t w' (m_id m))"
proof -
  have card: "card (counted b (rows t w)) = length live + length susp"
    using card_ids [of live] card_ids [of susp] assms(3,4) by (auto simp: card_Un_disjoint)
  consider "running > target" | "running < target" | "running = target" by linarith
  then show ?thesis
  proof cases
    case 1
    define k where "k = min (nat (running - target)) (length susp)"
    define l where "l = nat (running - target) - k"
    have ex: "to_int32 (running - target) = running - target" using n target 1 by (intro to_int32_id) linarith+
    have kl: "k \<le> length susp" "l \<le> length live" "running - target - int k = int l"
      using n(1) target(1) 1 by (auto simp: k_def l_def)
    obtain w1 w' where w': "for_each (\<lambda>m. attempt (recycle r t m)) (take k susp) w = ([], w1)" "calm b t w1"
      "drain r t live (int l) w1 = ([], w')" "calm b t w'"
      "card (counted b (rows t w')) = length live + length susp - k - l"
      "\<forall>m \<in> set live. rows t w' (m_id m) = None \<or> m_jobs_in_flight m \<noteq> 0 \<or> rows t w' (m_id m) = Some m"
      by (rule calm_excess [OF assms(1-4) kl(1,2), where r = r])
    have "w' = w1" if "l = 0" using w'(3) that by (simp add: drain_def nothing_def)
    then have zero: "w' = w1" if "\<not> int k < running - target" using that kl(3) by linarith
    have "adjust r t b running target live susp w = (([], drop k susp), w')"
      using 1 w'(1,3) zero by (simp add: adjust_def ex flip: k_def) (simp add: kl(3) Let_def)
    moreover have "card (counted b (rows t w')) = nat target"
      using w'(5) kl n(1) target(1) 1 by (auto simp: l_def)
    moreover have "settled m (rows t w' (m_id m))" if "m \<in> set live" for m
      using bspec [OF w'(6) that] assms(5) [OF that] by (auto simp: settled_def)
    ultimately show ?thesis by (intro that [OF _ w'(4)] ballI)
  next
    case 2
    have ex: "to_int32 (target - running) = target - running" using n target 2 by (intro to_int32_id) linarith+
    obtain w' where w': "for_each (\<lambda>_. attempt (launch_one r t b)) [0..<nat (target - running)] w = ([], w')" "calm b t w'"
      "card (counted b (rows t w')) = card (counted b (rows t w)) + length [0..<nat (target - running)]"
      "\<forall>i m. rows t w i = Some m \<longrightarrow> rows t w' i = Some m" using calm_launch [OF assms(1)] by blast
    have "adjust r t b running target live susp w = (([], susp), w')"
      using 2 w'(1) by (simp add: adjust_def ex launch_def)
    moreover have "card (counted b (rows t w')) = nat target" using w'(3) card n(1) 2 by auto
    moreover have "settled m (rows t w' (m_id m))" if "m \<in> set live" for m
      using w'(4) assms(2) [of m] assms(5) [OF that] that by (auto simp: settled_def)
    ultimately show ?thesis by (intro that [OF _ w'(2)] ballI)
  next
    case 3
    then have "adjust r t b running target live susp w = (([], susp), w)" by (simp add: adjust_def)
    moreover have "settled m (rows t w (m_id m))" if "m \<in> set live" for m
      using assms(2) [of m] assms(5) [OF that] that by (auto simp: settled_def)
    moreover have "card (counted b (rows t w)) = nat target" using card n(1) 3 by simp
    ultimately show ?thesis by (intro that [OF _ assms(1)] ballI)
  qed
qed

section \<open>A whole pass\<close>

lemma closeStaleJobs_rows:
  fixes w :: "'x rworld_scheme"
  assumes "closeStaleJobs t b w = (es, w')" shows "rows t w' = rows t w"
proof -
  obtain d where "dbs w' = (dbs w)(t := d)" "members d = members (dbs w t) \<and> banks d = banks (dbs w t)"
    by (rule pass_effectE [OF closing_pass.closeStaleJobs_effect assms])
  then show ?thesis by (simp add: rows_def member_row_def)
qed

lemma calm_reconcile_members:
  fixes w :: "'x rworld_scheme"
  assumes "calm b t w" "\<And>m. m \<in> set ms \<Longrightarrow> rows t w (m_id m) = Some m \<and> m_bank m = b_id b" "distinct (map m_id ms)"
    and "\<And>i m. rows t w i = Some m \<Longrightarrow> m_bank m = b_id b \<Longrightarrow> m \<in> set ms"
    and "length ms < 2 ^ 31" "0 \<le> b_desired_count b" "b_desired_count b < 2 ^ 31"
    and "b_spill_policy b \<noteq> SpillEphemeral \<or> b_login_shape b = LoginShapeSubscription"
  shows "\<exists>es w'. reconcile_members r t b ms w = (es, w') \<and> card (counted b (rows t w')) = nat (b_desired_count b)"
proof -
  obtain live susp w1 where rv: "review_all r t ms w = (([], live, susp), w1)" "calm b t w1"
    "\<forall>i. i \<notin> ids ms \<longrightarrow> rows t w1 i = rows t w i"
    "\<forall>m \<in> set live \<union> set susp. rows t w1 (m_id m) = Some m"
    "counted b (rows t w1) = counted b (rows t w) - ids ms \<union> ids live \<union> ids susp"
    "distinct (map m_id (live @ susp))" "set live \<union> set susp \<subseteq> set ms"
    "\<forall>m \<in> set live. m_state m \<noteq> MemberDraining"
    using assms(1-3) by (rule calm_review_all [where r = r])
  have "counted b (rows t w) \<subseteq> ids ms" using assms(4) by (auto simp: counted_def dest: rows_id)
  then have cnt: "counted b (rows t w1) = ids live \<union> ids susp" using rv(5) by auto
  have "length (live @ susp) = card (set (live @ susp))"
    using rv(6) distinct_card [of "live @ susp"] distinct_map by metis
  also have "\<dots> \<le> card (set ms)" using rv(7) by (intro card_mono) auto
  also have "\<dots> \<le> length ms" by (rule card_length)
  finally have len: "int (length live + length susp) < 2 ^ 31" using assms(5) by simp
  define running where "running = int (length live + length susp)"
  have run: "to_int32 (int (length live + length susp)) = running"
    unfolding running_def using len by (intro to_int32_id) simp_all
  have target: "targetCount t b w1 = (Inr (b_desired_count b), w1)"
    using assms(8) by (auto simp: targetCount_def ret_def)
  have rows1: "rows t w1 (m_id m) = Some m" if "m \<in> set live \<union> set susp" for m using rv(4) that by blast
  have state1: "m_state m \<noteq> MemberDraining" if "m \<in> set live" for m using rv(8) that by blast
  obtain susp' w2 where ad: "adjust r t b running (b_desired_count b) live susp w1 = (([], susp'), w2)" "calm b t w2"
    "card (counted b (rows t w2)) = nat (b_desired_count b)" "\<forall>m \<in> set live. settled m (rows t w2 (m_id m))"
    by (rule calm_adjust [OF rv(2) rows1 rv(6) cnt state1 running_def len [folded running_def] assms(6,7), where r = r])
  have settled: "settled m (rows t w2 (m_id m))" if "m \<in> set live" for m using ad(4) that by blast
  have dist: "distinct (map m_id live)" using rv(6) by simp
  obtain es3 w3 where sr: "suspendOrResume r t b live susp' w2 = (es3, w3)" "calm b t w3"
    "counted b (rows t w3) = counted b (rows t w2)"
    by (rule calm_suspendOrResume [OF ad(2) settled dist, where r = r and susp = susp'])
  obtain es4 w4 where cl: "closeStaleJobs t b w3 = (es4, w4)" by (cases "closeStaleJobs t b w3")
  have "reconcile_members r t b ms w = (es3 @ es4, w4)"
    by (simp add: reconcile_members_def rv(1) run [simplified] target ad(1) sr(1) cl)
  moreover have "card (counted b (rows t w4)) = nat (b_desired_count b)"
    using closeStaleJobs_rows [OF cl] sr(3) ad(3) by simp
  ultimately show ?thesis by blast
qed

end
