(* ===== verification/ReconcilerProperties.thy ===== *)
theory ReconcilerProperties
  imports ReconcilerConverges
begin

text \<open>
  The properties of the bank reconciler.
\<close>

section \<open>A concrete bank\<close>

definition demo_config :: config where
  "demo_config = \<lparr>cfg_store = True, cfg_launcher = True, cfg_jobs = True, cfg_events = True,
     cfg_heartbeat = DefaultHeartbeatTimeout, cfg_launch = DefaultLaunchTimeout,
     cfg_idle = DefaultIdleSuspendAfter, cfg_recycle = DefaultSuspendedRecycleAfter\<rparr>"

definition demo_rworld :: rworld where
  "demo_rworld = \<lparr>dbs = \<lambda>_. demo_db, faults = [], clock = int, ticks = 0,
     uuid = \<lambda>n. replicate (Suc n) (CHR ''u''), fresh = 0, valid_tenant = \<lambda>_. True,
     marshals_spec = \<lambda>_. True, marshals_deliverable = \<lambda>_. True, launcher_fails = [],
     launched = \<lambda>i. \<lparr>l_mission = [], l_mission_run = i, l_agent_run = [], l_sandbox = i\<rparr>,
     launcher_calls = [], emitted = []\<rparr>"

lemma demo_rows: "rows t demo_rworld i = (if i = ''m1'' then Some (demo_member ''m1'')
    else if i = ''m2'' then Some (demo_member ''m2'') else None)"
  by (simp add: rows_def demo_rworld_def demo_db_def member_row_def empty_db_def demo_member_def)

lemma demo_calm: "calm demo_bank ''acme'' demo_rworld"
proof -
  have "inj (\<lambda>n. replicate (Suc n) (CHR ''u''))" by (rule injI) (metis Suc_inject length_replicate)
  moreover have "m_mission_run ` set (members (dbs demo_rworld ''acme'')) = {''m1'', ''m2''}"
    by (simp add: demo_rworld_def demo_db_def empty_db_def demo_member_def)
  moreover have "replicate (Suc k) (CHR ''u'') \<noteq> ''m1''" "replicate (Suc k) (CHR ''u'') \<noteq> ''m2''" for k by simp_all
  moreover have "replicate (Suc k) (CHR ''u'') \<noteq> replicate (Suc k') (CHR ''u'')" if "k' \<noteq> k" for k k'
    using that by (metis Suc_inject length_replicate)
  moreover have "uuid demo_rworld = (\<lambda>n. replicate (Suc n) (CHR ''u''))" "run_of demo_rworld = (\<lambda>n. replicate (Suc n) (CHR ''u''))"
    by (simp_all add: demo_rworld_def run_of_def fun_eq_iff)
  ultimately have "fresh_ids ''acme'' demo_rworld" unfolding fresh_ids_def demo_rows by auto
  then show ?thesis by (simp add: calm_def demo_bank_def demo_rworld_def demo_db_def empty_db_def bank_row_def)
qed

lemma demo_tables: "bank_inv (dbs demo_rworld ''acme'')" "times_ok (dbs demo_rworld ''acme'')"
  using demo_bank_inv
  by (simp_all add: times_ok_def demo_rworld_def demo_db_def empty_db_def demo_member_def time_ok_def
      unix_epoch_days_def day_us_def days_before_year_def)

lemma allMembers_read:
  fixes w :: "'x rworld_scheme"
  assumes "bank_inv (dbs w t)" "times_ok (dbs w t)" "faults w = []" "valid_tenant w t"
    and "length (members_of bank (dbs w t)) < pages"
  shows "allMembers pages t bank [] [] w = Some (Inr (sort_key member_key (members_of bank (dbs w t))), w)"
proof -
  let ?rows = "members_of bank (dbs w t)"
  have all: "after_asc member_key start_cursor ?rows = sort_key member_key ?rows"
    by (simp add: after_asc_def start_cursor_def)
  have tok: "decodeToken Pkg_bank [] = Inr start_cursor" by (simp add: decodeToken_def)
  from allMembers_loop [OF member_keys_distinct [OF assms(1)] assms(2) tok, of bank "[]" "sort_key member_key ?rows" pages]
    assms(3-5) all show ?thesis by auto
qed

section \<open>Properties\<close>

text \<open>
  The reconciler reads every member of the bank, in the order they were created, exactly once,
  through as many pages as it takes, when the database works.
\<close>

theorem allMembers_complete:
  fixes w :: "'x rworld_scheme"
  assumes "bank_inv (dbs w t)" "times_ok (dbs w t)" "faults w = []" "valid_tenant w t"
    and "length (members_of bank (dbs w t)) < pages"
  shows "allMembers pages t bank [] [] w = Some (Inr (sort_key member_key (members_of bank (dbs w t))), w)"
  using assms by (rule allMembers_read)

theorem allMembers_complete_witness:
  "allMembers 3 ''acme'' ''b1'' [] [] demo_rworld =
     Some (Inr [demo_member ''m1'', demo_member ''m2''], demo_rworld)"
proof -
  have len: "length (members_of ''b1'' (dbs demo_rworld ''acme'')) < 3" by code_simp
  have sort: "sort_key member_key (members_of ''b1'' (dbs demo_rworld ''acme'')) = [demo_member ''m1'', demo_member ''m2'']"
    by code_simp
  have "faults demo_rworld = []" "valid_tenant demo_rworld ''acme''" by (simp_all add: demo_rworld_def)
  from allMembers_complete [OF demo_tables this len] show ?thesis by (simp only: sort)
qed

text \<open>
  C32: a pass over a bank returns, whatever the database and the launcher do: reading one page more
  than the bank has members is enough.
\<close>

theorem ReconcileBank_terminates:
  fixes w :: "'x rworld_scheme"
  assumes "bank_inv (dbs w t)" "times_ok (dbs w t)" "length (members_of (b_id b) (dbs w t)) < pages"
  shows "\<exists>es w'. ReconcileBank pages r t b w = Some (es, w')"
proof -
  let ?rows = "members_of (b_id b) (dbs w t)"
  have tok: "decodeToken Pkg_bank [] = Inr start_cursor" by (simp add: decodeToken_def)
  have "length (after_asc member_key start_cursor ?rows) < pages"
    using assms(3) by (simp add: after_asc_def start_cursor_def)
  from allMembers_loop [OF member_keys_distinct [OF assms(1)] assms(2) tok _ refl this, of "[]"]
  obtain res w1 where run: "allMembers pages t (b_id b) [] [] w = Some (res, w1)" by (auto simp del: allMembers.simps)
  show ?thesis
  proof (cases res)
    case (Inl e)
    then have "ReconcileBank pages r t b w = Some ([e], w1)" by (simp add: ReconcileBank_def run)
    then show ?thesis by blast
  next
    case (Inr ms)
    then have "ReconcileBank pages r t b w = Some (reconcile_members r t b ms w1)" by (simp add: ReconcileBank_def run)
    then show ?thesis by (metis surj_pair)
  qed
qed

theorem ReconcileBank_terminates_witness:
  "\<exists>es w'. ReconcileBank 3 demo_config ''acme'' demo_bank (demo_rworld\<lparr>faults := [Works, Works, Fails, Lost_reply]\<rparr>) =
     Some (es, w')"
proof (rule ReconcileBank_terminates)
  show "bank_inv (dbs (demo_rworld\<lparr>faults := [Works, Works, Fails, Lost_reply]\<rparr>) ''acme'')"
    "times_ok (dbs (demo_rworld\<lparr>faults := [Works, Works, Fails, Lost_reply]\<rparr>) ''acme'')"
    using demo_tables by simp_all
qed code_simp

text \<open>
  C2: one pass brings a bank to its desired count. When the database and the launcher work and new
  ids are fresh, the members that are not draining are exactly as many as the bank asks for after
  the pass, for a bank that queues its excess jobs or signs in on a subscription.
\<close>

theorem ReconcileBank_converges:
  fixes w :: "'x rworld_scheme"
  assumes "calm b t w" "bank_inv (dbs w t)" "times_ok (dbs w t)"
    and "length (members_of (b_id b) (dbs w t)) < pages" "length (members_of (b_id b) (dbs w t)) < 2 ^ 31"
    and "0 \<le> b_desired_count b" "b_desired_count b < 2 ^ 31"
    and "b_spill_policy b \<noteq> SpillEphemeral \<or> b_login_shape b = LoginShapeSubscription"
  shows "\<exists>es w'. ReconcileBank pages r t b w = Some (es, w') \<and>
    card (counted b (rows t w')) = nat (b_desired_count b)"
proof -
  let ?ms = "sort_key member_key (members_of (b_id b) (dbs w t))"
  have w: "faults w = []" "valid_tenant w t" using assms(1) by (simp_all add: calm_def)
  have read: "allMembers pages t (b_id b) [] [] w = Some (Inr ?ms, w)"
    using assms(2,3) w assms(4) by (rule allMembers_read)
  have ids: "distinct (map m_id (members (dbs w t)))" using assms(2) by (simp add: bank_inv_def)
  have row: "rows t w (m_id m) = Some m" if "m \<in> set (members (dbs w t))" for m
    unfolding rows_def member_row_def using ids that by (rule find_key)
  have "\<exists>es w'. reconcile_members r t b ?ms w = (es, w') \<and> card (counted b (rows t w')) = nat (b_desired_count b)"
  proof (rule calm_reconcile_members [OF assms(1)])
    show "rows t w (m_id m) = Some m \<and> m_bank m = b_id b" if "m \<in> set ?ms" for m
      using that row by (simp add: members_of_def)
    have perm: "mset (map m_id ?ms) = mset (map m_id (members_of (b_id b) (dbs w t)))" by simp
    have "distinct (map m_id (members_of (b_id b) (dbs w t)))" using ids by (simp add: members_of_def distinct_map_filter)
    then show "distinct (map m_id ?ms)" by (rule iffD2 [OF mset_eq_imp_distinct_iff [OF perm]])
    show "m \<in> set ?ms" if "rows t w i = Some m" "m_bank m = b_id b" for i m
      using that by (auto simp: rows_def members_of_def dest: member_row_Some)
    show "length ?ms < 2 ^ 31" using assms(5) by simp
  qed (use assms(6-8) in simp_all)
  then obtain es w' where pass: "reconcile_members r t b ?ms w = (es, w')"
    and card: "card (counted b (rows t w')) = nat (b_desired_count b)" by blast
  have "ReconcileBank pages r t b w = Some (es, w')"
    by (simp only: ReconcileBank_def read pass option.case prod.case sum.case)
  then show ?thesis using card by blast
qed

theorem ReconcileBank_converges_witness:
  "\<exists>es w'. ReconcileBank 3 demo_config ''acme'' demo_bank demo_rworld = Some (es, w') \<and>
     card (counted demo_bank (rows ''acme'' w')) = 1"
proof -
  have "length (members_of (b_id demo_bank) (dbs demo_rworld ''acme'')) < 3" by code_simp
  moreover from this have "length (members_of (b_id demo_bank) (dbs demo_rworld ''acme'')) < 2 ^ 31" by simp
  ultimately show ?thesis using ReconcileBank_converges [OF demo_calm demo_tables, of 3 demo_config]
    by (simp add: demo_bank_def)
qed






text \<open>
  C35: the order in which members are drained is the stable sort by jobs in flight and then by age.
\<close>

theorem drainOrder_sorts:
  "drainOrder live = sort_key (\<lambda>m. (m_jobs_in_flight m, m_created_at m)) live"
proof -
  have "drain_key = (\<lambda>m. (m_jobs_in_flight m, m_created_at m))" by (simp add: fun_eq_iff drain_key_def)
  then show ?thesis using drainOrder_sort by metis
qed

lemma go_div_ceil:
  assumes "0 < waiting" "waiting < 2 ^ 62" "cap < 2 ^ 31"
  shows "go_div (to_int64 (waiting + max cap 1 - 1)) (max cap 1) = (waiting + max cap 1 - 1) div max cap 1"
proof -
  have "to_int64 (waiting + max cap 1 - 1) = waiting + max cap 1 - 1"
    using assms by (intro to_int64_id) (simp_all add: max_def)
  then show ?thesis using assms(1) by (simp add: go_div_nonneg)
qed

text \<open>
  The extra members of a bank that spills are one for each job cap of waiting jobs, rounded up,
  at most the desired count and at least one; and a desired count below \<open>2 ^ 30\<close> keeps the target
  within twice that count, or within one for a bank of none.
\<close>

theorem spillMembers_exact:
  assumes "waiting < 2 ^ 62" "cap < 2 ^ 31" "0 \<le> limit" "limit < 2 ^ 30"
  shows "spillMembers waiting cap limit =
      (if waiting \<le> 0 then 0 else min (max limit 1) ((waiting + max cap 1 - 1) div max cap 1)) \<and>
    to_int32 (limit + spillMembers waiting cap limit) \<le> max (2 * limit) 1 \<and>
    limit \<le> to_int32 (limit + spillMembers waiting cap limit)"
proof -
  define n where "n = (waiting + max cap 1 - 1) div max cap 1"
  have spill: "spillMembers waiting cap limit = (if waiting \<le> 0 then 0 else min (max limit 1) n)"
  proof (cases "waiting \<le> 0")
    case False
    then have n: "go_div (to_int64 (waiting + max cap 1 - 1)) (max cap 1) = n"
      using go_div_ceil [of waiting cap] assms(1,2) by (simp add: n_def)
    have cap: "(if cap < 1 then 1 else cap) = max cap 1" by simp
    have "0 \<le> n" using False by (simp add: n_def pos_imp_zdiv_nonneg_iff)
    then have "to_int32 n = n" if "n \<le> max limit 1" using that assms(4) by (intro to_int32_id) (simp_all add: max_def split: if_splits)
    then show ?thesis using False by (cases "n \<le> max limit 1") (auto simp: spillMembers_def Let_def cap n)
  qed (simp add: spillMembers_def)
  have "0 < waiting \<Longrightarrow> 0 \<le> n" by (simp add: n_def pos_imp_zdiv_nonneg_iff)
  then have bounds: "0 \<le> k" "k \<le> max limit 1" if "k = (if waiting \<le> 0 then 0 else min (max limit 1) n)" for k
    using that by auto
  have in_range: "to_int32 (limit + k) = limit + k" if "0 \<le> k" "k \<le> max limit 1" for k
    using that assms(3,4) by (intro to_int32_id) (simp_all add: max_def split: if_splits)
  have "limit + k \<le> max (2 * limit) 1" if "k \<le> max limit 1" for k
    using that assms(3) by (simp add: max_def split: if_splits)
  then show ?thesis using spill in_range bounds [OF spill] unfolding n_def by simp
qed

theorem spillMembers_exact_witness: "spillMembers 5 2 4 = 3"
  using spillMembers_exact [of 5 2 4] by simp

text \<open>
  For a larger desired count the 32-bit sum overflows: a spilling bank that asks for the largest
  count and has one waiting job gets a negative target.
\<close>

definition spill_world :: rworld where
  "spill_world = snd (Open ''acme'' (demo_open []) demo_rworld)"

theorem targetCount_overflows:
  "fst (targetCount ''acme'' (demo_bank\<lparr>b_spill_policy := SpillEphemeral, b_desired_count := 2147483647\<rparr>)
     spill_world) = Inr (- 2147483648)"
  by code_simp







definition claimed_world :: rworld where
  "claimed_world = snd (Claim ''acme'' ''b1'' ''m1'' spill_world)"


text \<open>
  Draining does not release. A member that claimed a job after its last heartbeat still reads
  as idle, so a pass that drains it removes its row at once; the open job then names a member that
  does not exist, is not in the queue, and is counted by nobody.
\<close>

definition stopped_bank :: bank where
  "stopped_bank = demo_bank\<lparr>b_desired_count := 0\<rparr>"

theorem drain_strands_job:
  "case ReconcileBank 3 demo_config ''acme'' stopped_bank claimed_world of
     None \<Rightarrow> False
   | Some (es, w') \<Rightarrow>
       es = [] \<and> members (dbs w' ''acme'') = [] \<and>
       map (\<lambda>j. (j_state j, j_member j)) (jobs (dbs w' ''acme'')) = [(StateOpen, ''m1'')] \<and>
       fst (Unassigned ''acme'' ''b1'' w') = Inr 0"
  by code_simp

text \<open>
  A member drained and removed in a pass is still in the list the idle rule reads: an idle
  member of a stopped bank is stopped, then asked to suspend, and the pass reports that its row is
  missing.
\<close>

definition idle_world :: rworld where
  "idle_world = demo_rworld\<lparr>clock := \<lambda>_. 3600000000,
     dbs := \<lambda>_. demo_db\<lparr>members := [(demo_member ''m1'')\<lparr>m_last_heartbeat := Some 3600000000, m_idle_since := Some 0\<rparr>]\<rparr>\<rparr>"

theorem drained_then_suspended:
  "case ReconcileBank 3 demo_config ''acme'' stopped_bank idle_world of
     None \<Rightarrow> False
   | Some (es, w') \<Rightarrow>
       es = [ErrNotFound Pkg_bank ''m1''] \<and> launcher_calls w' = [StopMember ''m1'', SuspendMember ''m1'']"
  by code_simp

end
