(* ===== verification/JobNode.thy ===== *)
theory JobNode
  imports BankProperties
begin

text \<open>
  A job node of a mission (\<open>internal/engine/jobnode\<close>: \<open>executor.go\<close>, \<open>inputs.go\<close>). The node opens a
  job, waits for each turn, has the verifier judge it, sends the report back while passes remain, and
  closes the job.

  The node works on the job store of \<open>JobStore\<close>. Everybody else who uses the stores acts while the
  node waits: between two polls (\<open>polls\<close>, one batch of operations per tick) and while the verifier
  works (\<open>judging\<close>). When the list of batches ends, the bound of the node has ended. The length of
  the poll interval is not modelled. The verifier and the resolver of findings are functions of the
  request that may fail; the verifier's answer may differ from call to call. The error of a call is
  kept with the step it came from, the message of an error is not.
\<close>

section \<open>Requests, reports and outcomes\<close>

record report =
  rp_pass :: bool
  rp_score :: float64
  rp_report :: string

record verify_payload =
  vp_job :: string
  vp_goal :: string
  vp_pass :: int
  vp_inputs :: "string list"
  vp_deliverables :: "deliverable list"

record closed_job =
  cj_tenant :: string
  cj_mission_run :: string
  cj_node :: string
  cj_job :: string
  cj_inputs :: "string list"
  cj_deliverables :: "result_deliverable list"

type_synonym verifier = "nat \<Rightarrow> string \<Rightarrow> verify_payload \<Rightarrow> err + report"

type_synonym batches = "(string \<times> store_op) list list"

text \<open>\<open>Input\<close>: a collaborator that may be nil is an option, or a flag where the model has only one.\<close>

record node_input =
  ni_tenant :: string
  ni_mission_run :: string
  ni_node :: string
  ni_bank :: string
  ni_spec :: "job_spec option"
  ni_opener :: principal
  ni_ops :: bool
  ni_verifier :: "verifier option"
  ni_closed :: bool
  ni_findings :: "(string \<Rightarrow> string \<Rightarrow> err + string list) option"

text \<open>\<open>Outcome\<close>: no result is the zero value.\<close>

record outcome =
  oc_result :: "job_result option"
  oc_passes :: int
  oc_report :: string

definition no_outcome :: outcome where
  "no_outcome = \<lparr>oc_result = None, oc_passes = 0, oc_report = []\<rparr>"

datatype node_err =
    NodeInvalid | NodeNoResolver | NodeFindings err | NodeUnknownReference string
  | NodeOpen err | NodeEvents err | NodeBound | NodeReadClosed err | NodeResult err
  | ErrClosedElsewhere | NodeReadJob err | NodeVerifier err | NodeSend err | NodeClose verdict err
  | Abandoned node_err | NotAbandoned node_err err

record nworld = world +
  verifications :: "(string \<times> verify_payload) list"
  judging :: batches
  observed :: "closed_job list"

definition eventBatch :: int where "eventBatch = 200"

definition validate :: "node_input \<Rightarrow> bool" where
  "validate inp =
     (if \<not> ni_ops inp then False
      else if ni_verifier inp = None then False
      else if \<not> ni_closed inp then False
      else if ni_tenant inp = [] \<or> ni_bank inp = [] then False
      else if (case ni_spec inp of None \<Rightarrow> True | Some s \<Rightarrow> sp_goal s = []) then False
      else if p_id (ni_opener inp) = [] then False
      else True)"

section \<open>Input references\<close>

definition FindingsOpen :: string where
  "FindingsOpen = ''{{findings.open}}''"

definition isReference :: "string \<Rightarrow> bool" where
  "isReference entry =
     (let e = TrimSpace entry in HasPrefix e ''{{'' \<and> HasSuffix e ''}}'')"

definition hasReference :: "string list \<Rightarrow> bool" where
  "hasReference ins = list_ex isReference ins"

text \<open>The closure \<open>add\<close>: the ids in order, without the empty one and without a repeat.\<close>

definition add_id :: "string \<Rightarrow> string list \<Rightarrow> string list" where
  "add_id i ids = (if i = [] \<or> i \<in> set ids then ids else ids @ [i])"

fun resolve_entries :: "node_input \<Rightarrow> string list \<Rightarrow> string list \<Rightarrow> node_err + string list" where
  "resolve_entries inp [] acc = Inr acc"
| "resolve_entries inp (entry # rest) acc =
     (if TrimSpace entry = FindingsOpen then
        (case ni_findings inp of
           None \<Rightarrow> Inl NodeNoResolver
         | Some open_findings \<Rightarrow>
             (case open_findings (ni_tenant inp) (ni_mission_run inp) of
                Inl e \<Rightarrow> Inl (NodeFindings e)
              | Inr ids \<Rightarrow> resolve_entries inp rest (fold add_id (sort ids) acc)))
      else if isReference entry then Inl (NodeUnknownReference entry)
      else resolve_entries inp rest (add_id entry acc))"

definition resolveInputs :: "node_input \<Rightarrow> job_spec \<Rightarrow> node_err + job_spec" where
  "resolveInputs inp spec =
     (if \<not> hasReference (sp_inputs spec) then Inr spec
      else case resolve_entries inp (sp_inputs spec) [] of
             Inl e \<Rightarrow> Inl e
           | Inr ids \<Rightarrow> Inr (spec\<lparr>sp_inputs := ids\<rparr>))"

definition stampContext :: "job_spec \<Rightarrow> string \<Rightarrow> string \<Rightarrow> job_spec" where
  "stampContext spec missionRunID nodeID =
     (let c = sp_context spec;
          c = (if missionRunID \<noteq> [] then AList.update ''mission_run_id'' (StringValue missionRunID) c else c);
          c = (if nodeID \<noteq> [] then AList.update ''node_id'' (StringValue nodeID) c else c)
      in spec\<lparr>sp_context := c\<rparr>)"

section \<open>Waiting for a turn\<close>

record turn_end =
  te_seq :: int
  te_closed :: bool

text \<open>The loop over one batch of events: the end of the turn, or how far the batch went.\<close>

fun scan_events :: "int \<Rightarrow> job_event list \<Rightarrow> turn_end + int" where
  "scan_events since [] = Inr since"
| "scan_events since (ev # evs) =
     (if ev_kind ev = EventClosed then Inl \<lparr>te_seq = ev_seq ev, te_closed = True\<rparr>
      else if ev_kind ev = EventState \<and> ev_state ev = StateWaiting
      then Inl \<lparr>te_seq = ev_seq ev, te_closed = False\<rparr>
      else scan_events (ev_seq ev) evs)"

fun WaitForTurn ::
  "string \<Rightarrow> string \<Rightarrow> int \<Rightarrow> batches \<Rightarrow> 'x world_scheme \<Rightarrow>
     (node_err + turn_end) \<times> batches \<times> 'x world_scheme" where
  "WaitForTurn t i since polls w =
     (case Events t i since eventBatch w of
        (Inl e, w1) \<Rightarrow> (Inl (NodeEvents e), polls, w1)
      | (Inr evs, w1) \<Rightarrow>
          (case scan_events since evs of
             Inl turn \<Rightarrow> (Inr turn, polls, w1)
           | Inr since' \<Rightarrow>
               (case polls of
                  [] \<Rightarrow> (Inl NodeBound, [], w1)
                | ops # rest \<Rightarrow> WaitForTurn t i since' rest (run_store_ops ops w1))))"

declare WaitForTurn.simps [simp del]

section \<open>Judging and closing\<close>

definition verifier_component :: "job_spec \<Rightarrow> string" where
  "verifier_component spec = (case sp_acceptance spec of None \<Rightarrow> [] | Some a \<Rightarrow> a_verifier_component a)"

definition passing_score :: "job_spec \<Rightarrow> float64" where
  "passing_score spec = (case sp_acceptance spec of None \<Rightarrow> Fin 0 | Some a \<Rightarrow> a_passing_score a)"

definition max_passes :: "job_spec \<Rightarrow> int" where
  "max_passes spec =
     (let n = (case sp_acceptance spec of None \<Rightarrow> 0 | Some a \<Rightarrow> a_max_passes a)
      in if n \<le> 0 then 1 else n)"

definition while_judging :: "'x nworld_scheme \<Rightarrow> 'x nworld_scheme" where
  "while_judging w =
     (case judging w of [] \<Rightarrow> w | ops # rest \<Rightarrow> run_store_ops ops (w\<lparr>judging := rest\<rparr>))"

definition judge ::
  "node_input \<Rightarrow> verifier \<Rightarrow> string \<Rightarrow> int \<Rightarrow> job_spec \<Rightarrow> 'x nworld_scheme \<Rightarrow>
     (node_err + report) \<times> 'x nworld_scheme" where
  "judge inp verify i pass spec w =
     (let component = verifier_component spec
      in if component = [] then (Inr \<lparr>rp_pass = True, rp_score = Fin 1, rp_report = []\<rparr>, w)
         else case Get (ni_tenant inp) i w of
                (Inl e, w1) \<Rightarrow> (Inl (NodeReadJob e), w1)
              | (Inr j, w1) \<Rightarrow>
                  (let payload = \<lparr>vp_job = i, vp_goal = sp_goal spec, vp_pass = pass,
                                  vp_inputs = sp_inputs spec, vp_deliverables = j_deliverables j\<rparr>;
                       answer = verify (length (verifications w1)) component payload;
                       w2 = while_judging (w1\<lparr>verifications := verifications w1 @ [(component, payload)]\<rparr>)
                   in case answer of
                        Inl e \<Rightarrow> (Inl (NodeVerifier e), w2)
                      | Inr rep \<Rightarrow> (Inr rep, w2)))"

definition accepted :: "job_spec \<Rightarrow> report \<Rightarrow> bool" where
  "accepted spec rep \<longleftrightarrow> rp_pass rep \<and> flt_ge (rp_score rep) (passing_score spec)"

definition closeWith ::
  "node_input \<Rightarrow> job_spec \<Rightarrow> string \<Rightarrow> verdict \<Rightarrow> float64 \<Rightarrow> int \<Rightarrow> string \<Rightarrow> 'x nworld_scheme \<Rightarrow>
     (outcome \<times> node_err option) \<times> 'x nworld_scheme" where
  "closeWith inp spec i verdict score pass msg w =
     (case Close (ni_tenant inp) \<lparr>ci_job = i, ci_verdict = verdict, ci_score = score, ci_closer = ni_opener inp\<rparr> w of
        (Inl e, w1) \<Rightarrow> ((no_outcome, Some (NodeClose verdict e)), w1)
      | (Inr j, w1) \<Rightarrow>
          (case ResultOf (Some j) of
             Inl e \<Rightarrow> ((no_outcome, Some (NodeResult e)), w1)
           | Inr result \<Rightarrow>
               ((\<lparr>oc_result = Some result, oc_passes = pass, oc_report = msg\<rparr>, None),
                if verdict = VerdictAccomplished
                then w1\<lparr>observed := observed w1 @
                  [\<lparr>cj_tenant = ni_tenant inp, cj_mission_run = ni_mission_run inp, cj_node = ni_node inp,
                    cj_job = i, cj_inputs = sp_inputs spec, cj_deliverables = rs_deliverables result\<rparr>]\<rparr>
                else w1)))"

text \<open>The close of \<open>abandon\<close> runs on a bound of its own, so it is tried even when the node's has ended.\<close>

definition abandon ::
  "node_input \<Rightarrow> string \<Rightarrow> int \<Rightarrow> string \<Rightarrow> node_err \<Rightarrow> 'x nworld_scheme \<Rightarrow>
     (outcome \<times> node_err option) \<times> 'x nworld_scheme" where
  "abandon inp i pass msg cause w =
     (let out = \<lparr>oc_result = None, oc_passes = pass, oc_report = msg\<rparr>
      in case Close (ni_tenant inp)
                \<lparr>ci_job = i, ci_verdict = VerdictAbandoned, ci_score = Fin 0, ci_closer = ni_opener inp\<rparr> w of
           (Inl e, w1) \<Rightarrow> ((out, Some (NotAbandoned cause e)), w1)
         | (Inr j, w1) \<Rightarrow> ((out, Some (Abandoned cause)), w1))"

definition closed_elsewhere ::
  "node_input \<Rightarrow> string \<Rightarrow> int \<Rightarrow> string \<Rightarrow> 'x nworld_scheme \<Rightarrow>
     (outcome \<times> node_err option) \<times> 'x nworld_scheme" where
  "closed_elsewhere inp i pass msg w =
     (case Get (ni_tenant inp) i w of
        (Inl e, w1) \<Rightarrow> ((no_outcome, Some (NodeReadClosed e)), w1)
      | (Inr j, w1) \<Rightarrow>
          (case ResultOf (Some j) of
             Inl e \<Rightarrow> ((no_outcome, Some (NodeResult e)), w1)
           | Inr result \<Rightarrow>
               ((\<lparr>oc_result = Some result, oc_passes = pass, oc_report = msg\<rparr>, Some ErrClosedElsewhere), w1)))"

section \<open>The loop\<close>

definition report_turn :: "node_input \<Rightarrow> string \<Rightarrow> report \<Rightarrow> send_input" where
  "report_turn inp i rep =
     \<lparr>si_job = i, si_kind = InputTurn, si_message = rp_report rep, si_sender = ni_opener inp\<rparr>"

function node_loop ::
  "node_input \<Rightarrow> verifier \<Rightarrow> job_spec \<Rightarrow> string \<Rightarrow> int \<Rightarrow> int \<Rightarrow> string \<Rightarrow> batches \<Rightarrow> 'x nworld_scheme \<Rightarrow>
     (outcome \<times> node_err option) \<times> 'x nworld_scheme" where
  "node_loop inp verify spec i pass since msg polls w =
     (case WaitForTurn (ni_tenant inp) i since polls w of
        (Inl e, _, w1) \<Rightarrow> abandon inp i pass msg e w1
      | (Inr turn, polls, w1) \<Rightarrow>
          if te_closed turn then closed_elsewhere inp i pass msg w1
          else (case judge inp verify i pass spec w1 of
                  (Inl e, w2) \<Rightarrow> abandon inp i pass msg e w2
                | (Inr rep, w2) \<Rightarrow>
                    if accepted spec rep
                    then closeWith inp spec i VerdictAccomplished (rp_score rep) pass (rp_report rep) w2
                    else if pass \<ge> max_passes spec
                    then closeWith inp spec i VerdictFailed (rp_score rep) pass (rp_report rep) w2
                    else (case Send (ni_tenant inp) (report_turn inp i rep) w2 of
                            (Inl e, w3) \<Rightarrow> abandon inp i pass (rp_report rep) (NodeSend e) w3
                          | (Inr _, w3) \<Rightarrow>
                              node_loop inp verify spec i (pass + 1) (te_seq turn) (rp_report rep) polls w3)))"
  by pat_completeness auto
termination
  by (relation "measure (\<lambda>(inp, verify, spec, i, pass, since, msg, polls, w). nat (max_passes spec - pass))") auto

declare node_loop.simps [simp del]

definition Node_Run :: "batches \<Rightarrow> node_input \<Rightarrow> 'x nworld_scheme \<Rightarrow>
     (outcome \<times> node_err option) \<times> 'x nworld_scheme" where
  "Node_Run polls inp w =
     (if \<not> validate inp then ((no_outcome, Some NodeInvalid), w)
      else case (ni_verifier inp, ni_spec inp) of
             (Some verify, Some spec) \<Rightarrow>
               (case resolveInputs inp spec of
                  Inl e \<Rightarrow> ((no_outcome, Some e), w)
                | Inr resolved \<Rightarrow>
                    (let spec = stampContext resolved (ni_mission_run inp) (ni_node inp)
                     in case Open (ni_tenant inp) \<lparr>oi_bank = ni_bank inp, oi_member = [], oi_spec = Some spec,
                               oi_opened_by = ni_opener inp\<rparr> w of
                          (Inl e, w1) \<Rightarrow> ((no_outcome, Some (NodeOpen e)), w1)
                        | (Inr j, w1) \<Rightarrow> node_loop inp verify spec (j_id j) 1 0 [] polls w1))
           | _ \<Rightarrow> ((no_outcome, Some NodeInvalid), w))"

end
