(* ===== verification/StoreFrame.thy ===== *)
theory StoreFrame
  imports BankProperties
begin

text \<open>
  What the operations of the stores leave alone: a caller that extends the world with state of its
  own finds that state unchanged after every operation, whether it succeeds or not.
\<close>

definition frame :: "('x world_scheme, 'a) action \<Rightarrow> bool" where
  "frame m \<longleftrightarrow> (\<forall>w. world.more (snd (m w)) = world.more w)"

lemma frameD: "frame m \<Longrightarrow> m w = (r, w') \<Longrightarrow> world.more w' = world.more w"
  unfolding frame_def by (metis snd_conv)

lemma frame_simple [intro]:
  "frame (ret x)" "frame (fail e)" "frame read_clock" "frame NewID"
  by (simp_all add: frame_def ret_def fail_def read_clock_def NewID_def)

lemma frame_from_option [intro]: "frame (from_option e xo)"
  by (cases xo) (simp_all add: from_option_def frame_simple)

lemma frame_query [intro]: "frame (query t q)"
  by (simp add: frame_def query_def take_fault_def split: fault.splits)

lemma frame_exec [intro]: "frame (exec t st)"
  by (simp add: frame_def exec_def take_fault_def split: fault.splits sum.splits prod.splits)

lemma frame_bnd: "frame m \<Longrightarrow> (\<And>x. frame (f x)) \<Longrightarrow> frame (bnd m f)"
  by (simp add: frame_def bnd_def split: prod.splits sum.splits) (metis snd_conv)

lemma frame_handle: "frame m \<Longrightarrow> (\<And>e. frame (h e)) \<Longrightarrow> frame (handle m h)"
  by (simp add: frame_def handle_def split: prod.splits sum.splits) (metis snd_conv)

lemma frame_with_conn: "frame m \<Longrightarrow> frame (with_conn t m)"
  by (simp add: frame_def with_conn_def take_fault_def split: fault.splits)

lemma frame_InTx:
  assumes "frame body" shows "frame (InTx t body)"
proof -
  have "world.more w2 = world.more w" if "body (w\<lparr>faults := tl (faults w)\<rparr>) = (r, w2)" for w w2 r
    using frameD [OF assms that] by simp
  then show ?thesis
    by (simp add: frame_def InTx_def take_fault_def split: fault.splits prod.splits sum.splits)
qed

lemma frame_check: "frame (\<lambda>w. if c w then ret x w else fail e w)"
  by (simp add: frame_def ret_def fail_def)

lemma frame_cases:
  "frame m \<Longrightarrow> frame n \<Longrightarrow> frame (if c then m else n)"
  "frame m \<Longrightarrow> (\<And>x. frame (f x)) \<Longrightarrow> frame (case xo of None \<Rightarrow> m | Some x \<Rightarrow> f x)"
  "(\<And>x. frame (g x)) \<Longrightarrow> (\<And>y. frame (h y)) \<Longrightarrow> frame (case s of Inl x \<Rightarrow> g x | Inr y \<Rightarrow> h y)"
  by (simp, cases xo, simp_all, cases s, simp_all)

lemmas frame_rules = frame_simple frame_from_option frame_query frame_exec frame_with_conn frame_InTx
  frame_check frame_cases frame_bnd frame_handle

lemma frame_job_ops:
  "frame (Open t oi)" "frame (Get t i)" "frame (Send t si)" "frame (Close t ci)" "frame (Claim t b mid)"
  "frame (PendingInputs t mid n)" "frame (Acknowledge t i)" "frame (SetState t i s ses)"
  "frame (AddDeliverable t i dvo)" "frame (Events t i since n)" "frame (ReleaseMember t mid)"
  "frame (Stale t b secs n)" "frame (Unassigned t b)" "frame (Job_List t f n tok)"
  unfolding Open_def Get_def Send_def Close_def Claim_def PendingInputs_def Acknowledge_def SetState_def
    AddDeliverable_def Events_def ReleaseMember_def Stale_def Unassigned_def Job_List_def tx_defs
  by (intro frame_rules)+

lemma frame_bank_ops:
  "frame (Bank_Create t ci)" "frame (Bank_Get t i)" "frame (Bank_List t n tok)" "frame (Bank_Update t i up)"
  "frame (Bank_Delete t i)" "frame (ListAll t)" "frame (ListMembers t b n tok)" "frame (GetMember t i)"
  "frame (MemberByRun t r)" "frame (AddMember t mo)" "frame (UpdateMemberStatus t i st)"
  "frame (SetMemberState t i ms)" "frame (RemoveMember t i)"
  unfolding Bank_Create_def Bank_Get_def Bank_List_def Bank_Update_def Bank_Delete_def ListAll_def ListMembers_def
    GetMember_def MemberByRun_def AddMember_def UpdateMemberStatus_def SetMemberState_def RemoveMember_def Let_def
  by (intro frame_rules)+

lemma frame_store_op: "frame (run_store_op t op)"
proof (cases op)
  case (JobOp x)
  then show ?thesis by (cases x) (simp_all add: frame_bnd frame_job_ops frame_simple)
next
  case (BankOp x)
  then show ?thesis by (cases x) (simp_all add: frame_bnd frame_bank_ops frame_simple)
qed

lemma run_store_ops_more: "world.more (run_store_ops ops w) = world.more w"
proof (induction ops arbitrary: w)
  case (Cons top ops)
  obtain t op where top: "top = (t, op)" by force
  have "world.more (snd (run_store_op t op w)) = world.more w"
    using frame_store_op [of t op] unfolding frame_def by blast
  then show ?case using Cons.IH by (simp add: run_store_ops_def top)
qed (simp add: run_store_ops_def)

end
