(* ===== verification/NodeTurns.thy ===== *)
theory NodeTurns
  imports JobNode StoreFrame
begin

text \<open>
  Which event ends a turn. The events of a job only grow while its bank is not deleted, so polling
  from a number on sees every later event exactly once, and \<open>WaitForTurn\<close> stops at the first one
  that closes the job or reports it waiting.
\<close>

section \<open>The events of a job grow\<close>

definition grows :: "string \<Rightarrow> tenant_db \<Rightarrow> tenant_db \<Rightarrow> bool" where
  "grows i d d' \<longleftrightarrow> (job_inv d \<longrightarrow> job_inv d' \<and> (\<exists>es. events_of i d' = events_of i d @ es))"

interpretation growing: db_preorder "grows i" for i
  by unfold_locales (auto simp: grows_def)

lemma job_step_grows: "job_step d d' \<Longrightarrow> grows i d d'"
  using job_step_inv [of d d'] by (auto simp: grows_def elim: job_step.cases)

lemma run_job_op_grows: "effect t (grows i) (run_job_op t op)"
  by (rule effect_mono [OF run_job_op_refines]) (auto simp: growing.refl job_step_grows)

interpretation same_events: db_preorder "\<lambda>d d'. events d' = events d"
  by unfold_locales auto

lemma keeps_events:
  "effect t (\<lambda>d d'. events d' = events d) (Bank_Create t inp)"
  "effect t (\<lambda>d d'. events d' = events d) (Bank_Update t i up)"
  "effect t (\<lambda>d d'. events d' = events d) (AddMember t mo)"
  "effect t (\<lambda>d d'. events d' = events d) (UpdateMemberStatus t i st)"
  "effect t (\<lambda>d d'. events d' = events d) (SetMemberState t i s)"
  "effect t (\<lambda>d d'. events d' = events d) (RemoveMember t i)"
  unfolding Bank_Create_def Bank_Update_def AddMember_def UpdateMemberStatus_def SetMemberState_def
    RemoveMember_def Let_def
  by (intro same_events.effect_rules effect_cases same_events.effect_handle_fail;
      auto simp: statements_Inr insert_member_Inr set_bank_def set_member_def without_member_def)+

lemma same_events_grows:
  assumes "effect t bank_step\<^sup>=\<^sup>= m" "effect t (\<lambda>d d'. events d' = events d) m" shows "effect t (grows i) m"
  using effect_conj [OF assms]
proof (rule effect_mono)
  show "grows i d d'" if "bank_step\<^sup>=\<^sup>= d d' \<and> events d' = events d" for d d'
    using that bank_step_job_inv [of d d'] by (auto simp: grows_def events_of_def)
qed

lemmas bank_ops_grow = same_events_grows [OF Bank_Create_refines keeps_events(1)]
  same_events_grows [OF Bank_Update_refines keeps_events(2)] same_events_grows [OF AddMember_refines keeps_events(3)]
  same_events_grows [OF UpdateMemberStatus_refines keeps_events(4)]
  same_events_grows [OF SetMemberState_refines keeps_events(5)]
  same_events_grows [OF RemoveMember_refines keeps_events(6)]

lemma reader_grows: "effect t (=) m \<Longrightarrow> effect t (grows i) m"
  by (erule effect_mono) (simp add: growing.refl)

definition deletes_bank :: "string \<Rightarrow> string \<times> store_op \<Rightarrow> bool" where
  "deletes_bank t o_op \<longleftrightarrow> fst o_op = t \<and> (case snd o_op of BankOp (OpBankDelete _) \<Rightarrow> True | _ \<Rightarrow> False)"

lemma run_store_op_grows:
  assumes "\<not> deletes_bank t (t, op)" shows "effect t (grows i) (run_store_op t op)"
proof (cases op)
  case (JobOp x)
  then show ?thesis using run_job_op_grows by simp
next
  case (BankOp x)
  with assms have "x \<noteq> OpBankDelete b" for b by (auto simp: deletes_bank_def)
  with BankOp show ?thesis
    by (cases x) (auto intro: growing.effect_bnd_ret bank_ops_grow bank_readers [THEN reader_grows])
qed

lemma run_store_ops_grows:
  assumes "\<not> list_ex (deletes_bank t) ops" shows "grows i (dbs w t) (dbs (run_store_ops ops w) t)"
  using assms
proof (induction ops arbitrary: w)
  case (Cons top ops)
  obtain t' op where top: "top = (t', op)" by force
  obtain d where d: "dbs (snd (run_store_op t' op w)) = (dbs w)(t' := d)"
    by (rule effectE [OF run_store_op_refines, where w = w, OF surjective_pairing])
  have "grows i (dbs w t) (dbs (snd (run_store_op t' op w)) t)"
  proof (cases "t' = t")
    case True
    with Cons.prems have "effect t (grows i) (run_store_op t op)" by (intro run_store_op_grows) (simp add: top)
    then obtain d' where "dbs (snd (run_store_op t op w)) = (dbs w)(t := d')" "grows i (dbs w t) d'"
      by (rule effectE [where w = w, OF _ surjective_pairing])
    then show ?thesis by (simp add: True)
  qed (simp add: d growing.refl)
  from growing.trans [OF this Cons.IH] Cons.prems show ?case by (simp add: run_store_ops_def top)
qed (simp add: run_store_ops_def growing.refl)

section \<open>The first end of a turn\<close>

definition ends_turn :: "job_event \<Rightarrow> bool" where
  "ends_turn e \<longleftrightarrow> ev_kind e = EventClosed \<or> (ev_kind e = EventState \<and> ev_state e = StateWaiting)"

definition end_of :: "job_event \<Rightarrow> turn_end" where
  "end_of e = \<lparr>te_seq = ev_seq e, te_closed = (ev_kind e = EventClosed)\<rparr>"

lemma scan_events_Inl:
  "scan_events since es = Inl te \<Longrightarrow>
     \<exists>k < length es. ends_turn (es ! k) \<and> te = end_of (es ! k) \<and> (\<forall>x \<in> set (take k es). \<not> ends_turn x)"
proof (induction since es rule: scan_events.induct)
  case (2 since ev evs)
  show ?case
  proof (cases "ends_turn ev")
    case True
    with 2(2) show ?thesis by (intro exI [of _ 0]) (auto simp: ends_turn_def end_of_def split: if_splits)
  next
    case False
    with 2 obtain k where "k < length evs" "ends_turn (evs ! k)" "te = end_of (evs ! k)"
      "\<forall>x \<in> set (take k evs). \<not> ends_turn x" by (auto simp: ends_turn_def split: if_splits)
    with False show ?thesis by (intro exI [of _ "Suc k"]) simp
  qed
qed simp

lemma scan_events_Inr:
  "scan_events since es = Inr s \<Longrightarrow>
     (\<forall>x \<in> set es. \<not> ends_turn x) \<and> s = (if es = [] then since else ev_seq (last es))"
proof (induction es arbitrary: since)
  case (Cons ev evs)
  have "\<not> ends_turn ev" using Cons.prems by (auto simp: ends_turn_def split: if_splits)
  moreover from this have "scan_events (ev_seq ev) evs = Inr s"
    using Cons.prems unfolding scan_events.simps ends_turn_def by (metis sum.simps(4))
  from Cons.IH [OF this] have "\<forall>x \<in> set evs. \<not> ends_turn x"
    "s = (if evs = [] then ev_seq ev else ev_seq (last evs))" by simp_all
  ultimately show ?case by simp
qed simp

text \<open>An event is the first end of a turn after \<open>since\<close> in a log.\<close>

definition first_end :: "int \<Rightarrow> turn_end \<Rightarrow> job_event list \<Rightarrow> bool" where
  "first_end since te elog \<longleftrightarrow>
     (\<exists>e \<in> set elog. ends_turn e \<and> te = end_of e \<and> since < ev_seq e) \<and>
     (\<forall>x \<in> set elog. since < ev_seq x \<and> ev_seq x < te_seq te \<longrightarrow> \<not> ends_turn x)"

lemma batch_end:
  assumes num: "numbered (map ev_seq elog)" and since: "0 \<le> since"
    and scan: "scan_events since (take n (drop (nat since) elog)) = Inl te"
  shows "first_end since te elog"
proof -
  let ?k0 = "nat since"
  from scan_events_Inl [OF scan] obtain k where k: "k < length (take n (drop ?k0 elog))"
    "ends_turn (take n (drop ?k0 elog) ! k)" "te = end_of (take n (drop ?k0 elog) ! k)"
    "\<forall>x \<in> set (take k (take n (drop ?k0 elog))). \<not> ends_turn x" by blast
  have e: "take n (drop ?k0 elog) ! k = elog ! (?k0 + k)" "?k0 + k < length elog" "k < n" using k(1) by auto
  have seq: "ev_seq (elog ! (?k0 + k)) = since + int k + 1"
    using numbered_nth [OF num e(2)] since by simp
  have "\<not> ends_turn x" if x: "x \<in> set elog" "since < ev_seq x" "ev_seq x < te_seq te" for x
  proof -
    obtain j where j: "j < length elog" "x = elog ! j" using x(1) by (auto simp: in_set_conv_nth)
    have "ev_seq x = int j + 1" using numbered_nth [OF num j(1)] j(2) by simp
    with x(2,3) seq k(3) e(1) have "?k0 \<le> j" "j - ?k0 < k" using since by (auto simp: end_of_def)
    then have "x = take k (take n (drop ?k0 elog)) ! (j - ?k0)" using j e(3) by simp
    moreover have "j - ?k0 < length (take k (take n (drop ?k0 elog)))" using \<open>j - ?k0 < k\<close> k(1) by simp
    ultimately show ?thesis using k(4) nth_mem by metis
  qed
  moreover have "elog ! (?k0 + k) \<in> set elog" using e(2) by simp
  ultimately show ?thesis unfolding first_end_def using k(2,3) e(1) seq by auto
qed

lemma batch_passed:
  assumes num: "numbered (map ev_seq elog)" and since: "0 \<le> since"
    and scan: "scan_events since (take n (drop (nat since) elog)) = Inr s"
  shows "since \<le> s" "x \<in> set elog \<Longrightarrow> since < ev_seq x \<Longrightarrow> ev_seq x \<le> s \<Longrightarrow> \<not> ends_turn x"
    "s = since \<or> s \<le> int (length elog)"
proof -
  let ?es = "take n (drop (nat since) elog)"
  from scan_events_Inr [OF scan] have none: "\<forall>x \<in> set ?es. \<not> ends_turn x"
    and s: "s = (if ?es = [] then since else ev_seq (last ?es))" by blast+
  have len: "s = since + int (length ?es)"
  proof (cases "?es = []")
    case False
    then have "last ?es = elog ! (nat since + length ?es - 1)" "nat since + length ?es - 1 < length elog"
      by (auto simp: last_conv_nth nth_append)
    then show ?thesis using s False numbered_nth [OF num, of "nat since + length ?es - 1"] since
      by (cases "length ?es") auto
  next
    case True
    show ?thesis unfolding s unfolding True by simp
  qed
  show "since \<le> s" using len by simp
  show "s = since \<or> s \<le> int (length elog)"
  proof (cases "?es = []")
    case False
    then show ?thesis using len since by auto
  next
    case True
    show ?thesis unfolding s unfolding True by simp
  qed
  show "\<not> ends_turn x" if x: "x \<in> set elog" "since < ev_seq x" "ev_seq x \<le> s"
  proof -
    obtain j where j: "j < length elog" "x = elog ! j" using x(1) by (auto simp: in_set_conv_nth)
    have "ev_seq x = int j + 1" using numbered_nth [OF num j(1)] j(2) by simp
    then have "since < int j + 1" "int j + 1 \<le> since + int (length ?es)" using x(2,3) len by linarith+
    then have "nat since \<le> j" "j - nat since < length ?es" using since by linarith+
    then have "x = ?es ! (j - nat since)" using j by simp
    with \<open>j - nat since < length ?es\<close> show ?thesis using none nth_mem by metis
  qed
qed

lemma first_end_grown:
  assumes num: "numbered (map ev_seq (elog @ es))" and later: "first_end s te (elog @ es)"
    and "since \<le> s" "s = since \<or> s \<le> int (length elog)"
    and passed: "\<And>x. x \<in> set elog \<Longrightarrow> since < ev_seq x \<Longrightarrow> ev_seq x \<le> s \<Longrightarrow> \<not> ends_turn x"
  shows "first_end since te (elog @ es)"
proof -
  have early: "\<not> ends_turn x" if x: "x \<in> set (elog @ es)" "since < ev_seq x" "ev_seq x \<le> s" for x
  proof -
    obtain j where j: "j < length (elog @ es)" "x = (elog @ es) ! j" using x(1) unfolding in_set_conv_nth by blast
    have "ev_seq x = int j + 1" using numbered_nth [OF num j(1)] j(2) by simp
    with x(2,3) assms(4) have "j < length elog" by auto
    then have "x \<in> set elog" using j(2) by (simp add: nth_append)
    then show ?thesis using passed x(2,3) by blast
  qed
  from later obtain e where e: "e \<in> set (elog @ es)" "ends_turn e" "te = end_of e" "s < ev_seq e"
    unfolding first_end_def by blast
  have "\<not> ends_turn x" if x: "x \<in> set (elog @ es)" "since < ev_seq x" "ev_seq x < te_seq te" for x
  proof (cases "ev_seq x \<le> s")
    case True
    with x(1,2) show ?thesis by (rule early)
  next
    case False
    then have "s < ev_seq x \<and> ev_seq x < te_seq te" using x(3) by simp
    with x(1) later show ?thesis unfolding first_end_def by blast
  qed
  moreover have "since < ev_seq e" using e(4) assms(3) by simp
  ultimately show ?thesis unfolding first_end_def using e(1-3) by blast
qed

lemma WaitForTurn_step:
  assumes "WaitForTurn t i since polls w = (Inr te, rest, w')"
  obtains (ended) es where "Events t i since eventBatch w = (Inr es, w')" "scan_events since es = Inl te"
  | (waited) es w1 s ops polls' where "Events t i since eventBatch w = (Inr es, w1)" "scan_events since es = Inr s"
      "polls = ops # polls'" "WaitForTurn t i s polls' (run_store_ops ops w1) = (Inr te, rest, w')"
proof -
  obtain r w1 where ev: "Events t i since eventBatch w = (r, w1)" by force
  note wait = assms [unfolded WaitForTurn.simps [of t i since polls w]]
  from wait ev obtain es where r: "r = Inr es" by (cases r) auto
  show ?thesis
  proof (cases "scan_events since es")
    case (Inl te')
    with wait ev r show ?thesis by (intro ended [of es]) simp_all
  next
    case (Inr s)
    with wait ev r show ?thesis by (cases polls) (auto intro: waited)
  qed
qed

lemma WaitForTurn_first:
  fixes w :: "'x world_scheme"
  assumes "WaitForTurn t i since polls w = (Inr te, rest, w')" "job_inv (dbs w t)" "0 \<le> since"
    "\<not> list_ex (list_ex (deletes_bank t)) polls"
  shows "first_end since te (events_of i (dbs w' t)) \<and> job_inv (dbs w' t) \<and>
    (\<exists>es. events_of i (dbs w' t) = events_of i (dbs w t) @ es)"
  using assms
proof (induction polls arbitrary: since w)
  case (Nil since w)
  from Nil.prems(1) show ?case
  proof (cases rule: WaitForTurn_step)
    case (ended es)
    note read = Events_Inr [OF Nil.prems(2,3) ended(1)]
    have "first_end since te (events_of i (dbs w t))"
      by (rule batch_end [OF job_invD(5) [OF Nil.prems(2), of i, unfolded seqs_of] Nil.prems(3)
          ended(2) [unfolded read(1)]])
    then show ?thesis using read(2) Nil.prems(2) by simp
  qed simp
next
  case (Cons ops0 polls0 since w)
  note num = job_invD(5) [OF Cons.prems(2), of i, unfolded seqs_of]
  from Cons.prems(1) show ?case
  proof (cases rule: WaitForTurn_step)
    case (ended es)
    note read = Events_Inr [OF Cons.prems(2,3) ended(1)]
    have "first_end since te (events_of i (dbs w t))"
      by (rule batch_end [OF num Cons.prems(3) ended(2) [unfolded read(1)]])
    then show ?thesis using read(2) Cons.prems(2) by simp
  next
    case (waited es w1 s ops polls')
    note read = Events_Inr [OF Cons.prems(2,3) waited(1)]
    note passed = batch_passed [OF num Cons.prems(3) waited(2) [unfolded read(1)]]
    let ?w2 = "run_store_ops ops w1"
    have "grows i (dbs w1 t) (dbs ?w2 t)" using Cons.prems(4) waited(3) by (intro run_store_ops_grows) simp
    then obtain es1 where w2: "job_inv (dbs ?w2 t)" "events_of i (dbs ?w2 t) = events_of i (dbs w t) @ es1"
      using Cons.prems(2) read(2) by (auto simp: grows_def)
    have "0 \<le> s" "\<not> list_ex (list_ex (deletes_bank t)) polls0" using passed(1) Cons.prems(3,4) by simp_all
    moreover have "WaitForTurn t i s polls0 ?w2 = (Inr te, rest, w')" using waited(3,4) by simp
    ultimately have IH: "first_end s te (events_of i (dbs w' t)) \<and> job_inv (dbs w' t) \<and>
        (\<exists>es. events_of i (dbs w' t) = events_of i (dbs ?w2 t) @ es)"
      using Cons.IH [of s ?w2] w2(1) by blast
    then have later: "first_end s te (events_of i (dbs w' t))" "job_inv (dbs w' t)" by simp_all
    from IH w2(2) obtain es2 where elog: "events_of i (dbs w' t) = events_of i (dbs w t) @ es1 @ es2"
      by (metis append_assoc)
    have "first_end since te (events_of i (dbs w' t))"
      unfolding elog
      by (rule first_end_grown [OF job_invD(5) [OF later(2), of i, unfolded seqs_of elog] later(1) [unfolded elog] passed(1,3,2)])
    then show ?thesis using later(2) elog by simp
  qed
qed

end
