(* ===== verification/JobNodeProperties.thy ===== *)
theory JobNodeProperties
  imports NodeTurns
begin

text \<open>
  The properties of a job node: what an outcome says about the verifier's judgement, that the job is
  closed on every way out on which its close worked, which event ends a turn, and what an input
  reference stands for.
\<close>

section \<open>Ways out of the loop\<close>

definition job_closed :: "string \<Rightarrow> string \<Rightarrow> 'x world_scheme \<Rightarrow> bool" where
  "job_closed t i w \<longleftrightarrow> (\<exists>j. job_row i (dbs w t) = Some j \<and> j_state j = StateClosed)"

lemma Close_Inr:
  fixes w :: "'x world_scheme"
  assumes "Close t c w = (Inr j, w')"
  shows "j_state j = StateClosed" "j_verdict j = ci_verdict c" "j_score j = ci_score c"
    "job_row (ci_job c) (dbs w' t) = Some j"
proof -
  from assms have "with_conn t (InTx t (Close_tx t c)) w = (Inr j, w')"
    by (simp add: Close_def split: option.splits)
  then obtain w2 w3 :: "'x world_scheme" where tx: "Close_tx t c w2 = (Inr j, w3)" "dbs w' = dbs w3"
    by (rule tx_Inr)
  from tx(1) obtain j0 now where "j = j0\<lparr>j_state := StateClosed, j_verdict := ci_verdict c,
      j_score := ci_score c, j_closed_at := Some now\<rparr>" "job_row (ci_job c) (dbs w' t) = Some j"
    unfolding tx(2) by (rule Close_tx_row)
  then show "j_state j = StateClosed" "j_verdict j = ci_verdict c" "j_score j = ci_score c"
    "job_row (ci_job c) (dbs w' t) = Some j" by simp_all
qed

lemma Close_closes: "Close t c w = (Inr j, w') \<Longrightarrow> job_closed t (ci_job c) w'"
  using Close_Inr [of t c w j w'] by (auto simp: job_closed_def)

lemma Get_Inr: "Get t i w = (Inr j, w') \<Longrightarrow> job_row i (dbs w' t) = Some j"
  by (auto simp: Get_def)

lemma ResultOf_Inr:
  "ResultOf (Some j) = Inr r \<longleftrightarrow>
     j_state j = StateClosed \<and>
     r = \<lparr>rs_job = j_id j, rs_bank = j_bank j, rs_member = j_member j, rs_verdict = j_verdict j,
          rs_score = j_score j, rs_deliverables = map (\<lambda>d. \<lparr>rd_kind = deliverableKindName (d_kind d),
            rd_ref = d_ref d, rd_url = d_url d\<rparr>) (j_deliverables j),
          rs_session = j_session j, rs_attempts = j_attempts j, rs_opened_at = j_opened_at j,
          rs_closed_at = j_closed_at j\<rparr>"
  by (auto simp: ResultOf_def)

text \<open>The ways out on which the job is closed: by the node, by somebody else, or abandoned.\<close>

fun settles :: "node_err option \<Rightarrow> bool" where
  "settles None = True"
| "settles (Some ErrClosedElsewhere) = True"
| "settles (Some (Abandoned e)) = True"
| "settles _ = False"

text \<open>The errors on which the close failed or could not be read.\<close>

fun unsettled :: "node_err option \<Rightarrow> bool" where
  "unsettled (Some (NodeClose v e)) = True"
| "unsettled (Some (NodeReadClosed e)) = True"
| "unsettled (Some (NodeResult e)) = True"
| "unsettled (Some (NotAbandoned c e)) = True"
| "unsettled _ = False"

lemma abandon_out:
  assumes "abandon inp i pass msg cause w = ((out, eo), w')"
  shows "eo \<noteq> None" "settles eo \<Longrightarrow> job_closed (ni_tenant inp) i w'" "\<not> settles eo \<Longrightarrow> unsettled eo"
  using assms
  by (auto simp: abandon_def Let_def split: prod.splits sum.splits dest!: Close_closes)

lemma closed_elsewhere_out:
  assumes "closed_elsewhere inp i pass msg w = ((out, eo), w')"
  shows "eo \<noteq> None" "settles eo \<Longrightarrow> job_closed (ni_tenant inp) i w'" "\<not> settles eo \<Longrightarrow> unsettled eo"
  using assms
  by (auto simp: closed_elsewhere_def ResultOf_Inr job_closed_def split: prod.splits sum.splits dest: Get_Inr)

lemma closeWith_out:
  assumes "closeWith inp spec i v s pass msg w = ((out, eo), w')"
  shows "settles eo \<Longrightarrow> job_closed (ni_tenant inp) i w'" "\<not> settles eo \<Longrightarrow> unsettled eo"
  using assms
  by (auto simp: closeWith_def ResultOf_Inr job_closed_def split: prod.splits sum.splits if_splits dest!: Close_closes)

text \<open>One pass of the loop: a way out, or the next pass.\<close>

lemma node_loop_pass:
  fixes w :: "'x nworld_scheme"
  obtains
    (abandoned) polls1 r msg1 cause w1 w2 where "WaitForTurn (ni_tenant inp) i since polls w = (r, polls1, w1)"
      "node_loop inp verify spec i pass since msg polls w = abandon inp i pass msg1 cause w2"
  | (elsewhere) polls1 r w1 where "WaitForTurn (ni_tenant inp) i since polls w = (r, polls1, w1)"
      "node_loop inp verify spec i pass since msg polls w = closed_elsewhere inp i pass msg w1"
  | (closed) polls1 turn w1 rep w2 where "WaitForTurn (ni_tenant inp) i since polls w = (Inr turn, polls1, w1)"
      "judge inp verify i pass spec w1 = (Inr rep, w2)" "accepted spec rep \<or> max_passes spec \<le> pass"
      "node_loop inp verify spec i pass since msg polls w =
         closeWith inp spec i (if accepted spec rep then VerdictAccomplished else VerdictFailed)
           (rp_score rep) pass (rp_report rep) w2"
  | (again) polls1 turn w1 rep w2 y w3 where "WaitForTurn (ni_tenant inp) i since polls w = (Inr turn, polls1, w1)"
      "judge inp verify i pass spec w1 = (Inr rep, w2)" "\<not> accepted spec rep" "pass < max_passes spec"
      "Send (ni_tenant inp) (report_turn inp i rep) w2 = (Inr y, w3)"
      "node_loop inp verify spec i pass since msg polls w =
         node_loop inp verify spec i (pass + 1) (te_seq turn) (rp_report rep) polls1 w3"
proof -
  note loop = node_loop.simps [of inp verify spec i pass since msg polls w]
  obtain r polls1 w1 where wait: "WaitForTurn (ni_tenant inp) i since polls w = (r, polls1, w1)"
    by (metis prod.exhaust)
  show ?thesis
  proof (cases r)
    case (Inl e)
    show ?thesis by (rule abandoned [OF wait]) (simp add: loop wait Inl)
  next
    case r: (Inr turn)
    obtain s w2 where judged: "judge inp verify i pass spec w1 = (s, w2)" by force
    consider "te_closed turn" | e where "\<not> te_closed turn" "s = Inl e" | rep where "\<not> te_closed turn" "s = Inr rep"
      by (cases s) auto
    then show ?thesis
    proof cases
      case 1
      show ?thesis by (rule elsewhere [OF wait]) (simp add: loop wait r 1)
    next
      case 2
      show ?thesis by (rule abandoned [OF wait]) (simp add: loop wait r 2 judged)
    next
      case 3
      show ?thesis
      proof (cases "accepted spec rep \<or> max_passes spec \<le> pass")
        case True
        show ?thesis
          by (rule closed [OF wait [unfolded r] judged [unfolded 3(2)] True])
             (use True in \<open>auto simp: loop wait r 3 judged\<close>)
      next
        case more: False
        obtain x w3 where sent: "Send (ni_tenant inp) (report_turn inp i rep) w2 = (x, w3)" by force
        show ?thesis
        proof (cases x)
          case (Inl e)
          show ?thesis by (rule abandoned [OF wait]) (use more in \<open>simp add: loop wait r 3 judged sent Inl\<close>)
        next
          case (Inr y)
          show ?thesis
            by (rule again [OF wait [unfolded r] judged [unfolded 3(2)] _ _ sent [unfolded Inr]])
               (use more in \<open>auto simp: loop wait r 3 judged sent Inr\<close>)
        qed
      qed
    qed
  qed
qed

lemma node_loop_out:
  assumes "node_loop inp verify spec i pass since msg polls w = ((out, eo), w')"
  shows "if settles eo then job_closed (ni_tenant inp) i w' else unsettled eo"
  using assms
proof (induction "nat (max_passes spec - pass)" arbitrary: pass since msg polls w rule: less_induct)
  case less
  note loop = node_loop_pass [of inp i since polls w verify spec pass msg]
  show ?case
  proof (cases rule: loop)
    case (abandoned polls1 r msg1 cause w1 w2)
    show ?thesis using abandon_out(2,3) [OF less.prems [unfolded abandoned(2)]] by simp
  next
    case (elsewhere polls1 r w1)
    show ?thesis using closed_elsewhere_out(2,3) [OF less.prems [unfolded elsewhere(2)]] by simp
  next
    case (closed polls1 turn w1 rep w2)
    show ?thesis using closeWith_out [OF less.prems [unfolded closed(4)]] by simp
  next
    case (again polls1 turn w1 rep w2 y w3)
    have "nat (max_passes spec - (pass + 1)) < nat (max_passes spec - pass)" using again(4) by simp
    from less.hyps [OF this less.prems [unfolded again(6)]] show ?thesis .
  qed
qed

section \<open>What the outcome rests on\<close>

text \<open>The report is the verifier's answer to the last request, or the default where nobody judges.\<close>

definition judged :: "verifier \<Rightarrow> job_spec \<Rightarrow> int \<Rightarrow> report \<Rightarrow> 'x nworld_scheme \<Rightarrow> bool" where
  "judged verify spec pass rep w \<longleftrightarrow>
     (if verifier_component spec = [] then rep = \<lparr>rp_pass = True, rp_score = Fin 1, rp_report = []\<rparr>
      else \<exists>before payload. verifications w = before @ [(verifier_component spec, payload)] \<and>
             vp_pass payload = pass \<and> verify (length before) (verifier_component spec) payload = Inr rep)"

lemma more_fields:
  fixes w :: "'x nworld_scheme"
  assumes "world.more w' = world.more w"
  shows "verifications w' = verifications w" "observed w' = observed w"
  using assms by (cases w; cases w'; simp)+

lemma while_judging_fields:
  fixes w :: "'x nworld_scheme"
  shows "verifications (while_judging w) = verifications w" "observed (while_judging w) = observed w"
  by (simp_all add: while_judging_def more_fields [OF run_store_ops_more] split: list.splits)

lemma judge_judged:
  fixes w :: "'x nworld_scheme"
  assumes "judge inp verify i pass spec w = (Inr rep, w')"
  shows "judged verify spec pass rep w'" "observed w' = observed w"
proof -
  have "judged verify spec pass rep w' \<and> observed w' = observed w"
  proof (cases "verifier_component spec = []")
    case True
    with assms show ?thesis by (simp add: judge_def judged_def)
  next
    case False
    obtain r w1 where get: "Get (ni_tenant inp) i w = (r, w1)" by force
    have same: "verifications w1 = verifications w" "observed w1 = observed w"
      using more_fields [OF frameD [OF frame_job_ops(2) get]] by simp_all
    from assms False get show ?thesis
      by (auto simp: judge_def judged_def Let_def while_judging_fields same split: sum.splits)
  qed
  then show "judged verify spec pass rep w'" "observed w' = observed w" by simp_all
qed

lemma WaitForTurn_more:
  "WaitForTurn t i since polls w = (r, polls', w') \<Longrightarrow> world.more w' = world.more w"
proof (induction polls arbitrary: since w)
  case Nil
  then show ?case
    using frameD [OF frame_job_ops(10)]
    by (subst (asm) WaitForTurn.simps) (force split: prod.splits sum.splits)
next
  case (Cons ops polls)
  obtain s w1 where ev: "Events t i since eventBatch w = (s, w1)" by force
  have more: "world.more w1 = world.more w" by (rule frameD [OF frame_job_ops(10) ev])
  from Cons.prems ev more show ?case
    by (subst (asm) WaitForTurn.simps)
       (auto simp: run_store_ops_more split: sum.splits dest: Cons.IH)
qed

definition notification :: "node_input \<Rightarrow> job_spec \<Rightarrow> string \<Rightarrow> job_result \<Rightarrow> closed_job" where
  "notification inp spec i rs =
     \<lparr>cj_tenant = ni_tenant inp, cj_mission_run = ni_mission_run inp, cj_node = ni_node inp,
      cj_job = i, cj_inputs = sp_inputs spec, cj_deliverables = rs_deliverables rs\<rparr>"

lemma closeWith_None:
  fixes w :: "'x nworld_scheme"
  assumes "closeWith inp spec i v s pass msg w = ((out, None), w')"
  obtains rs where "oc_result out = Some rs" "oc_passes out = pass" "oc_report out = msg"
    "rs_verdict rs = v" "rs_score rs = s" "rs_job rs = i" "verifications w' = verifications w"
    "observed w' = observed w @ (if v = VerdictAccomplished then [notification inp spec i rs] else [])"
proof -
  let ?c = "\<lparr>ci_job = i, ci_verdict = v, ci_score = s, ci_closer = ni_opener inp\<rparr>"
  obtain r w1 where close: "Close (ni_tenant inp) ?c w = (r, w1)" by force
  with assms obtain j where r: "r = Inr j" by (cases r) (auto simp: closeWith_def)
  note j = Close_Inr [OF close [unfolded r]]
  have same: "verifications w1 = verifications w" "observed w1 = observed w"
    using more_fields [OF frameD [OF frame_job_ops(4) close]] by simp_all
  obtain rs where rs: "ResultOf (Some j) = Inr rs" using j(1) by (simp add: ResultOf_Inr)
  have "j_id j = i" using job_row_Some [OF j(4)] by simp
  with assms close r rs j same show ?thesis
    by (intro that [of rs]) (auto simp: closeWith_def ResultOf_Inr notification_def)
qed

lemma node_loop_outcome:
  fixes w :: "'x nworld_scheme"
  assumes "node_loop inp verify spec i pass since msg polls w = ((out, None), w')" "pass \<le> max_passes spec"
  obtains rs rep where "oc_result out = Some rs" "oc_report out = rp_report rep"
    "rs_verdict rs = (if accepted spec rep then VerdictAccomplished else VerdictFailed)"
    "rs_score rs = rp_score rep" "rs_job rs = i" "judged verify spec (oc_passes out) rep w'"
    "pass \<le> oc_passes out" "oc_passes out \<le> max_passes spec"
    "accepted spec rep \<or> oc_passes out = max_passes spec"
    "observed w' = observed w @ (if accepted spec rep then [notification inp spec i rs] else [])"
  using assms
proof (induction "nat (max_passes spec - pass)" arbitrary: pass since msg polls w thesis rule: less_induct)
  case less
  note run = less.prems(2)
  note loop = node_loop_pass [of inp i since polls w verify spec pass msg]
  show ?case
  proof (cases rule: loop)
    case (abandoned polls1 r msg1 cause w1 w2)
    show ?thesis using abandon_out(1) [OF run [unfolded abandoned(2)]] by simp
  next
    case (elsewhere polls1 r w1)
    show ?thesis using closed_elsewhere_out(1) [OF run [unfolded elsewhere(2)]] by simp
  next
    case (closed polls1 turn w1 rep w2)
    have obs: "observed w2 = observed w"
      using more_fields(2) [OF WaitForTurn_more [OF closed(1)]] judge_judged(2) [OF closed(2)] by simp
    obtain rs where rs: "oc_result out = Some rs" "oc_passes out = pass" "oc_report out = rp_report rep"
      "rs_verdict rs = (if accepted spec rep then VerdictAccomplished else VerdictFailed)"
      "rs_score rs = rp_score rep" "rs_job rs = i" "verifications w' = verifications w2"
      "observed w' = observed w2 @ (if (if accepted spec rep then VerdictAccomplished else VerdictFailed) =
         VerdictAccomplished then [notification inp spec i rs] else [])"
      by (rule closeWith_None [OF run [unfolded closed(4)]])
    have "judged verify spec pass rep w'"
      using judge_judged(1) [OF closed(2)] rs(7) by (simp add: judged_def)
    then show ?thesis
      using less.prems(3) closed(3) rs obs by (intro less.prems(1) [of rs rep]) auto
  next
    case (again polls1 turn w1 rep w2 y w3)
    have obs: "observed w3 = observed w"
      using more_fields(2) [OF WaitForTurn_more [OF again(1)]] judge_judged(2) [OF again(2)]
        more_fields(2) [OF frameD [OF frame_job_ops(3) again(5)]] by simp
    have "nat (max_passes spec - (pass + 1)) < nat (max_passes spec - pass)" "pass + 1 \<le> max_passes spec"
      using again(4) by simp_all
    note IH = less.hyps [OF this(1) _ run [unfolded again(6)] this(2)]
    show ?thesis
    proof (rule IH)
      fix rs rep
      assume out: "oc_result out = Some rs" "oc_report out = rp_report rep"
        "rs_verdict rs = (if accepted spec rep then VerdictAccomplished else VerdictFailed)"
        "rs_score rs = rp_score rep" "rs_job rs = i" "judged verify spec (oc_passes out) rep w'"
        "pass + 1 \<le> oc_passes out" "oc_passes out \<le> max_passes spec"
        "accepted spec rep \<or> oc_passes out = max_passes spec"
        "observed w' = observed w3 @ (if accepted spec rep then [notification inp spec i rs] else [])"
      from out(7) have "pass \<le> oc_passes out" by simp
      from less.prems(1) [OF out(1-6) this out(8,9) out(10) [unfolded obs]] show ?thesis .
    qed
  qed
qed

section \<open>Input references\<close>

lemma FindingsOpen_isReference: "TrimSpace e = FindingsOpen \<Longrightarrow> isReference e"
proof -
  have "HasPrefix FindingsOpen ''{{'' \<and> HasSuffix FindingsOpen ''}}''" by code_simp
  then show "TrimSpace e = FindingsOpen \<Longrightarrow> isReference e" by (simp add: isReference_def Let_def)
qed

lemma add_id_ok: "distinct ids \<Longrightarrow> [] \<notin> set ids \<Longrightarrow>
    distinct (add_id i ids) \<and> [] \<notin> set (add_id i ids) \<and> set (add_id i ids) = (set ids \<union> {i}) - {[]}"
  by (auto simp: add_id_def)

lemma fold_add_id_ok: "distinct ids \<Longrightarrow> [] \<notin> set ids \<Longrightarrow>
    distinct (fold add_id xs ids) \<and> [] \<notin> set (fold add_id xs ids) \<and>
    set (fold add_id xs ids) = (set ids \<union> set xs) - {[]}"
proof (induction xs arbitrary: ids)
  case (Cons x xs)
  from add_id_ok [OF Cons.prems, of x] Cons.IH [of "add_id x ids"] show ?case by auto
qed auto

text \<open>What the resolver of the node answers, if it has one and the call works.\<close>

definition open_ids :: "node_input \<Rightarrow> string list option" where
  "open_ids inp =
     (case ni_findings inp of
        None \<Rightarrow> None
      | Some f \<Rightarrow> (case f (ni_tenant inp) (ni_mission_run inp) of Inl _ \<Rightarrow> None | Inr ids \<Rightarrow> Some ids))"

definition stands_for :: "node_input \<Rightarrow> string \<Rightarrow> string set" where
  "stands_for inp e =
     (if isReference e then (case open_ids inp of None \<Rightarrow> {} | Some ids \<Rightarrow> set ids) else {e})"

lemma resolve_entries_Inr:
  "(\<exists>ids. resolve_entries inp es acc = Inr ids) \<longleftrightarrow>
     (\<forall>e \<in> set es. isReference e \<longrightarrow> TrimSpace e = FindingsOpen \<and> open_ids inp \<noteq> None)"
  by (induction inp es acc rule: resolve_entries.induct)
     (auto simp: open_ids_def FindingsOpen_isReference split: option.splits sum.splits)

lemma resolve_entries_ids:
  assumes "resolve_entries inp es acc = Inr ids" "distinct acc" "[] \<notin> set acc"
  shows "distinct ids \<and> [] \<notin> set ids \<and> set ids = (set acc \<union> (\<Union>e \<in> set es. stands_for inp e)) - {[]}"
  using assms
proof (induction es arbitrary: acc)
  case (Cons e es)
  show ?case
  proof (cases "TrimSpace e = FindingsOpen")
    case True
    with Cons.prems(1) obtain f xs where f: "ni_findings inp = Some f" "f (ni_tenant inp) (ni_mission_run inp) = Inr xs"
      and rest: "resolve_entries inp es (fold add_id (sort xs) acc) = Inr ids"
      by (auto split: option.splits sum.splits)
    have "stands_for inp e = set xs"
      using f FindingsOpen_isReference [OF True] by (simp add: stands_for_def open_ids_def)
    with Cons.IH [OF rest] fold_add_id_ok [OF Cons.prems(2,3), of "sort xs"] show ?thesis by auto
  next
    case False
    with Cons.prems(1) have "\<not> isReference e" and rest: "resolve_entries inp es (add_id e acc) = Inr ids"
      by (auto split: if_splits)
    then have "stands_for inp e = {e}" by (simp add: stands_for_def)
    with Cons.IH [OF rest] add_id_ok [OF Cons.prems(2,3), of e] show ?thesis by auto
  qed
qed auto

section \<open>Properties\<close>

text \<open>
  C5: a node that ends without an error has closed its job on the verifier's word: the last report is
  what the verifier answered for the last pass (or the default one where the spec names nobody to
  judge), the verdict is accomplished exactly if that report passed with at least the passing score,
  the score of the job is the report's, a failed job used up its passes, and the observer was told
  once for an accomplished job and not at all for a failed one.
\<close>

theorem node_outcome:
  fixes w :: "'x nworld_scheme"
  assumes "Node_Run polls inp w = ((out, None), w')"
  shows "\<exists>verify raw resolved spec rs rep.
    ni_verifier inp = Some verify \<and> ni_spec inp = Some raw \<and> resolveInputs inp raw = Inr resolved \<and>
    spec = stampContext resolved (ni_mission_run inp) (ni_node inp) \<and>
    oc_result out = Some rs \<and> oc_report out = rp_report rep \<and> judged verify spec (oc_passes out) rep w' \<and>
    rs_verdict rs = (if accepted spec rep then VerdictAccomplished else VerdictFailed) \<and>
    rs_score rs = rp_score rep \<and>
    1 \<le> oc_passes out \<and> oc_passes out \<le> max_passes spec \<and>
    (accepted spec rep \<or> oc_passes out = max_passes spec) \<and>
    observed w' = observed w @ (if accepted spec rep then [notification inp spec (rs_job rs) rs] else [])"
proof -
  from assms obtain verify raw where inp: "ni_verifier inp = Some verify" "ni_spec inp = Some raw"
    by (auto simp: Node_Run_def split: if_splits option.splits)
  with assms obtain resolved where res: "resolveInputs inp raw = Inr resolved"
    by (cases "resolveInputs inp raw") (auto simp: Node_Run_def split: if_splits)
  define spec where "spec = stampContext resolved (ni_mission_run inp) (ni_node inp)"
  let ?open = "\<lparr>oi_bank = ni_bank inp, oi_member = [], oi_spec = Some spec, oi_opened_by = ni_opener inp\<rparr>"
  obtain r w1 where opened: "Open (ni_tenant inp) ?open w = (r, w1)" by force
  note run = assms [unfolded Node_Run_def inp res option.case sum.case prod.case Let_def, folded spec_def,
      unfolded opened prod.case]
  from run obtain j where r: "r = Inr j" by (cases r) (auto split: if_splits)
  with run have loop: "node_loop inp verify spec (j_id j) 1 0 [] polls w1 = ((out, None), w')"
    by (auto split: if_splits)
  have obs: "observed w1 = observed w" by (rule more_fields(2) [OF frameD [OF frame_job_ops(1) opened]])
  have "1 \<le> max_passes spec" by (simp add: max_passes_def Let_def)
  with loop obtain rs rep where "oc_result out = Some rs" "oc_report out = rp_report rep"
    "rs_verdict rs = (if accepted spec rep then VerdictAccomplished else VerdictFailed)"
    "rs_score rs = rp_score rep" "rs_job rs = j_id j" "judged verify spec (oc_passes out) rep w'"
    "1 \<le> oc_passes out" "oc_passes out \<le> max_passes spec"
    "accepted spec rep \<or> oc_passes out = max_passes spec"
    "observed w' = observed w1 @ (if accepted spec rep then [notification inp spec (j_id j) rs] else [])"
    by (rule node_loop_outcome)
  with inp res spec_def obs show ?thesis by metis
qed

definition node_accept :: acceptance where
  "node_accept = \<lparr>a_passing_score = Fin (1/2), a_max_passes = 2, a_verifier_component = ''judge''\<rparr>"

definition demo_node :: "verifier \<Rightarrow> node_input" where
  "demo_node verify = \<lparr>ni_tenant = ''acme'', ni_mission_run = ''run'', ni_node = ''n'', ni_bank = ''b1'',
     ni_spec = Some (demo_spec\<lparr>sp_acceptance := Some node_accept, sp_inputs := [''{{findings.open}}'', ''f1'']\<rparr>),
     ni_opener = demo_user, ni_ops = True, ni_verifier = Some verify, ni_closed = True,
     ni_findings = Some (\<lambda>t r. Inr [''f2'', ''f1''])\<rparr>"

definition demo_nworld :: nworld where
  "demo_nworld = \<lparr>dbs = \<lambda>_. demo_db, faults = [], clock = int, ticks = 0,
     uuid = \<lambda>n. ''id-'' @ nat_digits n, fresh = 0, valid_tenant = \<lambda>_. True,
     marshals_spec = \<lambda>_. True, marshals_deliverable = \<lambda>_. True,
     verifications = [], judging = [], observed = []\<rparr>"

definition waits :: "(string \<times> store_op) list" where
  "waits = [(''acme'', JobOp (OpSetState ''id-0'' StateWaiting ''s''))]"

text \<open>A verifier that rejects the first pass and accepts the second.\<close>

definition second_time :: verifier where
  "second_time n c p = Inr \<lparr>rp_pass = (n = 1), rp_score = Fin (3/4), rp_report = ''report''\<rparr>"

theorem node_outcome_witness:
  "\<exists>out w'. Node_Run [waits, waits] (demo_node second_time) demo_nworld = ((out, None), w') \<and>
     oc_passes out = 2 \<and> map cj_inputs (observed w') = [[''f1'', ''f2'']] \<and>
     (\<exists>verify rep spec. judged verify spec 2 rep w' \<and> accepted spec rep)"
proof -
  let ?run = "Node_Run [waits, waits] (demo_node second_time) demo_nworld"
  have none: "snd (fst ?run) = None"
    and passes: "oc_passes (fst (fst ?run)) = 2" "map cj_inputs (observed (snd ?run)) = [[''f1'', ''f2'']]"
    by code_simp+
  obtain out w' where run: "?run = ((out, None), w')" using none by (metis prod.collapse)
  have "observed w' \<noteq> []" "observed demo_nworld = []" using passes(2) run by (auto simp: demo_nworld_def)
  with node_outcome [OF run] have "\<exists>verify rep spec. judged verify spec (oc_passes out) rep w' \<and> accepted spec rep"
    by (metis append_Nil)
  with passes run show ?thesis by auto
qed

text \<open>
  C7: after a successful open the node never leaves the job open in silence: when it returns, the job
  is closed (by the node, by somebody else, or as abandoned), or the error says that closing it or
  reading it back failed.
\<close>

theorem node_closes_job:
  fixes w :: "'x nworld_scheme"
  assumes "Node_Run polls inp w = ((out, eo), w')"
  shows "(\<exists>e. eo = Some e \<and> e \<in> {NodeInvalid, NodeNoResolver} \<union> range NodeFindings \<union>
            range NodeUnknownReference \<union> range NodeOpen) \<or>
    (if settles eo then job_closed (ni_tenant inp) (uuid w (fresh w)) w' else unsettled eo)"
proof -
  have resolve: "e \<in> {NodeNoResolver} \<union> range NodeFindings \<union> range NodeUnknownReference"
    if "resolve_entries inp es acc = Inl e" for e es acc
    using that by (induction inp es acc rule: resolve_entries.induct) (auto split: if_splits option.splits sum.splits)
  have opened: "j_id j = uuid w (fresh w)" if "Open t oi w = (Inr j, w1)" for t oi j w1
    using that by (auto simp: Open_def Let_def new_job_def split: option.splits if_splits)
  show ?thesis
    using assms node_loop_out opened resolve
    by (fastforce simp: Node_Run_def Let_def resolveInputs_def split: if_splits option.splits sum.splits prod.splits)
qed

theorem node_closes_job_witness:
  "\<exists>out w'. Node_Run [] (demo_node second_time) demo_nworld = ((out, Some (Abandoned NodeBound)), w') \<and>
     job_closed ''acme'' ''id-0'' w'"
proof -
  let ?run = "Node_Run [] (demo_node second_time) demo_nworld"
  have bound: "snd (fst ?run) = Some (Abandoned NodeBound)" by code_simp
  then obtain out w' where run: "?run = ((out, Some (Abandoned NodeBound)), w')" by (metis prod.collapse)
  have "ni_tenant (demo_node second_time) = ''acme''" "uuid demo_nworld (fresh demo_nworld) = ''id-0''" by code_simp+
  with node_closes_job [OF run] run show ?thesis by auto
qed

text \<open>
  A score outside zero to one is a way to leave the job open: the store refuses the close, and the
  node returns without abandoning the job.
\<close>

definition too_good :: verifier where
  "too_good n c p = Inr \<lparr>rp_pass = True, rp_score = Fin 100, rp_report = ''report''\<rparr>"

theorem node_score_leaves_open:
  "case Node_Run [waits] (demo_node too_good) demo_nworld of ((out, eo), w') \<Rightarrow>
     eo = Some (NodeClose VerdictAccomplished (ErrInvalid Pkg_job)) \<and>
     map j_state (jobs (dbs w' ''acme'')) = [StateWaiting]"
  by code_simp

text \<open>
  A turn may be judged twice. When the member reports waiting a second time before the report of
  the first pass reaches it, the second pass is judged at once: the job fails on its last pass
  although nobody acted on the job after the report was sent.
\<close>

definition never :: verifier where
  "never n c p = Inr \<lparr>rp_pass = False, rp_score = Fin 0, rp_report = ''report''\<rparr>"

theorem node_judges_turn_twice:
  "case Node_Run [waits @ waits] (demo_node never) demo_nworld of ((out, eo), w') \<Rightarrow>
     eo = None \<and> oc_passes out = 2 \<and> map_option rs_verdict (oc_result out) = Some VerdictFailed \<and>
     map (\<lambda>x. (i_kind x, i_acknowledged_at x)) (inputs (dbs w' ''acme'')) =
       [(InputTurn, None), (InputWrapUp, None)]"
  by code_simp

text \<open>
  C36: a turn ends at the first event after \<open>since\<close> that closes the job or reports it waiting; no such
  event is missed, whatever the other users of the stores do between the polls, unless they delete a
  bank.
\<close>

theorem WaitForTurn_finds_first:
  fixes w :: "'x world_scheme"
  assumes "job_inv (dbs w t)" "0 \<le> since" "\<not> list_ex (list_ex (deletes_bank t)) polls"
    "WaitForTurn t i since polls w = (Inr te, rest, w')"
  shows "(\<exists>e \<in> set (events_of i (dbs w' t)). ends_turn e \<and> since < ev_seq e \<and> ev_seq e = te_seq te \<and>
            te_closed te = (ev_kind e = EventClosed)) \<and>
    (\<forall>e \<in> set (events_of i (dbs w' t)). since < ev_seq e \<and> ev_seq e < te_seq te \<longrightarrow> \<not> ends_turn e)"
proof -
  from WaitForTurn_first [OF assms(4,1-3)] have first: "first_end since te (events_of i (dbs w' t))" by simp
  then obtain e where "e \<in> set (events_of i (dbs w' t))" "ends_turn e" "te = end_of e" "since < ev_seq e"
    unfolding first_end_def by blast
  moreover have "ev_seq e = te_seq (end_of e)" "te_closed (end_of e) = (ev_kind e = EventClosed)"
    by (simp_all add: end_of_def)
  ultimately show ?thesis using first unfolding first_end_def by blast
qed

theorem WaitForTurn_finds_first_witness:
  "\<exists>rest w'. WaitForTurn ''acme'' ''id-0'' 0 [[], waits] demo_opened =
       (Inr \<lparr>te_seq = 2, te_closed = False\<rparr>, rest, w') \<and>
     (\<forall>e \<in> set (events_of ''id-0'' (dbs w' ''acme'')). 0 < ev_seq e \<and> ev_seq e < 2 \<longrightarrow> \<not> ends_turn e)"
proof -
  let ?run = "WaitForTurn ''acme'' ''id-0'' 0 [[], waits] demo_opened"
  have "fst ?run = Inr \<lparr>te_seq = 2, te_closed = False\<rparr>" by code_simp
  then obtain rest w' where run: "?run = (Inr \<lparr>te_seq = 2, te_closed = False\<rparr>, rest, w')" by (metis prod.collapse)
  have "\<not> list_ex (list_ex (deletes_bank ''acme'')) [[], waits]" by code_simp
  from WaitForTurn_finds_first [OF demo_opened_inv _ this run] run show ?thesis by auto
qed

text \<open>
  C37: the inputs of a job resolve exactly when every reference among them is the one to the open
  findings and the findings can be read; then the job starts from the ids written out and the open
  findings, each once and no empty one. An input list without a reference is passed on unchanged.
\<close>

theorem resolveInputs_exact:
  "((\<exists>spec'. resolveInputs inp spec = Inr spec') \<longleftrightarrow>
      (\<forall>e \<in> set (sp_inputs spec). isReference e \<longrightarrow> TrimSpace e = FindingsOpen \<and> open_ids inp \<noteq> None)) \<and>
   (resolveInputs inp spec = Inr spec' \<longrightarrow>
      (if \<not> hasReference (sp_inputs spec) then spec' = spec
       else spec' = spec\<lparr>sp_inputs := sp_inputs spec'\<rparr> \<and> distinct (sp_inputs spec') \<and>
         set (sp_inputs spec') = (\<Union>e \<in> set (sp_inputs spec). stands_for inp e) - {[]}))"
proof (cases "hasReference (sp_inputs spec)")
  case False
  then have "\<not> isReference e" if "e \<in> set (sp_inputs spec)" for e
    using that by (auto simp: hasReference_def list_ex_iff)
  with False show ?thesis by (auto simp: resolveInputs_def)
next
  case True
  have "(\<exists>spec'. resolveInputs inp spec = Inr spec') \<longleftrightarrow> (\<exists>ids. resolve_entries inp (sp_inputs spec) [] = Inr ids)"
    using True by (auto simp: resolveInputs_def split: sum.splits)
  moreover have "spec' = spec\<lparr>sp_inputs := sp_inputs spec'\<rparr> \<and> distinct (sp_inputs spec') \<and>
      set (sp_inputs spec') = (\<Union>e \<in> set (sp_inputs spec). stands_for inp e) - {[]}"
    if "resolveInputs inp spec = Inr spec'"
  proof -
    from that True obtain ids where "resolve_entries inp (sp_inputs spec) [] = Inr ids" "spec' = spec\<lparr>sp_inputs := ids\<rparr>"
      by (auto simp: resolveInputs_def split: sum.splits)
    then show ?thesis using resolve_entries_ids [of inp "sp_inputs spec" "[]" ids] by simp
  qed
  ultimately show ?thesis using True resolve_entries_Inr [of inp "sp_inputs spec" "[]"] by simp
qed

theorem resolveInputs_exact_witness:
  "\<exists>spec'. resolveInputs (demo_node never) (demo_spec\<lparr>sp_inputs := [''{{findings.open}}'', ''f1'']\<rparr>) = Inr spec' \<and>
     distinct (sp_inputs spec') \<and> set (sp_inputs spec') = {''f1'', ''f2''}"
proof -
  let ?spec = "demo_spec\<lparr>sp_inputs := [''{{findings.open}}'', ''f1'']\<rparr>"
  have facts: "\<forall>e \<in> set (sp_inputs ?spec). isReference e \<longrightarrow>
      TrimSpace e = FindingsOpen \<and> open_ids (demo_node never) \<noteq> None"
    and ref: "hasReference (sp_inputs ?spec)"
    and ids: "(\<Union>e \<in> set (sp_inputs ?spec). stands_for (demo_node never) e) - {[]} = {''f1'', ''f2''}" by code_simp+
  from resolveInputs_exact [of "demo_node never" ?spec, THEN conjunct1] facts
  obtain spec' where ok: "resolveInputs (demo_node never) ?spec = Inr spec'" by blast
  with resolveInputs_exact [of "demo_node never" ?spec spec', THEN conjunct2] ref ids show ?thesis by auto
qed

end
