(* ===== verification/SagaTopo.thy ===== *)
theory SagaTopo
  imports Prelude
begin

text \<open>
  The saga package (\<open>pkg/platform/saga\<close>): the data (\<open>step.go\<close>, \<open>capability.go\<close>, \<open>deps.go\<close>,
  \<open>conditions.go\<close>, \<open>adapt.go\<close>), the topological sort (\<open>topo.go\<close>) and the check at startup
  (\<open>validate.go\<close>).

  The work of a step is code of the operator: a function of the reconciled world that a step brings
  along. Of the object the model has the generation, the conditions, the phase and the observed
  generation; messages of conditions, events and errors are left out. A time and a duration are
  nanoseconds.
\<close>

section \<open>Capabilities and clients\<close>

datatype client_capability =
    CapabilityPostgresAdmin | CapabilityVaultAdmin | CapabilityVaultTransit | CapabilityKubernetes
  | CapabilityZitadelAdmin | CapabilityFGA | CapabilityRedisAdmin | CapabilityQdrantAdmin
  | CapabilityDaemonGRPC | CapabilitySMTP | CapabilityOther string

definition AllCapabilities :: "client_capability list" where
  "AllCapabilities =
     [CapabilityPostgresAdmin, CapabilityVaultAdmin, CapabilityVaultTransit, CapabilityKubernetes,
      CapabilityZitadelAdmin, CapabilityFGA, CapabilityRedisAdmin, CapabilityQdrantAdmin,
      CapabilityDaemonGRPC, CapabilitySMTP]"

text \<open>\<open>Deps\<close>: whether each client is there.\<close>

record deps =
  dp_postgres :: bool
  dp_vault :: bool
  dp_transit :: bool
  dp_k8s :: bool
  dp_zitadel :: bool
  dp_fga :: bool
  dp_redis :: bool
  dp_qdrant :: bool
  dp_daemon :: bool
  dp_smtp :: bool

fun Has :: "deps option \<Rightarrow> client_capability \<Rightarrow> bool" where
  "Has None c = False"
| "Has (Some d) CapabilityPostgresAdmin = dp_postgres d"
| "Has (Some d) CapabilityVaultAdmin = dp_vault d"
| "Has (Some d) CapabilityVaultTransit = dp_transit d"
| "Has (Some d) CapabilityKubernetes = dp_k8s d"
| "Has (Some d) CapabilityZitadelAdmin = dp_zitadel d"
| "Has (Some d) CapabilityFGA = dp_fga d"
| "Has (Some d) CapabilityRedisAdmin = dp_redis d"
| "Has (Some d) CapabilityQdrantAdmin = dp_qdrant d"
| "Has (Some d) CapabilityDaemonGRPC = dp_daemon d"
| "Has (Some d) CapabilitySMTP = dp_smtp d"
| "Has (Some d) (CapabilityOther s) = False"

section \<open>Errors\<close>

datatype topo_err = EmptyName | DuplicateName string | UnknownStep string string | Cycle "string list"

datatype saga_err =
    StepErr string
  | Wrapped string saga_err
  | TopologyErr topo_err
  | MissingErr "(client_capability \<times> string list) list"

text \<open>\<open>errors.As\<close> with a \<open>*ValidationError\<close>.\<close>

fun is_validation :: "saga_err \<Rightarrow> bool" where
  "is_validation (MissingErr m) = True"
| "is_validation (Wrapped s e) = is_validation e"
| "is_validation _ = False"

section \<open>The reconciled object\<close>

datatype condition_status = ConditionTrue | ConditionFalse | ConditionUnknown

record condition =
  cd_type :: string
  cd_status :: condition_status
  cd_reason :: string
  cd_generation :: int
  cd_transition :: "int option"

datatype audit_event =
    StepStarted string | StepCompleted string int | StepFailed string saga_err int bool | StepSkipped string

datatype metric = ObserveStep string string int string | ObserveReconcile string string int

text \<open>
  The world of a run: the object, the two clocks (the wall clock, and the runner's own where it has
  one), and what the hooks were told.
\<close>

record sworld =
  o_generation :: int
  o_conditions :: "condition list"
  o_phase :: string
  o_observed :: int
  o_kind :: string
  wall_clock :: "nat \<Rightarrow> int"
  wall_ticks :: nat
  own_ticks :: nat
  audit :: "audit_event list"
  metrics :: "metric list"
  recorded :: "(string \<times> string) list"

record saga_step =
  st_name :: string
  st_condition :: string
  st_requires :: "string list"
  st_clients :: "client_capability list"
  st_provision :: "deps option \<Rightarrow> sworld \<Rightarrow> (bool \<times> saga_err option) \<times> sworld"
  st_deprovision :: "deps option \<Rightarrow> sworld \<Rightarrow> saga_err option \<times> sworld"
  st_skip :: "sworld \<Rightarrow> bool"

section \<open>Function-form steps\<close>

datatype adapt_option =
    WithRequires "string list" | WithRequiredClients "client_capability list"
  | WithSkipFn "sworld \<Rightarrow> bool"
  | WithDeprovisionFn "deps option \<Rightarrow> sworld \<Rightarrow> saga_err option \<times> sworld"

fun apply_option :: "adapt_option \<Rightarrow> saga_step \<Rightarrow> saga_step" where
  "apply_option (WithRequires names) a = a\<lparr>st_requires := names\<rparr>"
| "apply_option (WithRequiredClients caps) a = a\<lparr>st_clients := caps\<rparr>"
| "apply_option (WithSkipFn f) a = a\<lparr>st_skip := f\<rparr>"
| "apply_option (WithDeprovisionFn f) a = a\<lparr>st_deprovision := f\<rparr>"

definition FromStepFn ::
  "string \<Rightarrow> string \<Rightarrow> (sworld \<Rightarrow> (bool \<times> saga_err option) \<times> sworld) \<Rightarrow> adapt_option list \<Rightarrow> saga_step" where
  "FromStepFn name cond fn opts =
     fold apply_option opts
       \<lparr>st_name = name, st_condition = cond, st_requires = [], st_clients = [],
        st_provision = \<lambda>_. fn, st_deprovision = \<lambda>_ w. (None, w), st_skip = \<lambda>_. False\<rparr>"

section \<open>Topological sort\<close>

text \<open>The first loop: every name is there once.\<close>

fun check_names :: "saga_step list \<Rightarrow> string set \<Rightarrow> topo_err option" where
  "check_names [] seen = None"
| "check_names (s # ss) seen =
     (if st_name s = [] then Some EmptyName
      else if st_name s \<in> seen then Some (DuplicateName (st_name s))
      else check_names ss (insert (st_name s) seen))"

text \<open>The second loop: every requirement is the name of a step.\<close>

fun check_requires :: "string set \<Rightarrow> saga_step list \<Rightarrow> topo_err option" where
  "check_requires names [] = None"
| "check_requires names (s # ss) =
     (case find (\<lambda>d. d \<notin> names) (st_requires s) of
        Some d \<Rightarrow> Some (UnknownStep (st_name s) d)
      | None \<Rightarrow> check_requires names ss)"

definition byName :: "saga_step list \<Rightarrow> string \<Rightarrow> saga_step option" where
  "byName steps n = find (\<lambda>s. st_name s = n) steps"

text \<open>\<open>revAdj[dep]\<close>: a step once for each time it names the requirement.\<close>

definition revAdj :: "saga_step list \<Rightarrow> string \<Rightarrow> string list" where
  "revAdj steps d =
     concat (map (\<lambda>s. map (\<lambda>_. st_name s) (filter (\<lambda>x. x = d) (st_requires s))) steps)"

record topo_state =
  ts_out :: "saga_step list"
  ts_emitted :: "string set"
  ts_indeg :: "string \<Rightarrow> int"

definition topo_start :: "saga_step list \<Rightarrow> topo_state" where
  "topo_start steps =
     \<lparr>ts_out = [], ts_emitted = {},
      ts_indeg = \<lambda>n. (case byName steps n of None \<Rightarrow> 0 | Some s \<Rightarrow> int (length (st_requires s)))\<rparr>"

definition decrement :: "(string \<Rightarrow> int) \<Rightarrow> string \<Rightarrow> string \<Rightarrow> int" where
  "decrement indeg n = indeg(n := indeg n - 1)"

text \<open>One step of the scan of \<open>order\<close>: whether the step was emitted, and the state.\<close>

definition visit :: "saga_step list \<Rightarrow> string \<Rightarrow> topo_state \<Rightarrow> bool \<times> topo_state" where
  "visit steps n st =
     (if n \<in> ts_emitted st then (False, st)
      else if ts_indeg st n \<noteq> 0 then (False, st)
      else (case byName steps n of
              None \<Rightarrow> (False, st)
            | Some s \<Rightarrow>
                (True,
                 \<lparr>ts_out = ts_out st @ [s], ts_emitted = insert n (ts_emitted st),
                  ts_indeg = foldl decrement (ts_indeg st) (revAdj steps n)\<rparr>)))"

fun scan :: "saga_step list \<Rightarrow> string list \<Rightarrow> bool \<Rightarrow> topo_state \<Rightarrow> bool \<times> topo_state" where
  "scan steps [] progress st = (progress, st)"
| "scan steps (n # ns) progress st =
     (case visit steps n st of (emitted, st') \<Rightarrow> scan steps ns (progress \<or> emitted) st')"

lemma visit_length:
  "visit steps n st = (b, st') \<Longrightarrow> length (ts_out st') = length (ts_out st) + (if b then 1 else 0)"
  by (auto simp: visit_def split: if_splits option.splits)

lemma scan_length:
  "scan steps ns p st = (b, st') \<Longrightarrow>
     length (ts_out st) \<le> length (ts_out st') \<and> (b \<and> \<not> p \<longrightarrow> length (ts_out st) < length (ts_out st'))"
proof (induction ns arbitrary: p st)
  case (Cons n ns)
  obtain c st1 where v: "visit steps n st = (c, st1)" by force
  from Cons.prems v have "scan steps ns (p \<or> c) st1 = (b, st')" by simp
  from Cons.IH [OF this] visit_length [OF v] show ?case by (auto split: if_splits)
qed simp

lemma scan_shorter:
  assumes "(True, st') = scan steps ns False st" "length (ts_out st) < n"
  shows "n - length (ts_out st') < n - length (ts_out st)"
  using scan_length [OF assms(1) [symmetric]] assms(2) by (auto intro: diff_less_mono2)

function topo_loop :: "saga_step list \<Rightarrow> topo_state \<Rightarrow> topo_err + saga_step list" where
  "topo_loop steps st =
     (if length (ts_out st) < length steps then
        (case scan steps (map st_name steps) False st of
           (progress, st') \<Rightarrow>
             if progress then topo_loop steps st'
             else Inl (Cycle (map st_name (filter (\<lambda>s. st_name s \<notin> ts_emitted st') steps))))
      else Inr (ts_out st))"
  by pat_completeness auto
termination
  by (relation "measure (\<lambda>(steps, st). length steps - length (ts_out st))") (auto dest: scan_shorter)

declare topo_loop.simps [simp del]

definition TopoSort :: "saga_step list \<Rightarrow> topo_err + saga_step list" where
  "TopoSort steps =
     (case check_names steps {} of
        Some e \<Rightarrow> Inl e
      | None \<Rightarrow>
          (case check_requires (set (map st_name steps)) steps of
             Some e \<Rightarrow> Inl e
           | None \<Rightarrow> topo_loop steps (topo_start steps)))"

section \<open>Startup check\<close>

fun add_missing :: "client_capability \<Rightarrow> string \<Rightarrow> (client_capability \<times> string list) list \<Rightarrow>
     (client_capability \<times> string list) list" where
  "add_missing c n [] = [(c, [n])]"
| "add_missing c n ((c', ns) # m) = (if c' = c then (c', ns @ [n]) # m else (c', ns) # add_missing c n m)"

definition missing_of :: "deps option \<Rightarrow> saga_step \<Rightarrow> (client_capability \<times> string list) list \<Rightarrow>
     (client_capability \<times> string list) list" where
  "missing_of deps s m =
     fold (\<lambda>c m. if \<not> Has deps c then add_missing c (st_name s) m else m) (st_clients s) m"

definition ValidateAtStartup :: "saga_step list \<Rightarrow> deps option \<Rightarrow> saga_err option" where
  "ValidateAtStartup steps deps =
     (case TopoSort steps of
        Inl e \<Rightarrow> Some (TopologyErr e)
      | Inr _ \<Rightarrow>
          (let missing = fold (missing_of deps) steps []
           in if missing \<noteq> [] then Some (MissingErr missing) else None))"

text \<open>The summary: how many steps and how many capabilities.\<close>

definition ValidateAtStartupVerbose :: "saga_step list \<Rightarrow> deps option \<Rightarrow> saga_err + nat \<times> nat" where
  "ValidateAtStartupVerbose steps deps =
     (case ValidateAtStartup steps deps of
        Some e \<Rightarrow> Inl e
      | None \<Rightarrow> Inr (length steps, length (remdups (concat (map st_clients steps)))))"

section \<open>The sort is exact\<close>

lemma check_names_None:
  "check_names ss seen = None \<longleftrightarrow>
     [] \<notin> st_name ` set ss \<and> distinct (map st_name ss) \<and> seen \<inter> st_name ` set ss = {}"
  by (induction ss arbitrary: seen) auto

lemma check_requires_None:
  "check_requires names ss = None \<longleftrightarrow> (\<forall>s \<in> set ss. set (st_requires s) \<subseteq> names)"
proof (induction ss)
  case (Cons s ss)
  show ?case
  proof (cases "find (\<lambda>d. d \<notin> names) (st_requires s)")
    case None
    then have "set (st_requires s) \<subseteq> names" by (auto simp: find_None_iff)
    then show ?thesis using Cons None by simp
  next
    case (Some d)
    then have "d \<in> set (st_requires s)" "d \<notin> names" by (auto simp: find_Some_iff)
    then show ?thesis using Some by auto
  qed
qed simp

text \<open>An edge from a requirement to the step that names it.\<close>

definition required_by :: "saga_step list \<Rightarrow> (string \<times> string) set" where
  "required_by steps = {(d, st_name s) | d s. s \<in> set steps \<and> d \<in> set (st_requires s)}"

lemma required_by_finite: "finite (required_by steps)"
proof -
  have "required_by steps \<subseteq> (\<Union>s \<in> set steps. (\<lambda>d. (d, st_name s)) ` set (st_requires s))"
    by (auto simp: required_by_def)
  then show ?thesis by (rule finite_subset) simp
qed

text \<open>Requirements come before the steps that name them.\<close>

definition ordered :: "saga_step list \<Rightarrow> bool" where
  "ordered out \<longleftrightarrow> (\<forall>i < length out. set (st_requires (out ! i)) \<subseteq> st_name ` set (take i out))"

lemma ordered_snoc:
  "ordered (out @ [s]) \<longleftrightarrow> ordered out \<and> set (st_requires s) \<subseteq> st_name ` set out"
  by (auto simp: ordered_def nth_append less_Suc_eq)

text \<open>The state of the sort: the in-degree of a step counts its requirements that are not emitted.\<close>

definition waiting_for :: "string set \<Rightarrow> saga_step \<Rightarrow> string list" where
  "waiting_for done_names s = filter (\<lambda>d. d \<notin> done_names) (st_requires s)"

definition topo_inv :: "saga_step list \<Rightarrow> topo_state \<Rightarrow> bool" where
  "topo_inv steps st \<longleftrightarrow>
     ordered (ts_out st) \<and> distinct (map st_name (ts_out st)) \<and> set (ts_out st) \<subseteq> set steps \<and>
     ts_emitted st = st_name ` set (ts_out st) \<and>
     (\<forall>s \<in> set steps. ts_indeg st (st_name s) = int (length (waiting_for (ts_emitted st) s)))"

lemma foldl_decrement: "foldl decrement f xs n = f n - int (count_list xs n)"
  by (induction xs arbitrary: f) (auto simp: decrement_def)

lemma count_revAdj:
  assumes "distinct (map st_name steps)" "s \<in> set steps"
  shows "count_list (revAdj steps d) (st_name s) = count_list (st_requires s) d"
proof -
  have one: "count_list (map (\<lambda>_. st_name x) (filter (\<lambda>y. y = d) ys)) n = (if st_name x = n then count_list ys d else 0)" for x ys n
    by (induction ys) auto
  have none: "count_list (revAdj xs d) n = 0" if "n \<notin> st_name ` set xs" for xs n
    using that by (induction xs) (auto simp: revAdj_def one)
  show ?thesis using assms
  proof (induction steps)
    case (Cons x steps)
    have "revAdj (x # steps) d = map (\<lambda>_. st_name x) (filter (\<lambda>y. y = d) (st_requires x)) @ revAdj steps d"
      by (simp add: revAdj_def)
    then show ?case using Cons none [of "st_name x" steps] by (auto simp: one)
  qed simp
qed

lemma waiting_for_insert:
  "d \<notin> E \<Longrightarrow> length (waiting_for (insert d E) s) + count_list (st_requires s) d = length (waiting_for E s)"
proof -
  have "d \<notin> E \<Longrightarrow> length (filter (\<lambda>x. x \<notin> insert d E) xs) + count_list xs d = length (filter (\<lambda>x. x \<notin> E) xs)" for xs
    by (induction xs) auto
  then show "d \<notin> E \<Longrightarrow> length (waiting_for (insert d E) s) + count_list (st_requires s) d = length (waiting_for E s)"
    by (simp add: waiting_for_def)
qed

lemma visit_inv:
  assumes "distinct (map st_name steps)" "s \<in> set steps" "topo_inv steps st" "visit steps (st_name s) st = (b, st')"
  shows "topo_inv steps st'"
proof (cases b)
  case False
  with assms show ?thesis by (auto simp: visit_def split: if_splits option.splits)
next
  case True
  have "byName steps (st_name s) = Some s" unfolding byName_def by (rule find_key [OF assms(1,2)])
  with True assms(4) have new: "st_name s \<notin> ts_emitted st" "ts_indeg st (st_name s) = 0"
    and st': "ts_out st' = ts_out st @ [s]" "ts_emitted st' = insert (st_name s) (ts_emitted st)"
      "ts_indeg st' = foldl decrement (ts_indeg st) (revAdj steps (st_name s))"
    by (auto simp: visit_def split: if_splits)
  from assms(3) have inv: "ordered (ts_out st)" "distinct (map st_name (ts_out st))" "set (ts_out st) \<subseteq> set steps"
    "ts_emitted st = st_name ` set (ts_out st)"
    and indeg: "\<And>x. x \<in> set steps \<Longrightarrow> ts_indeg st (st_name x) = int (length (waiting_for (ts_emitted st) x))"
    by (auto simp: topo_inv_def)
  have "waiting_for (ts_emitted st) s = []" using indeg [OF assms(2)] new(2) by simp
  then have "set (st_requires s) \<subseteq> st_name ` set (ts_out st)"
    using inv(4) by (auto simp: waiting_for_def filter_empty_conv)
  moreover have "ts_indeg st' (st_name x) = int (length (waiting_for (ts_emitted st') x))" if "x \<in> set steps" for x
    using indeg [OF that] waiting_for_insert [OF new(1), of x] count_revAdj [OF assms(1) that, of "st_name s"]
    by (simp add: st' foldl_decrement)
  ultimately show ?thesis
    using inv new(1) assms(2) by (auto simp: topo_inv_def st' ordered_snoc)
qed

lemma scan_inv:
  assumes "distinct (map st_name steps)" "set ss \<subseteq> set steps" "topo_inv steps st"
    "scan steps (map st_name ss) p st = (b, st')"
  shows "topo_inv steps st'"
  using assms(2-4)
proof (induction ss arbitrary: p st)
  case (Cons s ss)
  obtain c st1 where v: "visit steps (st_name s) st = (c, st1)" by force
  with Cons.prems have "topo_inv steps st1" by (intro visit_inv [OF assms(1) _ _ v]) simp_all
  with Cons v show ?case by simp
qed simp

text \<open>A scan without progress leaves a step unemitted only if it waits for another.\<close>

lemma scan_progress: "scan steps ns True st = (q, st') \<Longrightarrow> q"
  by (induction ns arbitrary: st) (auto split: prod.splits)

lemma scan_stuck:
  assumes "distinct (map st_name steps)" "set ss \<subseteq> set steps" "scan steps (map st_name ss) p st = (False, st')"
  shows "st' = st \<and> \<not> p \<and> (\<forall>s \<in> set ss. st_name s \<in> ts_emitted st \<or> ts_indeg st (st_name s) \<noteq> 0)"
  using assms(2,3)
proof (induction ss arbitrary: p)
  case (Cons s ss)
  obtain c st1 where v: "visit steps (st_name s) st = (c, st1)" by force
  show ?case
  proof (cases c)
    case True
    from Cons.prems v True have "scan steps (map st_name ss) True st1 = (False, st')" by simp
    from scan_progress [OF this] show ?thesis by simp
  next
    case False
    have "byName steps (st_name s) = Some s"
      unfolding byName_def using Cons.prems(1) by (intro find_key [OF assms(1)]) simp
    with v False have "st1 = st" "st_name s \<in> ts_emitted st \<or> ts_indeg st (st_name s) \<noteq> 0"
      by (auto simp: visit_def split: if_splits)
    with Cons v False show ?thesis by auto
  qed
qed simp

lemma ordered_acyclic:
  assumes "ordered out" "distinct (map st_name out)" shows "acyclic (required_by out)"
proof -
  define idx where "idx n = length (takeWhile (\<lambda>s. st_name s \<noteq> n) out)" for n
  have at: "idx (st_name (out ! i)) = i" if "i < length out" for i
  proof -
    have "takeWhile (\<lambda>s. st_name s \<noteq> st_name (out ! i)) out = take i out"
      using that assms(2) by (intro takeWhile_eq_take_P_nth) (auto simp: distinct_conv_nth)
    then show ?thesis using that by (simp add: idx_def)
  qed
  have "required_by out \<subseteq> measure idx"
  proof
    fix e assume "e \<in> required_by out"
    then obtain d i where e: "e = (d, st_name (out ! i))" "i < length out" "d \<in> set (st_requires (out ! i))"
      by (auto simp: required_by_def in_set_conv_nth)
    then obtain s where "s \<in> set (take i out)" "d = st_name s" using assms(1) by (auto simp: ordered_def)
    then obtain k where "k < i" "d = st_name (out ! k)" by (auto simp: in_set_conv_nth)
    with e at show "e \<in> measure idx" by simp
  qed
  then show ?thesis by (meson wf_acyclic wf_measure wf_subset)
qed

lemma topo_inv_start: "topo_inv steps (topo_start steps)" if "distinct (map st_name steps)"
proof -
  have "byName steps (st_name s) = Some s" if "s \<in> set steps" for s
    unfolding byName_def by (rule find_key [OF \<open>distinct (map st_name steps)\<close> that])
  then show ?thesis by (simp add: topo_inv_def topo_start_def ordered_def waiting_for_def)
qed

lemma topo_loop_Inr:
  assumes "distinct (map st_name steps)" "topo_inv steps st" "topo_loop steps st = Inr out"
  shows "mset out = mset steps \<and> ordered out"
  using assms(2,3)
proof (induction "length steps - length (ts_out st)" arbitrary: st rule: less_induct)
  case less
  show ?case
  proof (cases "length (ts_out st) < length steps")
    case True
    obtain b st' where scan: "scan steps (map st_name steps) False st = (b, st')" by force
    with True less.prems(2) have b: b and loop: "topo_loop steps st' = Inr out"
      by (auto simp: topo_loop.simps [of steps st] split: if_splits)
    have "length (ts_out st) < length (ts_out st')" using scan_length [OF scan] b by simp
    with True have "length steps - length (ts_out st') < length steps - length (ts_out st)" by linarith
    then show ?thesis
      by (rule less.hyps [OF _ scan_inv [OF assms(1) subset_refl less.prems(1) scan] loop])
  next
    case False
    with less.prems(2) have out: "out = ts_out st" by (simp add: topo_loop.simps [of steps st])
    from less.prems(1) have inv: "ordered out" "distinct (map st_name out)" "set out \<subseteq> set steps"
      by (simp_all add: topo_inv_def out)
    have "distinct out" "distinct steps" using inv(2) assms(1) by (simp_all add: distinct_map)
    then have "set out = set steps" using inv(3) False out
      by (metis card_subset_eq List.finite_set distinct_card card_mono linorder_not_less order_antisym)
    with \<open>distinct out\<close> \<open>distinct steps\<close> inv(1) show ?thesis by (simp add: set_eq_iff_mset_eq_distinct)
  qed
qed

lemma topo_loop_Inl:
  assumes "distinct (map st_name steps)" "\<forall>s \<in> set steps. set (st_requires s) \<subseteq> st_name ` set steps"
    "topo_inv steps st" "topo_loop steps st = Inl e"
  shows "\<not> acyclic (required_by steps)"
  using assms(3,4)
proof (induction "length steps - length (ts_out st)" arbitrary: st rule: less_induct)
  case less
  obtain b st' where scan: "scan steps (map st_name steps) False st = (b, st')" by force
  have short: "length (ts_out st) < length steps"
    using less.prems(2) by (auto simp: topo_loop.simps [of steps st] split: if_splits)
  show ?case
  proof (cases b)
    case True
    with short less.prems(2) scan have loop: "topo_loop steps st' = Inl e"
      by (simp add: topo_loop.simps [of steps st])
    have "length (ts_out st) < length (ts_out st')" using scan_length [OF scan] True by simp
    with short have "length steps - length (ts_out st') < length steps - length (ts_out st)" by linarith
    then show ?thesis
      by (rule less.hyps [OF _ scan_inv [OF assms(1) subset_refl less.prems(1) scan] loop])
  next
    case False
    let ?Q = "{n. n \<in> st_name ` set steps \<and> n \<notin> ts_emitted st}"
    from less.prems(1) have inv: "ts_emitted st = st_name ` set (ts_out st)"
      and indeg: "\<And>s. s \<in> set steps \<Longrightarrow> ts_indeg st (st_name s) = int (length (waiting_for (ts_emitted st) s))"
      by (simp_all add: topo_inv_def)
    from False have "scan steps (map st_name steps) False st = (False, st')" using scan by simp
    from scan_stuck [OF assms(1) subset_refl this]
    have stuck: "st_name s \<in> ts_emitted st \<or> ts_indeg st (st_name s) \<noteq> 0" if "s \<in> set steps" for s
      using that by blast
    have next_up: "\<exists>d \<in> ?Q. (d, n) \<in> required_by steps" if n: "n \<in> ?Q" for n
    proof -
      from n obtain s where s: "s \<in> set steps" "n = st_name s" "st_name s \<notin> ts_emitted st" by auto
      with stuck [OF s(1)] indeg [OF s(1)] have "waiting_for (ts_emitted st) s \<noteq> []" by simp
      then obtain d where "d \<in> set (st_requires s)" "d \<notin> ts_emitted st"
        by (auto simp: waiting_for_def filter_empty_conv)
      with s assms(2) show ?thesis by (intro bexI [of _ d]) (auto simp: required_by_def)
    qed
    have "?Q \<noteq> {}"
    proof
      assume "?Q = {}"
      then have "st_name ` set steps \<subseteq> st_name ` set (ts_out st)" using inv by auto
      then have "card (st_name ` set steps) \<le> card (st_name ` set (ts_out st))" by (intro card_mono) auto
      moreover have "card (st_name ` set steps) = length steps"
        using distinct_card [OF assms(1)] by simp
      moreover have "card (st_name ` set (ts_out st)) \<le> length (ts_out st)"
        by (metis card_image_le card_length List.finite_set order_trans)
      ultimately show False using short by simp
    qed
    then obtain n where n: "n \<in> ?Q" by blast
    show ?thesis
    proof
      assume "acyclic (required_by steps)"
      then have "wf (required_by steps)" by (rule finite_acyclic_wf [OF required_by_finite])
      then have "\<exists>z \<in> ?Q. \<forall>y. (y, z) \<in> required_by steps \<longrightarrow> y \<notin> ?Q"
        using n unfolding wf_eq_minimal by (elim allE [of _ ?Q] allE [of _ n]) (rule mp)
      then obtain z where "z \<in> ?Q" "\<forall>y. (y, z) \<in> required_by steps \<longrightarrow> y \<notin> ?Q" by blast
      with next_up show False by blast
    qed
  qed
qed

end
