(* ===== verification/SagaRunner.thy ===== *)
theory SagaRunner
  imports SagaTopo
begin

text \<open>
  The saga runner (\<open>pkg/platform/saga/runner.go\<close>, \<open>conditions.go\<close>): the steps in topological order,
  the conditions they leave on the object, the retry decision, and what the audit, metrics and event
  hooks are told. Texts of messages are left out.

  \<open>metav1.Now\<close>, which stamps a condition, reads the wall clock; \<open>r.now\<close> reads the clock of the runner
  where it has one.
\<close>

section \<open>Conditions\<close>

text \<open>\<open>SetCondition\<close> at the time \<open>now\<close>: a zero transition time is stamped, and an unchanged status keeps the old one.\<close>

fun replace_condition :: "condition list \<Rightarrow> condition \<Rightarrow> condition list" where
  "replace_condition [] c = [c]"
| "replace_condition (x # xs) c =
     (if cd_type x \<noteq> cd_type c then x # replace_condition xs c
      else (if cd_status x = cd_status c then c\<lparr>cd_transition := cd_transition x\<rparr> else c) # xs)"

definition SetCondition :: "condition list \<Rightarrow> condition \<Rightarrow> int \<Rightarrow> condition list" where
  "SetCondition cs c now =
     replace_condition cs (if cd_transition c = None then c\<lparr>cd_transition := Some now\<rparr> else c)"

definition FindCondition :: "condition list \<Rightarrow> string \<Rightarrow> condition option" where
  "FindCondition cs ty = find (\<lambda>c. cd_type c = ty) cs"

definition IsConditionTrue :: "condition list \<Rightarrow> string \<Rightarrow> bool" where
  "IsConditionTrue cs ty =
     (case FindCondition cs ty of None \<Rightarrow> False | Some c \<Rightarrow> cd_status c = ConditionTrue)"

section \<open>The runner\<close>

datatype error_classification = ErrorTransient | ErrorPermanent

record runner =
  rn_deps :: "deps option"
  rn_recorder :: bool
  rn_audit :: bool
  rn_metrics :: bool
  rn_classifier :: "(saga_err \<Rightarrow> error_classification) option"
  rn_max_backoff :: int
  rn_initial_backoff :: int
  rn_requeue :: int
  rn_step_max_attempts :: int
  rn_continue_on_blocked :: bool
  rn_clock :: "(nat \<Rightarrow> int) option"

record run_result =
  rr_requeue_after :: int
  rr_blocked :: bool
  rr_complete :: bool
  rr_err :: "saga_err option"

definition defaultStepMaxAttempts :: int where "defaultStepMaxAttempts = 20"

definition second :: int where "second = 1000000000"

definition rnow :: "runner \<Rightarrow> sworld \<Rightarrow> int \<times> sworld" where
  "rnow r w =
     (case rn_clock r of
        Some clk \<Rightarrow> (clk (own_ticks w), w\<lparr>own_ticks := Suc (own_ticks w)\<rparr>)
      | None \<Rightarrow> (wall_clock w (wall_ticks w), w\<lparr>wall_ticks := Suc (wall_ticks w)\<rparr>))"

text \<open>\<open>Time.Sub\<close> saturates at the ends of \<open>int64\<close>.\<close>

definition sub :: "int \<Rightarrow> int \<Rightarrow> int" where
  "sub a b = max (- (2 ^ 63)) (min (2 ^ 63 - 1) (a - b))"

definition set_cond :: "string \<Rightarrow> condition_status \<Rightarrow> string \<Rightarrow> sworld \<Rightarrow> sworld" where
  "set_cond ty status reason w =
     w\<lparr>wall_ticks := Suc (wall_ticks w),
       o_conditions := SetCondition (o_conditions w)
         \<lparr>cd_type = ty, cd_status = status, cd_reason = reason, cd_generation = o_generation w,
          cd_transition = None\<rparr> (wall_clock w (wall_ticks w))\<rparr>"

definition tell_audit :: "runner \<Rightarrow> audit_event \<Rightarrow> sworld \<Rightarrow> sworld" where
  "tell_audit r e w = (if rn_audit r then w\<lparr>audit := audit w @ [e]\<rparr> else w)"

definition event :: "runner \<Rightarrow> string \<Rightarrow> string \<Rightarrow> sworld \<Rightarrow> sworld" where
  "event r kind reason w = (if rn_recorder r then w\<lparr>recorded := recorded w @ [(kind, reason)]\<rparr> else w)"

definition observe_step :: "runner \<Rightarrow> string \<Rightarrow> string \<Rightarrow> int \<Rightarrow> string \<Rightarrow> sworld \<Rightarrow> sworld" where
  "observe_step r name kind start result w =
     (if rn_metrics r then w\<lparr>metrics := metrics w @ [ObserveStep name kind start result]\<rparr> else w)"

definition observe_reconcile :: "runner \<Rightarrow> string \<Rightarrow> string \<Rightarrow> int \<Rightarrow> sworld \<Rightarrow> sworld" where
  "observe_reconcile r kind result start w =
     (if rn_metrics r
      then (case rnow r w of (now, w1) \<Rightarrow>
              w1\<lparr>metrics := metrics w1 @ [ObserveReconcile kind result (sub now start)]\<rparr>)
      else w)"

definition classify :: "runner \<Rightarrow> saga_err \<Rightarrow> error_classification" where
  "classify r e =
     (case rn_classifier r of
        Some f \<Rightarrow> f e
      | None \<Rightarrow> if is_validation e then ErrorPermanent else ErrorTransient)"

definition requeueInterval :: "runner \<Rightarrow> int" where
  "requeueInterval r = (if rn_requeue r > 0 then rn_requeue r else 5 * second)"

definition initial_backoff :: "runner \<Rightarrow> int" where
  "initial_backoff r = (if rn_initial_backoff r \<le> 0 then second else rn_initial_backoff r)"

definition max_backoff :: "runner \<Rightarrow> int" where
  "max_backoff r = (if rn_max_backoff r \<le> 0 then 300 * second else rn_max_backoff r)"

text \<open>The time since a condition changed; a condition that was never stamped counts from the zero time.\<close>

definition zero_time :: int where "zero_time = - 62135596800 * second"

definition elapsed :: "int \<Rightarrow> condition \<Rightarrow> int" where
  "elapsed now c =
     (let e = sub now (case cd_transition c of None \<Rightarrow> zero_time | Some t \<Rightarrow> t) in if e < 0 then 0 else e)"

definition attemptsForStep :: "runner \<Rightarrow> string \<Rightarrow> sworld \<Rightarrow> int \<times> sworld" where
  "attemptsForStep r ty w =
     (case FindCondition (o_conditions w) ty of
        None \<Rightarrow> (0, w)
      | Some c \<Rightarrow>
          if cd_status c \<noteq> ConditionFalse then (0, w)
          else (case rnow r w of (now, w1) \<Rightarrow> (elapsed now c div initial_backoff r, w1)))"

text \<open>
  \<open>float64(init)\<close> rounds to 53 bits, ties to even; doubling a float is exact. A product that does not
  fit in \<open>int64\<close> converts to what the platform gives, the smallest number on \<open>amd64\<close>, the largest on
  \<open>arm64\<close>: an argument of the model.
\<close>

function excess_bits :: "int \<Rightarrow> nat" where
  "excess_bits n = (if n < 2 ^ 53 then 0 else Suc (excess_bits (n div 2)))"
  by pat_completeness auto
termination
  by (relation "measure nat") auto

declare excess_bits.simps [simp del]

definition round53 :: "int \<Rightarrow> int" where
  "round53 n =
     (let k = excess_bits n; q = n div 2 ^ k; rem = n mod 2 ^ k
      in (if k > 0 \<and> (rem > 2 ^ (k - 1) \<or> (rem = 2 ^ (k - 1) \<and> odd q)) then q + 1 else q) * 2 ^ k)"

definition pow_backoff :: "int \<Rightarrow> int \<Rightarrow> nat \<Rightarrow> int" where
  "pow_backoff platform init attempts =
     (if round53 init * 2 ^ attempts < 2 ^ 63 then round53 init * 2 ^ attempts else platform)"

definition backoffForStep :: "int \<Rightarrow> runner \<Rightarrow> string \<Rightarrow> sworld \<Rightarrow> int \<times> sworld" where
  "backoffForStep platform r ty w =
     (case FindCondition (o_conditions w) ty of
        None \<Rightarrow> (initial_backoff r, w)
      | Some c \<Rightarrow>
          (case rnow r w of (now, w1) \<Rightarrow>
             (let attempts = elapsed now c div initial_backoff r;
                  backoff = pow_backoff platform (initial_backoff r) (nat attempts);
                  backoff = (if backoff > max_backoff r then max_backoff r else backoff);
                  backoff = (if backoff < initial_backoff r then initial_backoff r else backoff)
              in (backoff, w1))))"

section \<open>One step\<close>

datatype step_result = Next "saga_err option" | Return run_result

definition no_result :: run_result where
  "no_result = \<lparr>rr_requeue_after = 0, rr_blocked = False, rr_complete = False, rr_err = None\<rparr>"

definition skip_metric :: "runner \<Rightarrow> string \<Rightarrow> saga_step \<Rightarrow> sworld \<Rightarrow> sworld" where
  "skip_metric r kind s w =
     (if rn_metrics r then (case rnow r w of (now, w1) \<Rightarrow> observe_step r (st_name s) kind now ''skipped'' w1) else w)"

definition skip_step :: "runner \<Rightarrow> string \<Rightarrow> saga_step \<Rightarrow> sworld \<Rightarrow> sworld" where
  "skip_step r kind s w =
     tell_audit r (StepSkipped (st_name s))
       (skip_metric r kind s (set_cond (st_condition s) ConditionTrue ''Skipped'' w))"

definition block_step :: "runner \<Rightarrow> saga_step \<Rightarrow> saga_err \<Rightarrow> int \<Rightarrow> sworld \<Rightarrow> sworld" where
  "block_step r s e duration w =
     tell_audit r (StepFailed (st_name s) e duration True)
       (event r ''Warning'' ''StepBlocked''
         (set_cond ''Ready'' ConditionFalse ''Blocked''
           (set_cond (st_condition s) ConditionFalse ''StepFailed''
             (set_cond ''Blocked'' ConditionTrue ''SagaFailed'' w))))"

definition retry_step :: "int \<Rightarrow> runner \<Rightarrow> string \<Rightarrow> int \<Rightarrow> saga_step \<Rightarrow> saga_err \<Rightarrow> int \<Rightarrow> sworld \<Rightarrow> run_result \<times> sworld" where
  "retry_step platform r kind started s e duration w =
     (case backoffForStep platform r (st_condition s)
             (tell_audit r (StepFailed (st_name s) e duration False)
               (event r ''Warning'' ''StepFailed''
                 (set_cond ''Ready'' ConditionFalse ''StepFailed''
                   (set_cond (st_condition s) ConditionFalse ''StepFailed'' w)))) of
        (backoff, w) \<Rightarrow>
          (no_result\<lparr>rr_requeue_after := backoff, rr_err := Some e\<rparr>,
           observe_reconcile r kind ''error'' started w))"

definition is_permanent :: "runner \<Rightarrow> saga_err \<Rightarrow> int \<Rightarrow> bool" where
  "is_permanent r e attempts \<longleftrightarrow>
     classify r e = ErrorPermanent \<or>
     (classify r e = ErrorTransient \<and>
      attempts \<ge> (if rn_step_max_attempts r \<le> 0 then defaultStepMaxAttempts else rn_step_max_attempts r))"

definition fail_step ::
  "int \<Rightarrow> runner \<Rightarrow> string \<Rightarrow> int \<Rightarrow> saga_err option \<Rightarrow> saga_step \<Rightarrow> saga_err \<Rightarrow> int \<Rightarrow> int \<Rightarrow> sworld \<Rightarrow> step_result \<times> sworld" where
  "fail_step platform r kind started first s e stepStart duration w =
     (case attemptsForStep r (st_condition s) (observe_step r (st_name s) kind stepStart ''error'' w) of
        (attempts, w) \<Rightarrow>
          if is_permanent r e attempts then
            (if rn_continue_on_blocked r
             then (Next (if first = None then Some e else first), block_step r s e duration w)
             else (Return (no_result\<lparr>rr_blocked := True, rr_err := Some e\<rparr>),
                   observe_reconcile r kind ''error'' started (block_step r s e duration w)))
          else (case retry_step platform r kind started s e duration w of (res, w) \<Rightarrow> (Return res, w)))"

definition run_step ::
  "int \<Rightarrow> runner \<Rightarrow> string \<Rightarrow> int \<Rightarrow> saga_err option \<Rightarrow> saga_step \<Rightarrow> sworld \<Rightarrow> step_result \<times> sworld" where
  "run_step platform r kind started first s w =
     (if st_skip s w then (Next first, skip_step r kind s w)
      else case rnow r (tell_audit r (StepStarted (st_name s)) w) of (stepStart, w) \<Rightarrow>
           (case st_provision s (rn_deps r) w of ((done, err), w) \<Rightarrow>
            (case rnow r w of (now, w) \<Rightarrow>
              (case err of
                 Some e \<Rightarrow> fail_step platform r kind started first s e stepStart (sub now stepStart) w
               | None \<Rightarrow>
                   if \<not> done then
                     (Return (no_result\<lparr>rr_requeue_after := requeueInterval r\<rparr>),
                      observe_reconcile r kind ''inprogress'' started
                        (observe_step r (st_name s) kind stepStart ''inprogress''
                          (set_cond (st_condition s) ConditionFalse ''InProgress'' w)))
                   else
                     (Next first,
                      tell_audit r (StepCompleted (st_name s) (sub now stepStart))
                        (event r ''Normal'' ''StepComplete''
                          (observe_step r (st_name s) kind stepStart ''ok''
                            (set_cond (st_condition s) ConditionTrue ''Ready'' w))))))))"

section \<open>The run\<close>

text \<open>The loop goes on with the first error of a blocked step so far, or returns.\<close>

fun and_next :: "step_result \<times> sworld \<Rightarrow> (saga_err option \<Rightarrow> sworld \<Rightarrow> step_result \<times> sworld) \<Rightarrow> step_result \<times> sworld" where
  "and_next (Return res, w) rest = (Return res, w)"
| "and_next (Next first, w) rest = rest first w"

fun run_steps ::
  "int \<Rightarrow> runner \<Rightarrow> string \<Rightarrow> int \<Rightarrow> saga_step list \<Rightarrow> saga_err option \<Rightarrow> sworld \<Rightarrow> step_result \<times> sworld" where
  "run_steps platform r kind started [] first w = (Next first, w)"
| "run_steps platform r kind started (s # ss) first w =
     and_next (run_step platform r kind started first s w) (\<lambda>first w. run_steps platform r kind started ss first w)"

definition complete_object :: "string \<Rightarrow> sworld \<Rightarrow> sworld" where
  "complete_object finalPhase w = w\<lparr>o_phase := finalPhase, o_observed := o_generation w\<rparr>"

fun finish_run :: "runner \<Rightarrow> string \<Rightarrow> string \<Rightarrow> int \<Rightarrow> step_result \<times> sworld \<Rightarrow> run_result \<times> sworld" where
  "finish_run r kind finalPhase started (Return res, w) = (res, w)"
| "finish_run r kind finalPhase started (Next (Some e), w) =
     (no_result\<lparr>rr_blocked := True, rr_err := Some e\<rparr>, observe_reconcile r kind ''error'' started w)"
| "finish_run r kind finalPhase started (Next None, w) =
     (no_result\<lparr>rr_complete := True\<rparr>,
      observe_reconcile r kind ''ok'' started
        (complete_object finalPhase (set_cond ''Ready'' ConditionTrue ''AllStepsComplete'' w)))"

fun run_sorted :: "int \<Rightarrow> runner \<Rightarrow> string \<Rightarrow> saga_step list \<Rightarrow> string \<Rightarrow> int \<times> sworld \<Rightarrow> run_result \<times> sworld" where
  "run_sorted platform r kind steps finalPhase (started, w) =
     finish_run r kind finalPhase started (run_steps platform r kind started steps None w)"

definition Saga_Run :: "int \<Rightarrow> runner \<Rightarrow> saga_step list \<Rightarrow> string \<Rightarrow> sworld \<Rightarrow> run_result \<times> sworld" where
  "Saga_Run platform r steps finalPhase w =
     (case TopoSort steps of
        Inl e \<Rightarrow> (no_result\<lparr>rr_blocked := True, rr_err := Some (TopologyErr e)\<rparr>, w)
      | Inr out \<Rightarrow> run_sorted platform r (o_kind w) out finalPhase (rnow r w))"

end
