(* ===== verification/SagaProperties.thy ===== *)
theory SagaProperties
  imports SagaRunner
begin

text \<open>
  The properties of the saga runner: the order of the steps, what a run leaves on the object, and the
  retry decision.
\<close>

section \<open>Conditions\<close>

lemma FindCondition_SetCondition:
  "FindCondition (SetCondition cs c now) ty =
     (if ty \<noteq> cd_type c then FindCondition cs ty
      else let c = (if cd_transition c = None then c\<lparr>cd_transition := Some now\<rparr> else c)
           in Some (case FindCondition cs ty of
                      Some x \<Rightarrow> if cd_status x = cd_status c then c\<lparr>cd_transition := cd_transition x\<rparr> else c
                    | None \<Rightarrow> c))"
proof -
  have "find (\<lambda>c. cd_type c = ty) (replace_condition cs c) =
     (if ty \<noteq> cd_type c then find (\<lambda>c. cd_type c = ty) cs
      else Some (case find (\<lambda>c. cd_type c = ty) cs of
                   Some x \<Rightarrow> if cd_status x = cd_status c then c\<lparr>cd_transition := cd_transition x\<rparr> else c
                 | None \<Rightarrow> c))" for c
    by (induction cs) auto
  then show ?thesis by (simp add: FindCondition_def SetCondition_def Let_def)
qed

lemma IsConditionTrue_SetCondition:
  "IsConditionTrue (SetCondition cs c now) ty =
     (if ty = cd_type c then cd_status c = ConditionTrue else IsConditionTrue cs ty)"
  by (auto simp: IsConditionTrue_def FindCondition_SetCondition Let_def split: option.splits)

lemma SetCondition_types:
  "cd_type ` set (SetCondition cs c now) = insert (cd_type c) (cd_type ` set cs)"
  "distinct (map cd_type cs) \<Longrightarrow> distinct (map cd_type (SetCondition cs c now))"
proof -
  have types: "cd_type ` set (replace_condition cs c) = insert (cd_type c) (cd_type ` set cs)" for cs c
    by (induction cs) auto
  have "distinct (map cd_type cs) \<Longrightarrow> distinct (map cd_type (replace_condition cs c))" for cs c
  proof (induction cs)
    case (Cons x cs)
    then show ?case using types [of cs c] by auto
  qed simp
  then show "distinct (map cd_type cs) \<Longrightarrow> distinct (map cd_type (SetCondition cs c now))"
    by (simp add: SetCondition_def)
  show "cd_type ` set (SetCondition cs c now) = insert (cd_type c) (cd_type ` set cs)"
    by (simp add: SetCondition_def types)
qed

section \<open>What the helpers change\<close>

lemma rnow_fields:
  assumes "rnow r w = (t, w')"
  shows "o_conditions w' = o_conditions w" "audit w' = audit w"
  using assms by (auto simp: rnow_def split: option.splits)

lemma hook_fields [simp]:
  "o_conditions (complete_object ph w) = o_conditions w" "audit (complete_object ph w) = audit w"
  "o_conditions (tell_audit r e w) = o_conditions w" "o_conditions (event r k v w) = o_conditions w"
  "o_conditions (observe_step r n k t v w) = o_conditions w"
  "audit (event r k v w) = audit w" "audit (observe_step r n k t v w) = audit w"
  "audit (set_cond ty st v w) = audit w"
  "audit (tell_audit r e w) = (if rn_audit r then audit w @ [e] else audit w)"
  by (simp_all add: complete_object_def tell_audit_def event_def observe_step_def set_cond_def)

lemma observe_reconcile_fields [simp]:
  "o_conditions (observe_reconcile r k v t w) = o_conditions w" "audit (observe_reconcile r k v t w) = audit w"
  by (auto simp: observe_reconcile_def split: prod.splits dest: rnow_fields)

lemma attempts_fields:
  "attemptsForStep r ty w = (n, w') \<Longrightarrow> o_conditions w' = o_conditions w \<and> audit w' = audit w"
  "backoffForStep p r ty w = (n, w') \<Longrightarrow> o_conditions w' = o_conditions w \<and> audit w' = audit w"
  by (auto simp: attemptsForStep_def backoffForStep_def Let_def split: option.splits prod.splits if_splits
      dest: rnow_fields)

lemma fail_step_cases:
  assumes "fail_step p r k t f s e b d w = (res, w')"
  obtains w1 where "o_conditions w1 = o_conditions w" "audit w1 = audit w"
    "res = Next (if f = None then Some e else f) \<and> rn_continue_on_blocked r \<and> w' = block_step r s e d w1 \<or>
     (\<exists>rr. res = Return rr \<and> \<not> rr_complete rr \<and>
        (w' = observe_reconcile r k ''error'' t (block_step r s e d w1) \<or> retry_step p r k t s e d w1 = (rr, w')))"
proof -
  obtain n w1 where att: "attemptsForStep r (st_condition s) (observe_step r (st_name s) k b ''error'' w) = (n, w1)"
    by force
  obtain rr w2 where retry: "retry_step p r k t s e d w1 = (rr, w2)" by force
  then have rr: "\<not> rr_complete rr" by (auto simp: retry_step_def no_result_def Let_def split: prod.splits)
  note same = attempts_fields(1) [OF att]
  define perm where "perm = is_permanent r e n"
  have eq: "(res, w') = (if perm then
      (if rn_continue_on_blocked r then (Next (if f = None then Some e else f), block_step r s e d w1)
       else (Return (no_result\<lparr>rr_blocked := True, rr_err := Some e\<rparr>),
             observe_reconcile r k ''error'' t (block_step r s e d w1)))
      else (Return rr, w2))"
    unfolding assms [symmetric] fail_step_def att retry Let_def prod.case perm_def ..
  have blocked: "\<not> rr_complete (no_result\<lparr>rr_blocked := True, rr_err := Some e\<rparr>)" by (simp add: no_result_def)
  show ?thesis
  proof (rule that [of w1])
    show "o_conditions w1 = o_conditions w" "audit w1 = audit w" using same by simp_all
    show "res = Next (if f = None then Some e else f) \<and> rn_continue_on_blocked r \<and> w' = block_step r s e d w1 \<or>
      (\<exists>rr. res = Return rr \<and> \<not> rr_complete rr \<and>
         (w' = observe_reconcile r k ''error'' t (block_step r s e d w1) \<or> retry_step p r k t s e d w1 = (rr, w')))"
    proof (cases perm)
      case True
      with eq blocked show ?thesis by (cases "rn_continue_on_blocked r") (simp_all del: observe_reconcile_fields)
    next
      case False
      with eq rr retry show ?thesis by simp
    qed
  qed
qed

text \<open>A property of the conditions that every \<open>SetCondition\<close> keeps.\<close>

locale condition_invariant =
  fixes P :: "condition list \<Rightarrow> bool"
  assumes set_condition: "P cs \<Longrightarrow> P (SetCondition cs c now)"
begin

lemma set_cond: "P (o_conditions w) \<Longrightarrow> P (o_conditions (set_cond ty st v w))"
  by (simp add: set_cond_def set_condition)

lemma skip_step: "P (o_conditions w) \<Longrightarrow> P (o_conditions (skip_step r k s w))"
  using set_cond [of w] by (auto simp: skip_step_def skip_metric_def split: prod.splits dest: rnow_fields)

lemma block_step: "P (o_conditions w) \<Longrightarrow> P (o_conditions (block_step r s e d w))"
  by (simp add: block_step_def Let_def set_cond)

lemma retry_step: "P (o_conditions w) \<Longrightarrow> retry_step p r k t s e d w = (res, w') \<Longrightarrow> P (o_conditions w')"
  by (auto simp: retry_step_def Let_def set_cond split: prod.splits dest!: attempts_fields)

lemma fail_step:
  assumes "P (o_conditions w)" "fail_step p r k t f s e b d w = (res, w')" shows "P (o_conditions w')"
proof -
  obtain w1 where "o_conditions w1 = o_conditions w"
    "res = Next (if f = None then Some e else f) \<and> rn_continue_on_blocked r \<and> w' = block_step r s e d w1 \<or>
     (\<exists>rr. res = Return rr \<and> \<not> rr_complete rr \<and>
        (w' = observe_reconcile r k ''error'' t (block_step r s e d w1) \<or> retry_step p r k t s e d w1 = (rr, w')))"
    by (rule fail_step_cases [OF assms(2)])
  then show ?thesis using assms(1) block_step [of w1] retry_step [of w1] by auto
qed

lemma run_step:
  assumes keeps: "\<And>d w. P (o_conditions w) \<Longrightarrow> P (o_conditions (snd (st_provision s d w)))"
    and "P (o_conditions w)" "run_step p r k t f s w = (res, w')"
  shows "P (o_conditions w')"
proof (cases "st_skip s w")
  case True
  with assms show ?thesis by (auto simp: run_step_def skip_step)
next
  case False
  obtain t0 w0 where w0: "rnow r (tell_audit r (StepStarted (st_name s)) w) = (t0, w0)" by force
  obtain dn err w1 where w1: "st_provision s (rn_deps r) w0 = ((dn, err), w1)" by (metis prod.exhaust)
  obtain t2 w2 where w2: "rnow r w1 = (t2, w2)" by force
  have "P (o_conditions w0)" using rnow_fields(1) [OF w0] assms(2) by simp
  then have "P (o_conditions w1)" using keeps [of w0 "rn_deps r"] w1 by simp
  then have "P (o_conditions w2)" using rnow_fields(1) [OF w2] by simp
  then show ?thesis
    using assms(3) False w0 w1 w2
    by (auto simp: run_step_def Let_def set_cond split: option.splits if_splits intro: fail_step)
qed

lemma run_steps:
  assumes "\<And>s d w. s \<in> set ss \<Longrightarrow> P (o_conditions w) \<Longrightarrow> P (o_conditions (snd (st_provision s d w)))"
    and "P (o_conditions w)" "run_steps p r k t ss f w = (res, w')"
  shows "P (o_conditions w')"
  using assms
proof (induction ss arbitrary: f w)
  case (Cons s ss)
  obtain res1 w1 where one: "run_step p r k t f s w = (res1, w1)" by force
  have "P (o_conditions w1)" by (rule run_step [OF _ Cons.prems(2) one]) (simp add: Cons.prems(1))
  with Cons one show ?case by (cases res1) auto
qed simp

lemma Saga_Run:
  assumes "\<And>s d w. s \<in> set steps \<Longrightarrow> P (o_conditions w) \<Longrightarrow> P (o_conditions (snd (st_provision s d w)))"
    and "P (o_conditions w)" "Saga_Run p r steps ph w = (res, w')"
    and sorted: "\<And>out. TopoSort steps = Inr out \<Longrightarrow> set out \<subseteq> set steps"
  shows "P (o_conditions w')"
proof (cases "TopoSort steps")
  case (Inl e)
  with assms show ?thesis by (simp add: Saga_Run_def)
next
  case (Inr out)
  obtain t0 w0 where w0: "rnow r w = (t0, w0)" by force
  obtain res1 w1 where run: "run_steps p r (o_kind w) t0 out None w0 = (res1, w1)" by force
  have start: "P (o_conditions w0)" using rnow_fields(1) [OF w0] assms(2) by simp
  have "P (o_conditions w1)" using assms(1) sorted [OF Inr] by (intro run_steps [OF _ start run]) blast
  with assms(3) Inr w0 run show ?thesis
    by (auto simp: Saga_Run_def set_cond elim!: finish_run.elims)
qed

end

interpretation one_per_type: condition_invariant "\<lambda>cs. distinct (map cd_type cs)"
  by unfold_locales (rule SetCondition_types)

section \<open>The sorted steps\<close>

lemma TopoSort_Inr:
  assumes "TopoSort steps = Inr out"
  shows "mset out = mset steps" "ordered out" "distinct (map st_name steps)" "[] \<notin> st_name ` set steps"
    "\<forall>s \<in> set steps. set (st_requires s) \<subseteq> st_name ` set steps"
proof -
  from assms have names: "check_names steps {} = None" and req: "check_requires (set (map st_name steps)) steps = None"
    and loop: "topo_loop steps (topo_start steps) = Inr out"
    by (auto simp: TopoSort_def split: option.splits)
  show ok: "distinct (map st_name steps)" "[] \<notin> st_name ` set steps" using names by (simp_all add: check_names_None)
  show "\<forall>s \<in> set steps. set (st_requires s) \<subseteq> st_name ` set steps" using req by (simp add: check_requires_None)
  show "mset out = mset steps" "ordered out"
    using topo_loop_Inr [OF ok(1) topo_inv_start [OF ok(1)] loop] by simp_all
qed

section \<open>One step and its audit trail\<close>

definition finished :: "string \<Rightarrow> audit_event \<Rightarrow> bool" where
  "finished n e \<longleftrightarrow> e = StepSkipped n \<or> (\<exists>d. e = StepCompleted n d)"

lemma run_step_Next:
  assumes "run_step p r k t f s w = (Next g, w')" "\<not> rn_continue_on_blocked r \<or> g = None"
  obtains w0 w1 where "g = f" "if st_skip s w then w1 = w \<and> w' = skip_step r k s w else
      o_conditions w0 = o_conditions w \<and> (\<exists>dn. fst (st_provision s (rn_deps r) w0) = (dn, None)) \<and>
      audit w0 = audit w @ (if rn_audit r then [StepStarted (st_name s)] else []) \<and>
      o_conditions w1 = o_conditions (snd (st_provision s (rn_deps r) w0)) \<and>
      audit w1 = audit (snd (st_provision s (rn_deps r) w0)) \<and>
      o_conditions w' = o_conditions (set_cond (st_condition s) ConditionTrue ''Ready'' w1) \<and>
      (\<exists>d. audit w' = audit w1 @ (if rn_audit r then [StepCompleted (st_name s) d] else []))"
proof (cases "st_skip s w")
  case True
  with assms show ?thesis by (intro that [of w w]) (auto simp: run_step_def)
next
  case False
  obtain t0 w0 where w0: "rnow r (tell_audit r (StepStarted (st_name s)) w) = (t0, w0)" by force
  obtain dn err w1 where w1: "st_provision s (rn_deps r) w0 = ((dn, err), w1)" by (metis prod.exhaust)
  obtain t2 w2 where w2: "rnow r w1 = (t2, w2)" by force
  note run = assms(1) [unfolded run_step_def Let_def w0 w1 w2 prod.case, simplified False if_False]
  have err: "err = None"
  proof (cases err)
    case (Some e)
    with run have "fail_step p r k t f s e t0 (sub t2 t0) w2 = (Next g, w')" by simp
    then show ?thesis
    proof (rule fail_step_cases)
      fix wx
      assume "Next g = Next (if f = None then Some e else f) \<and> rn_continue_on_blocked r \<and> w' = block_step r s e (sub t2 t0) wx \<or>
         (\<exists>rr. Next g = Return rr \<and> \<not> rr_complete rr \<and>
          (w' = observe_reconcile r k ''error'' t (block_step r s e (sub t2 t0) wx) \<or> retry_step p r k t s e (sub t2 t0) wx = (rr, w')))"
      with assms(2) show ?thesis by (auto split: if_splits)
    qed
  qed simp
  with run have "dn" by (auto split: if_splits)
  with run err have g: "g = f" and w': "w' = tell_audit r (StepCompleted (st_name s) (sub t2 t0))
      (event r ''Normal'' ''StepComplete'' (observe_step r (st_name s) k t0 ''ok''
        (set_cond (st_condition s) ConditionTrue ''Ready'' w2)))" by simp_all
  show ?thesis
    using False g err w1 rnow_fields [OF w0] rnow_fields [OF w2]
    by (intro that [of w2 w0]) (simp_all add: w')
qed

lemma step_audits:
  "audit (skip_step r k s w) = audit w @ (if rn_audit r then [StepSkipped (st_name s)] else [])"
  "audit (block_step r s e d w) = audit w @ (if rn_audit r then [StepFailed (st_name s) e d True] else [])"
  "retry_step p r k t s e d w = (rr, w') \<Longrightarrow>
     audit w' = audit w @ (if rn_audit r then [StepFailed (st_name s) e d False] else [])"
  by (auto simp: skip_step_def skip_metric_def block_step_def retry_step_def split: prod.splits
      dest: rnow_fields attempts_fields)

text \<open>What one step adds to the audit trail, when the work of the step does not write there itself.\<close>

lemma run_step_audit:
  assumes keeps: "\<And>d w. audit (snd (st_provision s d w)) = audit w" and "rn_audit r" "\<not> rn_continue_on_blocked r"
    and run: "run_step p r k t f s w = (res, w')"
  obtains entries where "audit w' = audit w @ entries" "\<And>n. StepStarted n \<in> set entries \<Longrightarrow> n = st_name s"
    "\<And>g. res = Next g \<Longrightarrow> \<exists>e \<in> set entries. finished (st_name s) e"
proof (cases "st_skip s w")
  case True
  with run assms(2) show ?thesis
    by (intro that [of "[StepSkipped (st_name s)]"]) (auto simp: run_step_def step_audits finished_def)
next
  case False
  obtain t0 w0 where w0: "rnow r (tell_audit r (StepStarted (st_name s)) w) = (t0, w0)" by force
  obtain dn err w1 where w1: "st_provision s (rn_deps r) w0 = ((dn, err), w1)" by (metis prod.exhaust)
  obtain t2 w2 where w2: "rnow r w1 = (t2, w2)" by force
  note run = run [unfolded run_step_def Let_def w0 w1 w2 prod.case, simplified False if_False]
  have started: "audit w2 = audit w @ [StepStarted (st_name s)]"
    using rnow_fields(2) [OF w0] rnow_fields(2) [OF w2] keeps [of "rn_deps r" w0] w1 assms(2) by simp
  show ?thesis
  proof (cases err)
    case (Some e)
    with run have "fail_step p r k t f s e t0 (sub t2 t0) w2 = (res, w')" by simp
    then show ?thesis
    proof (rule fail_step_cases)
      fix wx
      assume wx: "audit wx = audit w2" "res = Next (if f = None then Some e else f) \<and> rn_continue_on_blocked r \<and>
          w' = block_step r s e (sub t2 t0) wx \<or>
         (\<exists>rr. res = Return rr \<and> \<not> rr_complete rr \<and>
          (w' = observe_reconcile r k ''error'' t (block_step r s e (sub t2 t0) wx) \<or> retry_step p r k t s e (sub t2 t0) wx = (rr, w')))"
      then obtain b where "audit w' = audit w2 @ [StepFailed (st_name s) e (sub t2 t0) b]" "\<And>g. res \<noteq> Next g"
        using assms(2,3) by (auto simp: step_audits)
      with started show ?thesis
        by (intro that [of "[StepStarted (st_name s), StepFailed (st_name s) e (sub t2 t0) b]"]) auto
    qed
  next
    case None
    show ?thesis
    proof (cases dn)
      case True
      with run None started assms(2) show ?thesis
        by (intro that [of "[StepStarted (st_name s), StepCompleted (st_name s) (sub t2 t0)]"])
           (auto simp: finished_def)
    next
      case False
      with run None started show ?thesis by (intro that [of "[StepStarted (st_name s)]"]) auto
    qed
  qed
qed

text \<open>A step is started only after the steps before it in the list are finished.\<close>

definition starts_in_order :: "saga_step list \<Rightarrow> audit_event list \<Rightarrow> bool" where
  "starts_in_order ss entries \<longleftrightarrow>
     (\<forall>i n. i < length entries \<and> entries ! i = StepStarted n \<longrightarrow>
        (\<exists>m < length ss. n = st_name (ss ! m) \<and>
           (\<forall>s \<in> set (take m ss). \<exists>e \<in> set (take i entries). finished (st_name s) e)))"

lemma starts_in_order_first:
  assumes "\<And>n. StepStarted n \<in> set entries \<Longrightarrow> n = st_name s" shows "starts_in_order (s # ss) entries"
  unfolding starts_in_order_def using assms nth_mem by (fastforce intro: exI [of _ 0])

lemma starts_in_order_Cons:
  assumes "starts_in_order ss later" "\<And>n. StepStarted n \<in> set entries \<Longrightarrow> n = st_name s"
    "\<exists>e \<in> set entries. finished (st_name s) e"
  shows "starts_in_order (s # ss) (entries @ later)"
  unfolding starts_in_order_def
proof (intro allI impI)
  fix i n assume i: "i < length (entries @ later) \<and> (entries @ later) ! i = StepStarted n"
  show "\<exists>m < length (s # ss). n = st_name ((s # ss) ! m) \<and>
      (\<forall>x \<in> set (take m (s # ss)). \<exists>e \<in> set (take i (entries @ later)). finished (st_name x) e)"
  proof (cases "i < length entries")
    case True
    with i have "StepStarted n \<in> set entries" by (metis nth_append nth_mem)
    with assms(2) show ?thesis by (intro exI [of _ 0]) simp
  next
    case False
    let ?i = "i - length entries"
    from False i have "?i < length later" "later ! ?i = StepStarted n" by (auto simp: nth_append)
    with assms(1) obtain m where m: "m < length ss" "n = st_name (ss ! m)"
      "\<forall>x \<in> set (take m ss). \<exists>e \<in> set (take ?i later). finished (st_name x) e"
      unfolding starts_in_order_def by blast
    have "set (take i (entries @ later)) = set entries \<union> set (take ?i later)" using False by simp
    with m assms(3) show ?thesis by (intro exI [of _ "Suc m"]) auto
  qed
qed

lemma run_steps_audit:
  assumes "\<And>s d w. s \<in> set ss \<Longrightarrow> audit (snd (st_provision s d w)) = audit w" "rn_audit r" "\<not> rn_continue_on_blocked r"
    and "run_steps p r k t ss f w = (res, w')"
  shows "\<exists>entries. audit w' = audit w @ entries \<and> starts_in_order ss entries"
  using assms(1,4)
proof (induction ss arbitrary: f w)
  case Nil
  then show ?case by (intro exI [of _ "[]"]) (simp add: starts_in_order_def)
next
  case (Cons s ss)
  obtain res1 w1 where one: "run_step p r k t f s w = (res1, w1)" by force
  obtain entries where e: "audit w1 = audit w @ entries" "\<And>n. StepStarted n \<in> set entries \<Longrightarrow> n = st_name s"
    "\<And>g. res1 = Next g \<Longrightarrow> \<exists>e \<in> set entries. finished (st_name s) e"
    by (rule run_step_audit [OF _ assms(2,3) one]) (use Cons.prems(1) in auto)
  show ?case
  proof (cases res1)
    case (Next g)
    with Cons.prems(2) one have "run_steps p r k t ss g w1 = (res, w')" by simp
    with Cons.IH [of g w1] Cons.prems(1) obtain later where "audit w' = audit w1 @ later" "starts_in_order ss later"
      by (metis list.set_intros(2))
    with e starts_in_order_Cons [of ss later entries s] Next show ?thesis by auto
  next
    case (Return rr)
    with Cons.prems(2) one have "w' = w1" by simp
    with e starts_in_order_first [of entries s ss] show ?thesis by auto
  qed
qed

section \<open>Completed runs\<close>

lemma run_steps_complete:
  assumes "\<And>s d w. s \<in> set ss \<Longrightarrow> o_conditions (snd (st_provision s d w)) = o_conditions w"
    and "run_steps p r k t ss f w = (Next None, w')"
  shows "f = None \<and> (\<forall>ty. IsConditionTrue (o_conditions w') ty \<longleftrightarrow>
    ty \<in> st_condition ` set ss \<or> IsConditionTrue (o_conditions w) ty)"
  using assms
proof (induction ss arbitrary: f w)
  case (Cons s ss)
  obtain res1 w1 where one: "run_step p r k t f s w = (res1, w1)" by force
  with Cons.prems(2) obtain g where g: "res1 = Next g" "run_steps p r k t ss g w1 = (Next None, w')"
    by (cases res1) auto
  have IH: "g = None" "IsConditionTrue (o_conditions w') ty \<longleftrightarrow>
      ty \<in> st_condition ` set ss \<or> IsConditionTrue (o_conditions w1) ty" for ty
    using Cons.IH [OF _ g(2)] Cons.prems(1) by simp_all
  have step: "f = None \<and> (\<forall>ty. IsConditionTrue (o_conditions w1) ty \<longleftrightarrow>
      ty = st_condition s \<or> IsConditionTrue (o_conditions w) ty)"
  proof (rule run_step_Next [OF one [unfolded g(1)]])
    show "\<not> rn_continue_on_blocked r \<or> g = None" using IH(1) by simp
  next
    fix x0 x1
    assume "g = f" and out: "if st_skip s w then x1 = w \<and> w1 = skip_step r k s w else
      o_conditions x0 = o_conditions w \<and> (\<exists>dn. fst (st_provision s (rn_deps r) x0) = (dn, None)) \<and>
      audit x0 = audit w @ (if rn_audit r then [StepStarted (st_name s)] else []) \<and>
      o_conditions x1 = o_conditions (snd (st_provision s (rn_deps r) x0)) \<and>
      audit x1 = audit (snd (st_provision s (rn_deps r) x0)) \<and>
      o_conditions w1 = o_conditions (set_cond (st_condition s) ConditionTrue ''Ready'' x1) \<and>
      (\<exists>d. audit w1 = audit x1 @ (if rn_audit r then [StepCompleted (st_name s) d] else []))"
    have "o_conditions w1 = o_conditions (set_cond (st_condition s) ConditionTrue
        (if st_skip s w then ''Skipped'' else ''Ready'') x1) \<and> o_conditions x1 = o_conditions w"
      using out Cons.prems(1) [of s] by (auto simp: skip_step_def skip_metric_def split: if_splits prod.splits dest: rnow_fields)
    then show ?thesis using \<open>g = f\<close> IH(1) by (auto simp: set_cond_def IsConditionTrue_SetCondition)
  qed
  with IH show ?case by auto
qed simp

lemma run_step_Return: "run_step p r k t f s w = (Return rr, w') \<Longrightarrow> \<not> rr_complete rr"
  by (auto simp: run_step_def Let_def no_result_def split: if_splits option.splits prod.splits elim!: fail_step_cases)

lemma run_steps_Return: "run_steps p r k t ss f w = (Return rr, w') \<Longrightarrow> \<not> rr_complete rr"
proof (induction ss arbitrary: f w)
  case (Cons s ss)
  obtain res1 w1 where one: "run_step p r k t f s w = (res1, w1)" by force
  with Cons show ?case by (cases res1) (auto dest: run_step_Return)
qed simp

section \<open>Properties\<close>

text \<open>
  C10: \<open>TopoSort\<close> succeeds exactly when every step has a name of its own, every requirement names a step
  and no step requires itself through others; then it returns the steps, each once, with every
  requirement before the step that names it.
\<close>

theorem TopoSort_exact:
  "((\<exists>out. TopoSort steps = Inr out) \<longleftrightarrow>
      [] \<notin> st_name ` set steps \<and> distinct (map st_name steps) \<and>
      (\<forall>s \<in> set steps. set (st_requires s) \<subseteq> st_name ` set steps) \<and> acyclic (required_by steps)) \<and>
   (TopoSort steps = Inr out \<longrightarrow>
      mset out = mset steps \<and>
      (\<forall>i < length out. set (st_requires (out ! i)) \<subseteq> st_name ` set (take i out)))"
proof -
  have "acyclic (required_by steps)" if "TopoSort steps = Inr out" for out
  proof -
    note sort = TopoSort_Inr [OF that]
    have "set out = set steps" using sort(1) by (metis set_mset_mset)
    moreover have "distinct (map st_name out)"
      using sort(1,3) by (metis mset_map mset_eq_imp_distinct_iff)
    ultimately show ?thesis using ordered_acyclic [OF sort(2)] by (simp add: required_by_def)
  qed
  moreover have "\<exists>out. TopoSort steps = Inr out"
    if ok: "[] \<notin> st_name ` set steps" "distinct (map st_name steps)"
      "\<forall>s \<in> set steps. set (st_requires s) \<subseteq> st_name ` set steps" "acyclic (required_by steps)"
  proof (cases "topo_loop steps (topo_start steps)")
    case (Inl e)
    from topo_loop_Inl [OF ok(2,3) topo_inv_start [OF ok(2)] this] ok(4) show ?thesis by simp
  next
    case (Inr out)
    have "check_names steps {} = None" "check_requires (set (map st_name steps)) steps = None"
      using ok(1-3) by (simp_all add: check_names_None check_requires_None)
    with Inr show ?thesis by (simp add: TopoSort_def)
  qed
  ultimately show ?thesis using TopoSort_Inr [of steps] unfolding ordered_def by blast
qed

definition plain_step :: "string \<Rightarrow> string list \<Rightarrow> saga_step" where
  "plain_step n reqs = FromStepFn n (n @ ''Done'') (\<lambda>w. ((True, None), w)) [WithRequires reqs]"

definition demo_steps :: "saga_step list" where
  "demo_steps = [plain_step ''a'' [''c''], plain_step ''b'' [], plain_step ''c'' []]"

theorem TopoSort_exact_witness:
  "\<exists>out. TopoSort demo_steps = Inr out \<and> mset out = mset demo_steps \<and> acyclic (required_by demo_steps)"
proof -
  have "\<not> isl (TopoSort demo_steps)" by code_simp
  then obtain out where "TopoSort demo_steps = Inr out" by (cases "TopoSort demo_steps") auto
  with TopoSort_exact [of demo_steps out] show ?thesis by blast
qed

text \<open>The order is not stable: \<open>a\<close> and \<open>b\<close> do not depend on each other, and change places.\<close>

lemma TopoSort_not_stable: "map_sum id (map st_name) (TopoSort demo_steps) = Inr [''b'', ''c'', ''a'']"
  by code_simp

text \<open>
  C11: a step starts only after every step it requires is completed or skipped in the same run, as the
  audit hook sees it, whatever the steps do and wherever the run stops, unless blocked steps are
  passed over.
\<close>

theorem Run_starts_after_requirements:
  assumes "\<forall>s \<in> set steps. \<forall>d w. audit (snd (st_provision s d w)) = audit w"
    "rn_audit r" "\<not> rn_continue_on_blocked r" "Saga_Run platform r steps finalPhase w = (res, w')"
  shows "\<exists>entries. audit w' = audit w @ entries \<and>
    (\<forall>i s. i < length entries \<and> s \<in> set steps \<and> entries ! i = StepStarted (st_name s) \<longrightarrow>
       (\<forall>d \<in> set (st_requires s). \<exists>e \<in> set (take i entries). finished d e))"
proof (cases "TopoSort steps")
  case (Inl e)
  with assms(4) show ?thesis by (intro exI [of _ "[]"]) (simp add: Saga_Run_def)
next
  case (Inr out)
  note sort = TopoSort_Inr [OF Inr]
  have same: "set out = set steps" using sort(1) by (metis set_mset_mset)
  obtain t0 w0 where w0: "rnow r w = (t0, w0)" by force
  obtain res1 w1 where run: "run_steps platform r (o_kind w) t0 out None w0 = (res1, w1)" by force
  obtain entries where e: "audit w1 = audit w0 @ entries" "starts_in_order out entries"
    using run_steps_audit [OF _ assms(2,3) run] assms(1) same by blast
  have "audit w' = audit w1"
    using assms(4) Inr w0 run by (auto simp: Saga_Run_def elim!: finish_run.elims)
  then have "audit w' = audit w @ entries" using e(1) rnow_fields(2) [OF w0] by simp
  moreover have "\<exists>e \<in> set (take i entries). finished d e"
    if i: "i < length entries" "entries ! i = StepStarted (st_name s)" "s \<in> set steps" "d \<in> set (st_requires s)" for i s d
  proof -
    from e(2) i(1,2) obtain m where m: "m < length out" "st_name s = st_name (out ! m)"
      "\<forall>x \<in> set (take m out). \<exists>e \<in> set (take i entries). finished (st_name x) e"
      unfolding starts_in_order_def by blast
    have "s = out ! m"
      using sort(3) i(3) m(1,2) same by (metis inj_onD distinct_map nth_mem)
    then have "d \<in> st_name ` set (take m out)" using sort(2) i(4) m(1) by (auto simp: ordered_def)
    with m(3) show ?thesis by auto
  qed
  ultimately show ?thesis by blast
qed

definition demo_runner :: runner where
  "demo_runner = \<lparr>rn_deps = None, rn_recorder = True, rn_audit = True, rn_metrics = True,
     rn_classifier = None, rn_max_backoff = 0, rn_initial_backoff = 0, rn_requeue = 0,
     rn_step_max_attempts = 0, rn_continue_on_blocked = False, rn_clock = None\<rparr>"

definition demo_sworld :: sworld where
  "demo_sworld = \<lparr>o_generation = 1, o_conditions = [], o_phase = [], o_observed = 0, o_kind = ''Tenant'',
     wall_clock = \<lambda>n. int n * second, wall_ticks = 0, own_ticks = 0, audit = [], metrics = [], recorded = []\<rparr>"

lemma demo_steps_plain: "\<forall>s \<in> set demo_steps. \<forall>d w. snd (st_provision s d w) = w"
  by (simp add: demo_steps_def plain_step_def FromStepFn_def)

theorem Run_starts_after_requirements_witness:
  "\<exists>w'. Saga_Run 0 demo_runner demo_steps ''Ready'' demo_sworld = (no_result\<lparr>rr_complete := True\<rparr>, w') \<and>
     (\<exists>e \<in> set (take 4 (audit w')). finished ''c'' e) \<and> audit w' ! 4 = StepStarted ''a''"
proof -
  let ?run = "Saga_Run 0 demo_runner demo_steps ''Ready'' demo_sworld"
  obtain w' where run: "?run = (fst ?run, w')" by (metis prod.collapse)
  have res: "fst ?run = no_result\<lparr>rr_complete := True\<rparr>" and a: "audit (snd ?run) ! 4 = StepStarted ''a''"
    and len: "length (audit (snd ?run)) = 6" by code_simp+
  have facts: "\<forall>s \<in> set demo_steps. \<forall>d w. audit (snd (st_provision s d w)) = audit w" "rn_audit demo_runner"
    "\<not> rn_continue_on_blocked demo_runner" "audit demo_sworld = []"
    using demo_steps_plain by (simp_all add: demo_runner_def demo_sworld_def)
  have w': "snd ?run = w'" using run by (metis snd_conv)
  have "plain_step ''a'' [''c''] \<in> set demo_steps" "st_name (plain_step ''a'' [''c'']) = ''a''"
    "st_requires (plain_step ''a'' [''c'']) = [''c'']"
    by (simp_all add: demo_steps_def plain_step_def FromStepFn_def)
  note a_step = this
  from Run_starts_after_requirements [OF facts(1-3) run] facts(4) obtain entries where "audit w' = entries"
    and order: "\<And>i s d. i < length entries \<Longrightarrow> s \<in> set demo_steps \<Longrightarrow> entries ! i = StepStarted (st_name s) \<Longrightarrow>
      d \<in> set (st_requires s) \<Longrightarrow> \<exists>e \<in> set (take i entries). finished d e" by auto
  then have "\<exists>e \<in> set (take 4 (audit w')). finished ''c'' e"
    using order [of 4 "plain_step ''a'' [''c'']" "''c''"] a_step a len unfolding w' by simp
  then show ?thesis using run a unfolding res w' by blast
qed

text \<open>
  C38: a run that reports completion leaves the condition of every step true, the object ready in the
  final phase and its generation observed, when the work of the steps leaves the conditions to the
  runner.
\<close>

theorem Run_complete:
  assumes "\<forall>s \<in> set steps. \<forall>d w. o_conditions (snd (st_provision s d w)) = o_conditions w"
    "Saga_Run platform r steps finalPhase w = (res, w')" "rr_complete res"
  shows "(\<forall>s \<in> set steps. IsConditionTrue (o_conditions w') (st_condition s)) \<and>
    IsConditionTrue (o_conditions w') ''Ready'' \<and> o_phase w' = finalPhase \<and> o_observed w' = o_generation w' \<and>
    rr_err res = None \<and> \<not> rr_blocked res"
proof -
  obtain out where out: "TopoSort steps = Inr out"
    using assms(2,3) by (cases "TopoSort steps") (auto simp: Saga_Run_def no_result_def)
  have same: "set out = set steps" using TopoSort_Inr(1) [OF out] by (metis set_mset_mset)
  obtain t0 w0 where w0: "rnow r w = (t0, w0)" by force
  obtain res1 w1 where run: "run_steps platform r (o_kind w) t0 out None w0 = (res1, w1)" by force
  have next_none: "res1 = Next None"
  proof (cases res1)
    case (Next g)
    then show ?thesis
      using assms(2,3) out w0 run by (cases g) (auto simp: Saga_Run_def Let_def no_result_def)
  next
    case (Return rr)
    then show ?thesis using assms(2,3) out w0 run run_steps_Return by (auto simp: Saga_Run_def Let_def)
  qed
  let ?w2 = "set_cond ''Ready'' ConditionTrue ''AllStepsComplete'' w1"
  let ?w3 = "complete_object finalPhase ?w2"
  have res: "res = no_result\<lparr>rr_complete := True\<rparr>" "w' = observe_reconcile r (o_kind w) ''ok'' t0 ?w3"
    using assms(2) out w0 run next_none by (simp_all add: Saga_Run_def Let_def)
  have fields: "o_phase w' = finalPhase" "o_observed w' = o_generation w'"
    unfolding res(2) complete_object_def by (auto simp: observe_reconcile_def rnow_def split: option.splits)
  have conds: "IsConditionTrue (o_conditions w1) (st_condition s)" if "s \<in> set steps" for s
    using run_steps_complete [OF _ run [unfolded next_none]] assms(1) same that by blast
  have "IsConditionTrue (o_conditions w') ty \<longleftrightarrow> ty = ''Ready'' \<or> IsConditionTrue (o_conditions w1) ty" for ty
    by (simp add: res(2) set_cond_def IsConditionTrue_SetCondition)
  with conds fields show ?thesis by (simp add: res(1) no_result_def)
qed

theorem Run_complete_witness:
  "IsConditionTrue (o_conditions (snd (Saga_Run 0 demo_runner demo_steps ''Ready'' demo_sworld))) ''aDone''"
proof -
  let ?run = "Saga_Run 0 demo_runner demo_steps ''Ready'' demo_sworld"
  have "rr_complete (fst ?run)" by code_simp
  moreover have "\<forall>s \<in> set demo_steps. \<forall>d w. o_conditions (snd (st_provision s d w)) = o_conditions w"
    using demo_steps_plain by simp
  moreover have "plain_step ''a'' [''c''] \<in> set demo_steps" "st_condition (plain_step ''a'' [''c'']) = ''aDone''"
    by (simp_all add: demo_steps_def plain_step_def FromStepFn_def)
  ultimately show ?thesis using Run_complete [of demo_steps 0 demo_runner "''Ready''" demo_sworld "fst ?run" "snd ?run"]
    by (metis prod.collapse)
qed

text \<open>
  C39: the object has one condition of each type after a run if it had before, whatever happens in the
  run, when the work of the steps keeps it so.
\<close>

theorem Run_one_condition_per_type:
  assumes "\<forall>s \<in> set steps. \<forall>d w. distinct (map cd_type (o_conditions w)) \<longrightarrow>
      distinct (map cd_type (o_conditions (snd (st_provision s d w))))"
    "distinct (map cd_type (o_conditions w))"
  shows "distinct (map cd_type (o_conditions (snd (Saga_Run platform r steps finalPhase w))))"
proof -
  obtain res w' where run: "Saga_Run platform r steps finalPhase w = (res, w')" by force
  have "set out \<subseteq> set steps" if "TopoSort steps = Inr out" for out
    using TopoSort_Inr(1) [OF that] by (metis order_refl set_mset_mset)
  with one_per_type.Saga_Run [OF _ assms(2) run] assms(1) show ?thesis by (simp add: run)
qed

theorem Run_one_condition_per_type_witness:
  "distinct (map cd_type (o_conditions (snd (Saga_Run 0 demo_runner demo_steps ''Ready'' demo_sworld))))"
proof (rule Run_one_condition_per_type)
  show "\<forall>s \<in> set demo_steps. \<forall>d w. distinct (map cd_type (o_conditions w)) \<longrightarrow>
      distinct (map cd_type (o_conditions (snd (st_provision s d w))))" using demo_steps_plain by simp
  show "distinct (map cd_type (o_conditions demo_sworld))" by (simp add: demo_sworld_def)
qed

section \<open>Retries\<close>

lemma initial_backoff_pos: "0 < initial_backoff r"
  by (simp add: initial_backoff_def second_def)

lemma round53_small: "n < 2 ^ 53 \<Longrightarrow> round53 n = n"
  by (simp add: round53_def excess_bits.simps [of n] Let_def)

lemma pow_backoff_exact:
  "init < 2 ^ 53 \<Longrightarrow> init * 2 ^ n < 2 ^ 63 \<Longrightarrow> pow_backoff platform init n = init * 2 ^ n"
  by (simp add: pow_backoff_def round53_small)

lemma le_div_int: "0 < b \<Longrightarrow> a \<le> x div b \<longleftrightarrow> a * b \<le> (x :: int)"
proof
  assume "0 < b" "a \<le> x div b"
  then have "a * b \<le> x div b * b" by (simp add: mult_right_mono)
  also have "\<dots> \<le> x" using \<open>0 < b\<close> by (metis div_mult_mod_eq le_add_same_cancel1 pos_mod_sign)
  finally show "a * b \<le> x" .
next
  assume b: "0 < b" and "a * b \<le> x"
  from zdiv_mono1 [OF this(2) b] b show "a \<le> x div b" by simp
qed

text \<open>
  The backoff is never below the initial one, and never above the largest one allowed (or the
  initial one, if that is larger), whatever the platform makes of an overflow; and until the product
  overflows it is the initial backoff doubled for each initial backoff that has passed since the
  condition changed.
\<close>

theorem backoff_bounds:
  "initial_backoff r \<le> fst (backoffForStep platform r ty w) \<and>
   fst (backoffForStep platform r ty w) \<le> max (initial_backoff r) (max_backoff r) \<and>
   (FindCondition (o_conditions w) ty = Some c \<and> n = nat (elapsed (fst (rnow r w)) c div initial_backoff r) \<and>
    initial_backoff r < 2 ^ 53 \<and> initial_backoff r * 2 ^ n < 2 ^ 63 \<longrightarrow>
      fst (backoffForStep platform r ty w) =
        max (initial_backoff r) (min (max_backoff r) (initial_backoff r * 2 ^ n)))"
proof -
  obtain now w1 where now: "rnow r w = (now, w1)" by force
  show ?thesis
    using pow_backoff_exact [of "initial_backoff r" n platform]
    by (auto simp: backoffForStep_def now Let_def min_def max_def split: option.splits)
qed

theorem backoff_bounds_witness:
  "fst (backoffForStep 0 demo_runner ''a''
     (demo_sworld\<lparr>o_conditions := [\<lparr>cd_type = ''a'', cd_status = ConditionFalse, cd_reason = [],
        cd_generation = 0, cd_transition = Some 0\<rparr>], wall_ticks := 3\<rparr>)) = 8 * second"
proof -
  let ?c = "\<lparr>cd_type = ''a'', cd_status = ConditionFalse, cd_reason = [], cd_generation = 0, cd_transition = Some 0\<rparr>"
  let ?w = "demo_sworld\<lparr>o_conditions := [?c], wall_ticks := 3\<rparr>"
  have "FindCondition (o_conditions ?w) ''a'' = Some ?c" by (simp add: FindCondition_def)
  moreover have "3 = nat (elapsed (fst (rnow demo_runner ?w)) ?c div initial_backoff demo_runner)" by code_simp
  moreover have b: "initial_backoff demo_runner = 1000000000" "max_backoff demo_runner = 300000000000" by code_simp+
  moreover have "initial_backoff demo_runner < 2 ^ 53" "initial_backoff demo_runner * 2 ^ 3 < 2 ^ 63"
    unfolding b by simp_all
  ultimately have "fst (backoffForStep 0 demo_runner ''a'' ?w) =
      max (initial_backoff demo_runner) (min (max_backoff demo_runner) (initial_backoff demo_runner * 2 ^ 3))"
    using backoff_bounds [of demo_runner 0 "''a''" ?w ?c 3] by blast
  then show ?thesis unfolding b by (simp add: second_def)
qed

text \<open>
  Once the product overflows, a platform whose conversion gives the smallest number falls back to the
  initial backoff: after 34 seconds instead of the five-minute cap.
\<close>

lemma backoff_collapses:
  "fst (backoffForStep (- (2 ^ 63)) demo_runner ''a''
     (demo_sworld\<lparr>o_conditions := [\<lparr>cd_type = ''a'', cd_status = ConditionFalse, cd_reason = [],
        cd_generation = 0, cd_transition = Some 0\<rparr>], wall_ticks := 34\<rparr>)) = second"
  by code_simp

text \<open>
  C40: whether an error blocks a step is decided by its class and by the time since the condition of the
  step turned false: a permanent error blocks, and a transient one blocks as soon as that time reaches
  the attempt limit times the initial backoff. How often the step has failed plays no part.
\<close>

theorem retry_decision:
  assumes "\<not> rn_continue_on_blocked r"
    "fail_step platform r kind started first s e stepStart duration w = (Return res, w')"
  shows "rr_blocked res \<longleftrightarrow>
    classify r e = ErrorPermanent \<or>
    (\<exists>c. FindCondition (o_conditions w) (st_condition s) = Some c \<and> cd_status c = ConditionFalse \<and>
         elapsed (fst (rnow r w)) c \<ge>
           (if rn_step_max_attempts r \<le> 0 then defaultStepMaxAttempts else rn_step_max_attempts r) * initial_backoff r)"
proof -
  define limit where
    "limit = (if rn_step_max_attempts r \<le> 0 then defaultStepMaxAttempts else rn_step_max_attempts r)"
  let ?w0 = "observe_step r (st_name s) kind stepStart ''error'' w"
  have limit: "0 < limit" by (simp add: limit_def defaultStepMaxAttempts_def)
  have clock: "fst (rnow r ?w0) = fst (rnow r w)" by (simp add: rnow_def observe_step_def split: option.splits)
  obtain n w1 where att: "attemptsForStep r (st_condition s) ?w0 = (n, w1)" by force
  obtain rr w2 where retry: "retry_step platform r kind started s e duration w1 = (rr, w2)" by force
  have rr: "\<not> rr_blocked rr" using retry by (auto simp: retry_step_def no_result_def split: prod.splits)
  have waited: "limit \<le> n \<longleftrightarrow> (\<exists>c. FindCondition (o_conditions w) (st_condition s) = Some c \<and> cd_status c = ConditionFalse \<and>
         elapsed (fst (rnow r w)) c \<ge> limit * initial_backoff r)"
  proof (cases "FindCondition (o_conditions w) (st_condition s)")
    case None
    then show ?thesis using att limit by (simp add: attemptsForStep_def)
  next
    case (Some c)
    have "limit \<le> elapsed t c div initial_backoff r \<longleftrightarrow> limit * initial_backoff r \<le> elapsed t c" for t
      using initial_backoff_pos [of r] by (rule le_div_int)
    with Some att limit clock show ?thesis
      by (auto simp: attemptsForStep_def split: if_splits prod.splits)
  qed
  moreover have "classify r e = ErrorPermanent \<or> classify r e = ErrorTransient"
    by (cases "classify r e") simp_all
  moreover have "rr_blocked res \<longleftrightarrow> is_permanent r e n"
    using assms att retry rr by (auto simp: fail_step_def no_result_def split: if_splits)
  ultimately show ?thesis unfolding is_permanent_def limit_def by blast
qed

text \<open>A step that has been in progress for twenty seconds and then meets its first error.\<close>

definition slow_world :: sworld where
  "slow_world = demo_sworld\<lparr>o_conditions := [\<lparr>cd_type = ''aDone'', cd_status = ConditionFalse,
     cd_reason = ''InProgress'', cd_generation = 1, cd_transition = Some 0\<rparr>], wall_ticks := 20\<rparr>"

definition flaky_step :: saga_step where
  "flaky_step = FromStepFn ''a'' ''aDone'' (\<lambda>w. ((False, Some (StepErr ''timeout'')), w)) []"

theorem retry_decision_witness:
  "\<exists>res w'. fail_step 0 demo_runner ''Tenant'' 0 None flaky_step (StepErr ''timeout'') 0 0 slow_world = (Return res, w') \<and>
     rr_blocked res \<and> classify demo_runner (StepErr ''timeout'') = ErrorTransient"
proof -
  let ?fail = "fail_step 0 demo_runner ''Tenant'' 0 None flaky_step (StepErr ''timeout'') 0 0 slow_world"
  have "case fst ?fail of Return _ \<Rightarrow> True | Next _ \<Rightarrow> False" by code_simp
  then obtain res w' where fail: "?fail = (Return res, w')" by (cases ?fail) (auto split: step_result.splits)
  let ?c = "\<lparr>cd_type = ''aDone'', cd_status = ConditionFalse, cd_reason = ''InProgress'', cd_generation = 1,
    cd_transition = Some 0\<rparr>"
  have "FindCondition (o_conditions slow_world) (st_condition flaky_step) = Some ?c"
    by (simp add: FindCondition_def slow_world_def flaky_step_def FromStepFn_def)
  moreover have "elapsed (fst (rnow demo_runner slow_world)) ?c \<ge>
      (if rn_step_max_attempts demo_runner \<le> 0 then defaultStepMaxAttempts else rn_step_max_attempts demo_runner) *
        initial_backoff demo_runner" by code_simp
  moreover have "\<not> rn_continue_on_blocked demo_runner" "classify demo_runner (StepErr ''timeout'') = ErrorTransient"
    by (simp_all add: demo_runner_def classify_def)
  ultimately show ?thesis using retry_decision [OF _ fail] fail by auto
qed

text \<open>
  The condition \<open>Blocked\<close> that a failed run sets is left true by a later run that completes.
\<close>

definition two_runs :: "run_result \<times> (run_result \<times> sworld)" where
  "two_runs = map_prod id (Saga_Run 0 demo_runner [plain_step ''a'' []] ''Ready'')
     (Saga_Run 0 demo_runner [flaky_step] ''Ready'' slow_world)"

lemma blocked_condition_stays:
  "rr_blocked (fst two_runs) \<and> rr_complete (fst (snd two_runs)) \<and>
     IsConditionTrue (o_conditions (snd (snd two_runs))) ''Ready'' \<and>
     IsConditionTrue (o_conditions (snd (snd two_runs))) ''Blocked''"
  by code_simp

text \<open>The startup check passes exactly when the steps can be sorted and every client they need is there.\<close>

lemma ValidateAtStartup_None:
  "ValidateAtStartup steps deps = None \<longleftrightarrow>
     (\<exists>out. TopoSort steps = Inr out) \<and> (\<forall>s \<in> set steps. \<forall>c \<in> set (st_clients s). Has deps c)"
proof -
  have add: "add_missing c n m \<noteq> []" for c n m by (cases "(c, n, m)" rule: add_missing.cases) simp_all
  have one: "missing_of deps s m = [] \<longleftrightarrow> m = [] \<and> (\<forall>c \<in> set (st_clients s). Has deps c)" for s m
  proof -
    have "fold (\<lambda>c m. if \<not> Has deps c then add_missing c (st_name s) m else m) cs m = [] \<longleftrightarrow>
        m = [] \<and> (\<forall>c \<in> set cs. Has deps c)" for cs
      by (induction cs arbitrary: m) (auto simp: add)
    then show ?thesis by (simp add: missing_of_def)
  qed
  have "fold (missing_of deps) steps m = [] \<longleftrightarrow> m = [] \<and> (\<forall>s \<in> set steps. \<forall>c \<in> set (st_clients s). Has deps c)" for m
    by (induction steps arbitrary: m) (auto simp: one)
  then show ?thesis by (cases "TopoSort steps") (simp_all add: ValidateAtStartup_def)
qed

end
