(* ===== verification/Sha256.thy ===== *)
theory Sha256
  imports Prelude "HOL-Library.Word"
begin

text \<open>
  What the audit trail uses of the standard library: \<open>binary.BigEndian\<close> and \<open>crypto/sha256\<close>. The
  hash is written out (padding, message schedule, 64 rounds for each block), so that the chain of the
  model is the chain of the program. Byte strings are strings.
\<close>

unbundle bit_operations_syntax

section \<open>Big-endian numbers\<close>

fun be_bytes :: "nat \<Rightarrow> nat \<Rightarrow> string" where
  "be_bytes 0 n = []"
| "be_bytes (Suc k) n = be_bytes k (n div 256) @ [char_of n]"

fun be_value :: "nat \<Rightarrow> string \<Rightarrow> nat" where
  "be_value acc [] = acc"
| "be_value acc (c # cs) = be_value (acc * 256 + of_char c) cs"

lemma length_be_bytes [simp]: "length (be_bytes k n) = k"
  by (induction k arbitrary: n) auto

lemma be_value_append: "be_value acc (xs @ ys) = be_value (be_value acc xs) ys"
  by (induction xs arbitrary: acc) auto

lemma be_value_bytes: "n < 256 ^ k \<Longrightarrow> be_value 0 (be_bytes k n) = n"
proof (induction k arbitrary: n)
  case (Suc k)
  then have "n div 256 < 256 ^ k" by (simp add: less_mult_imp_div_less mult.commute)
  then have "be_value 0 (be_bytes k (n div 256)) = n div 256" by (rule Suc.IH)
  then show ?case by (simp add: be_value_append)
qed simp

lemma be_bytes_inj: "be_bytes k n = be_bytes k m \<Longrightarrow> n < 256 ^ k \<Longrightarrow> m < 256 ^ k \<Longrightarrow> n = m"
  by (metis be_value_bytes)

section \<open>SHA-256\<close>

type_synonym u32 = "32 word"

type_synonym sha_state = "u32 \<times> u32 \<times> u32 \<times> u32 \<times> u32 \<times> u32 \<times> u32 \<times> u32"

definition rotr :: "nat \<Rightarrow> u32 \<Rightarrow> u32" where
  "rotr n x = drop_bit n x OR push_bit (32 - n) x"

definition small_sigma0 :: "u32 \<Rightarrow> u32" where
  "small_sigma0 x = rotr 7 x XOR rotr 18 x XOR drop_bit 3 x"

definition small_sigma1 :: "u32 \<Rightarrow> u32" where
  "small_sigma1 x = rotr 17 x XOR rotr 19 x XOR drop_bit 10 x"

definition big_sigma0 :: "u32 \<Rightarrow> u32" where
  "big_sigma0 x = rotr 2 x XOR rotr 13 x XOR rotr 22 x"

definition big_sigma1 :: "u32 \<Rightarrow> u32" where
  "big_sigma1 x = rotr 6 x XOR rotr 11 x XOR rotr 25 x"

definition sha_choose :: "u32 \<Rightarrow> u32 \<Rightarrow> u32 \<Rightarrow> u32" where
  "sha_choose x y z = (x AND y) XOR (NOT x AND z)"

definition majority :: "u32 \<Rightarrow> u32 \<Rightarrow> u32 \<Rightarrow> u32" where
  "majority x y z = (x AND y) XOR (x AND z) XOR (y AND z)"

text \<open>
  The constants are the first 32 bits of the fractions of roots of primes: of the square roots of the
  first 8 for the start, of the cube roots of the first 64 for the rounds. \<open>root_bits\<close> finds the whole
  part of a root bit by bit.
\<close>

fun root_bits :: "nat \<Rightarrow> nat \<Rightarrow> int \<Rightarrow> int \<Rightarrow> int" where
  "root_bits k 0 n r = r"
| "root_bits k (Suc i) n r = root_bits k i n (if (r + 2 ^ i) ^ k \<le> n then r + 2 ^ i else r)"

definition root_fraction :: "nat \<Rightarrow> int \<Rightarrow> u32" where
  "root_fraction k p = word_of_int (root_bits k 35 (p * 2 ^ (32 * k)) 0)"

definition no_divisor :: "int \<Rightarrow> bool" where
  "no_divisor n \<longleftrightarrow> list_all (\<lambda>d. n \<le> d \<or> n mod d \<noteq> 0) [2..17]"

definition small_primes :: "int list" where
  "small_primes = filter no_divisor [2..311]"

definition round_constants :: "u32 list" where
  "round_constants = map (root_fraction 3) small_primes"

fun as_state :: "u32 list \<Rightarrow> sha_state" where
  "as_state [a, b, c, d, e, f, g, h] = (a, b, c, d, e, f, g, h)"
| "as_state _ = (0, 0, 0, 0, 0, 0, 0, 0)"

definition initial_hash :: sha_state where
  "initial_hash = as_state (map (root_fraction 2) (take 8 small_primes))"

text \<open>\<open>root_bits\<close> is the whole part of the root, and the only number that can be.\<close>

lemma root_bits_root:
  "0 \<le> r \<Longrightarrow> r ^ k \<le> n \<Longrightarrow> n < (r + 2 ^ i) ^ k \<Longrightarrow>
     0 \<le> root_bits k i n r \<and> root_bits k i n r ^ k \<le> n \<and> n < (root_bits k i n r + 1) ^ k"
proof (induction i arbitrary: r)
  case (Suc i)
  have half: "r + 2 ^ i + 2 ^ i = r + 2 ^ Suc i" by simp
  show ?case
  proof (cases "(r + 2 ^ i) ^ k \<le> n")
    case True
    then show ?thesis using Suc.IH [of "r + 2 ^ i"] Suc.prems unfolding half by simp
  next
    case False
    then show ?thesis using Suc.IH [of r] Suc.prems by simp
  qed
qed simp

lemma root_unique:
  fixes q r :: int
  assumes "0 \<le> q" "q ^ k \<le> n" "n < (q + 1) ^ k" "0 \<le> r" "r ^ k \<le> n" "n < (r + 1) ^ k"
  shows "q = r"
proof -
  have "q < r + 1" using power_less_imp_less_base [of q k "r + 1"] assms by simp
  moreover have "r < q + 1" using power_less_imp_less_base [of r k "q + 1"] assms by simp
  ultimately show ?thesis by simp
qed

lemma root_fractionI:
  assumes "0 \<le> q" "q < 2 ^ 35" "q ^ k \<le> p * 2 ^ (32 * k)" "p * 2 ^ (32 * k) < (q + 1) ^ k"
  shows "root_fraction k p = word_of_int q"
proof -
  have n0: "0 \<le> p * 2 ^ (32 * k)" using assms(1,3) zero_le_power order_trans by blast
  have "0 < k" using assms(3,4) by (cases k) auto
  then have "(0 :: int) ^ k \<le> p * 2 ^ (32 * k)" using n0 by (simp only: zero_power)
  moreover have "p * 2 ^ (32 * k) < (0 + 2 ^ 35) ^ k"
    using assms(4) power_mono [of "q + 1" "2 ^ 35" k] assms(1,2) by simp
  ultimately have "root_bits k 35 (p * 2 ^ (32 * k)) 0 = q"
    using root_bits_root [of 0 k "p * 2 ^ (32 * k)" 35] assms by (intro root_unique) simp_all
  then show ?thesis by (simp add: root_fraction_def)
qed

lemma root_fractions:
  assumes "list_all2 (\<lambda>p q. 0 \<le> q \<and> q < 2 ^ 35 \<and> q ^ k \<le> p * 2 ^ (32 * k) \<and> p * 2 ^ (32 * k) < (q + 1) ^ k) ps qs"
  shows "map (root_fraction k) ps = map word_of_int qs"
  using assms by (induction rule: list_all2_induct) (auto intro: root_fractionI)

text \<open>The message, a one bit, zeros up to eight bytes before a block boundary, and the length in bits.\<close>

definition sha_pad :: "string \<Rightarrow> string" where
  "sha_pad m =
     m @ CHR 0x80 # replicate ((119 - length m mod 64) mod 64) (CHR 0x00) @ be_bytes 8 (8 * length m)"

fun be_words :: "string \<Rightarrow> u32 list" where
  "be_words (a # b # c # d # rest) = word_of_nat (be_value 0 [a, b, c, d]) # be_words rest"
| "be_words _ = []"

text \<open>The message schedule, newest word first.\<close>

fun schedule :: "nat \<Rightarrow> u32 list \<Rightarrow> u32 list" where
  "schedule 0 ws = rev ws"
| "schedule (Suc n) ws =
     schedule n ((small_sigma1 (ws ! 1) + ws ! 6 + small_sigma0 (ws ! 14) + ws ! 15) # ws)"

fun round_t1 :: "u32 \<times> u32 \<Rightarrow> sha_state \<Rightarrow> u32" where
  "round_t1 (k, x) (a, b, c, d, e, f, g, h) = h + big_sigma1 e + sha_choose e f g + k + x"

fun round_t2 :: "sha_state \<Rightarrow> u32" where
  "round_t2 (a, b, c, d, e, f, g, h) = big_sigma0 a + majority a b c"

fun shift_state :: "u32 \<Rightarrow> u32 \<Rightarrow> sha_state \<Rightarrow> sha_state" where
  "shift_state t1 t2 (a, b, c, d, e, f, g, h) = (t1 + t2, a, b, c, d + t1, e, f, g)"

definition sha_round :: "u32 \<times> u32 \<Rightarrow> sha_state \<Rightarrow> sha_state" where
  "sha_round kx st = shift_state (round_t1 kx st) (round_t2 st) st"

fun add_state :: "sha_state \<Rightarrow> sha_state \<Rightarrow> sha_state" where
  "add_state (a, b, c, d, e, f, g, h) (a', b', c', d', e', f', g', h') =
     (a + a', b + b', c + c', d + d', e + e', f + f', g + g', h + h')"

definition compress :: "u32 list \<Rightarrow> sha_state \<Rightarrow> sha_state" where
  "compress block st =
     add_state st (fold sha_round (zip round_constants (schedule 48 (rev block))) st)"

function blocks :: "u32 list \<Rightarrow> sha_state \<Rightarrow> sha_state" where
  "blocks [] st = st"
| "blocks (x # xs) st = blocks (drop 15 xs) (compress (x # take 15 xs) st)"
  by pat_completeness auto
termination
  by (relation "measure (\<lambda>(ws, st). length ws)") auto

fun digest :: "sha_state \<Rightarrow> string" where
  "digest (a, b, c, d, e, f, g, h) =
     concat (map (\<lambda>x. be_bytes 4 (unat x)) [a, b, c, d, e, f, g, h])"

definition sha256 :: "string \<Rightarrow> string" where
  "sha256 m = digest (blocks (be_words (sha_pad m)) initial_hash)"

lemma length_sha256 [simp]: "length (sha256 m) = 32"
proof -
  have "length (digest st) = 32" for st by (cases st) auto
  then show ?thesis by (simp add: sha256_def)
qed

text \<open>The padded message is a whole number of blocks.\<close>

lemma sha_pad_blocks: "length (sha_pad m) mod 64 = 0"
proof -
  have "(r + 1 + (119 - r) mod 64 + 8) mod 64 = 0" if "r < 64" for r :: nat
  proof (cases "r \<le> 55")
    case True
    then have "(119 - r) mod 64 = 55 - r" by (simp add: le_mod_geq mod_if)
    then show ?thesis using True by simp
  next
    case False
    then have "(119 - r) mod 64 = 119 - r" by simp
    then show ?thesis using False that by simp
  qed
  from this [of "length m mod 64"]
  have "(length m mod 64 + (1 + (119 - length m mod 64) mod 64 + 8)) mod 64 = 0" by (simp add: ac_simps)
  then have "(length m + (1 + (119 - length m mod 64) mod 64 + 8)) mod 64 = 0"
    by (simp only: mod_add_left_eq)
  then show ?thesis by (simp add: sha_pad_def)
qed

text \<open>The first test vector of FIPS 180-4.\<close>

lemma be_bytes_numeral: "be_bytes (numeral k) n = be_bytes (pred_numeral k) (n div 256) @ [char_of n]"
  by (simp only: numeral_eq_Suc [of k] be_bytes.simps)

lemma replicate_numeral: "replicate (numeral k) x = x # replicate (pred_numeral k) x"
  by (simp only: numeral_eq_Suc [of k] replicate.simps)

section \<open>The constants in numbers\<close>

text \<open>The whole roots, with 32 binary places.\<close>

definition scaled_square_roots :: "int list" where
  "scaled_square_roots =
     [6074000999, 7439101573, 9603838834, 11363415354, 14244795007, 15485724812, 17708603819,
      18721328409]"

definition scaled_cube_roots :: "int list" where
  "scaled_cube_roots =
     [5411319704, 6194414737, 7344290767, 8215976869, 9551921755, 10098905585, 11043570340,
      11460697813, 12214315672, 13195500289, 13492127166, 14311783875, 14809980276, 15046980094,
      15499789991, 16133124468, 16720292289, 16907126662, 17444216262, 17784676812, 17950125167,
      18429019306, 18734950876, 19175934170, 19734090066, 20001703533, 20132865992, 20390182855,
      20516441075, 20764397895, 21588763473, 21813078375, 22141143685, 22248366392, 22769593852,
      22871018771, 23170020180, 23461497531, 23651862830, 23931792517, 24205322401, 24295138891,
      24734567280, 24820601251, 24990902297, 25075189284, 25569408389, 26045227120, 26200031510,
      26276752392, 26428864332, 26653801653, 26727943347, 27092625994, 27306805839, 27517677555,
      27725365998, 27793908591, 27997534228, 28131656200, 28198240250, 28526537963, 28973835255,
      29099129074]"

text \<open>The primes are all of the first 311 numbers that have no divisor, 64 of them.\<close>

lemma no_divisorD:
  assumes "no_divisor n" "2 \<le> m" "m \<le> 17" "m < n" shows "\<not> m dvd n"
proof -
  have "m \<in> set [2..17]" unfolding set_upto atLeastAtMost_iff using assms(2,3) by blast
  from bspec [OF assms(1) [unfolded no_divisor_def list_all_iff] this]
  have "n mod m \<noteq> 0" using assms(4) by (metis leD)
  then show ?thesis by (rule contrapos_nn) (rule dvd_imp_mod_0)
qed

lemma no_divisor_prime:
  fixes d n :: int
  assumes n: "n \<le> 311" "no_divisor n" and d: "2 \<le> d" "d < n" shows "\<not> d dvd n"
proof
  assume "d dvd n"
  then obtain e where e: "n = d * e" by (rule dvdE)
  have "0 < e" using zero_less_mult_pos [of d e] d unfolding e by linarith
  moreover have "e \<noteq> 1" using d(2) unfolding e by auto
  ultimately have "2 \<le> e" by linarith
  have "e < n" unfolding e using mult_strict_right_mono [of 1 d e] d(1) \<open>0 < e\<close> by linarith
  have "d \<le> 17 \<or> e \<le> 17"
  proof (rule ccontr)
    assume "\<not> (d \<le> 17 \<or> e \<le> 17)"
    then have "18 * 18 \<le> d * e" by (intro mult_mono) linarith+
    with e n(1) show False by linarith
  qed
  then show False
    using no_divisorD [OF n(2) d(1) _ d(2)] no_divisorD [OF n(2) \<open>2 \<le> e\<close> _ \<open>e < n\<close>] \<open>d dvd n\<close> e dvd_triv_right by blast
qed

lemma length_small_primes: "length small_primes = 64"
  by code_simp

lemma initial_hash_eval: "initial_hash = as_state (map word_of_int scaled_square_roots)"
proof -
  have "list_all2 (\<lambda>p q. 0 \<le> q \<and> q < 2 ^ 35 \<and> q ^ 2 \<le> p * 2 ^ (32 * 2) \<and> p * 2 ^ (32 * 2) < (q + 1) ^ 2)
      (take 8 small_primes) scaled_square_roots" by code_simp
  then show ?thesis unfolding initial_hash_def by (simp only: root_fractions)
qed

lemma round_constants_eval: "round_constants = map word_of_int scaled_cube_roots"
proof -
  have "list_all2 (\<lambda>p q. 0 \<le> q \<and> q < 2 ^ 35 \<and> q ^ 3 \<le> p * 2 ^ (32 * 3) \<and> p * 2 ^ (32 * 3) < (q + 1) ^ 3)
      small_primes scaled_cube_roots" by code_simp
  then show ?thesis unfolding round_constants_def by (rule root_fractions)
qed

lemma abc_words:
  "be_words (sha_pad ''abc'') = [0x61626380, 0, 0, 0, 0, 0, 0, 0, 0, 0, 0, 0, 0, 0, 0, 24]"
  by (simp add: sha_pad_def be_bytes_numeral replicate_numeral)

lemma abc_compress:
  "compress [0x61626380, 0, 0, 0, 0, 0, 0, 0, 0, 0, 0, 0, 0, 0, 0, 24] initial_hash =
     (0xba7816bf, 0x8f01cfea, 0x414140de, 0x5dae2223, 0xb00361a3, 0x96177a9c, 0xb410ff61, 0xf20015ad)"
  unfolding compress_def round_constants_eval initial_hash_eval by code_simp

lemma sha256_abc:
  "sha256 ''abc'' =
     [CHR 0xba, CHR 0x78, CHR 0x16, CHR 0xbf, CHR 0x8f, CHR 0x01, CHR 0xcf, CHR 0xea,
      CHR 0x41, CHR 0x41, CHR 0x40, CHR 0xde, CHR 0x5d, CHR 0xae, CHR 0x22, CHR 0x23,
      CHR 0xb0, CHR 0x03, CHR 0x61, CHR 0xa3, CHR 0x96, CHR 0x17, CHR 0x7a, CHR 0x9c,
      CHR 0xb4, CHR 0x10, CHR 0xff, CHR 0x61, CHR 0xf2, CHR 0x00, CHR 0x15, CHR 0xad]"
proof -
  have "blocks [0x61626380, 0, 0, 0, 0, 0, 0, 0, 0, 0, 0, 0, 0, 0, 0, 24] initial_hash =
      compress [0x61626380, 0, 0, 0, 0, 0, 0, 0, 0, 0, 0, 0, 0, 0, 0, 24] initial_hash" by simp
  then show ?thesis by (simp add: sha256_def abc_words abc_compress be_bytes_numeral char_of_def bit_0)
qed

end
