(* ===== verification/AuditChain.thy ===== *)
theory AuditChain
  imports Effects Sha256
begin

text \<open>
  The audit trail (\<open>internal/platform/audit\<close>), the hash chain: the tables of the platform database
  that the trail uses (migrations 022, 035, 037 and 043), the canonical encoding of a row and its
  hash, the anchor and the head of a chain, and the verifier (\<open>chain.go\<close>).

  A call to the database takes one outcome from \<open>afaults\<close>. The advisory lock of a tenant makes the
  transactions on its chain serial, so a transaction is one step of the world. The clock counts
  nanoseconds; the database keeps microseconds. Which byte strings a text column accepts is left to
  the database (\<open>text_ok\<close>). Texts of errors and of a report are left out.
\<close>

section \<open>Rows\<close>

record chain_row =
  cr_seq :: int
  cr_tenant :: string
  cr_actor :: string
  cr_actor_type :: string
  cr_action :: string
  cr_target_type :: string
  cr_target_id :: string
  cr_decision :: string
  cr_metadata :: string
  cr_created :: int
  cr_prev :: string
  cr_entry :: string

definition chainHashLen :: nat where "chainHashLen = 32"

definition chainGenesis :: string where
  "chainGenesis = replicate chainHashLen (CHR 0x00)"

text \<open>A field behind its length in four bytes, cut off at the largest length there is.\<close>

definition writeField :: "string \<Rightarrow> string" where
  "writeField b = be_bytes 4 (min (length b) (2 ^ 32 - 1)) @ b"

definition writeUint64 :: "int \<Rightarrow> string" where
  "writeUint64 v = writeField (be_bytes 8 (nat (v mod 2 ^ 64)))"

definition canonical :: "chain_row \<Rightarrow> string" where
  "canonical r =
     writeUint64 (cr_seq r) @ writeField (cr_prev r) @ writeField (cr_tenant r) @
     writeField (cr_actor r) @ writeField (cr_actor_type r) @ writeField (cr_action r) @
     writeField (cr_target_type r) @ writeField (cr_target_id r) @ writeField (cr_decision r) @
     writeField (cr_metadata r) @ writeUint64 (cr_created r)"

definition computeEntryHash :: "chain_row \<Rightarrow> string" where
  "computeEntryHash r = sha256 (canonical r)"

definition tenantAdvisoryKey :: "string \<Rightarrow> int" where
  "tenantAdvisoryKey t =
     to_int64 (int (be_value 0 (take 8 (sha256 (''gibson.audit_log.chain:'' @ t)))))"

section \<open>Tables\<close>

text \<open>\<open>audit_log\<close>: a row from before the chain has no position; its hashes read as empty.\<close>

record audit_row =
  ar_id :: int
  ar_tenant :: string
  ar_actor :: string
  ar_actor_type :: string
  ar_action :: string
  ar_target_type :: "string option"
  ar_target_id :: "string option"
  ar_decision :: "string option"
  ar_metadata :: string
  ar_created :: int
  ar_seq :: "int option"
  ar_prev :: string
  ar_entry :: string

record chain_anchor =
  an_first :: int
  an_prev :: string
  an_pruned :: int

record export_cursor =
  ec_exported :: int
  ec_pending :: "(int \<times> int) option"

record audit_db =
  audit_log :: "audit_row list"
  anchors :: "string \<Rightarrow> chain_anchor option"
  cursors :: "string \<Rightarrow> export_cursor option"
  tenant_months :: "string \<Rightarrow> int option"
  next_row_id :: int
  text_ok :: "string \<Rightarrow> bool"

text \<open>The rows of a tenant's chain, in chain order.\<close>

definition chained :: "string \<Rightarrow> audit_db \<Rightarrow> audit_row list" where
  "chained t d =
     sort_key (\<lambda>r. the (ar_seq r)) (filter (\<lambda>r. ar_tenant r = t \<and> ar_seq r \<noteq> None) (audit_log d))"

text \<open>A chained row as it is read back: a missing text is the empty one.\<close>

definition coalesce_text :: "string option \<Rightarrow> string" where
  "coalesce_text x = (case x of None \<Rightarrow> [] | Some s \<Rightarrow> s)"

definition scan_row :: "string \<Rightarrow> audit_row \<Rightarrow> chain_row" where
  "scan_row t r =
     \<lparr>cr_seq = the (ar_seq r), cr_tenant = t, cr_actor = ar_actor r, cr_actor_type = ar_actor_type r,
      cr_action = ar_action r, cr_target_type = coalesce_text (ar_target_type r),
      cr_target_id = coalesce_text (ar_target_id r), cr_decision = coalesce_text (ar_decision r),
      cr_metadata = ar_metadata r, cr_created = ar_created r, cr_prev = ar_prev r, cr_entry = ar_entry r\<rparr>"

definition chain_of :: "string \<Rightarrow> audit_db \<Rightarrow> chain_row list" where
  "chain_of t d = map (scan_row t) (chained t d)"

section \<open>The world\<close>

record exported_record =
  er_id :: int
  er_row :: chain_row

text \<open>An object of the bucket: the records of its lines, and its lock.\<close>

record stored_object =
  so_records :: "exported_record list"
  so_mode :: string
  so_retain_until :: int

record audit_world =
  adb :: audit_db
  bucket :: "string \<Rightarrow> stored_object option"
  afaults :: "fault list"
  anow :: "nat \<Rightarrow> int"
  aticks :: nat

datatype audit_err =
    AuditDB | AuditStore | EmptyTenant | CorruptAnchor string | CorruptHead string
  | CorruptRow string int | RetentionTooShort int | RetentionUnderInstall int int
  | NotANumber string | EmptyUpdatedBy | BadLockMode string | BadLockDays int
  | WrongCount int int | MissingPosition int | PrevMismatch int | EntryMismatch int

type_synonym 'a audit_act = "(audit_err, audit_world, 'a) act"

definition atake :: "audit_world \<Rightarrow> fault \<times> audit_world" where
  "atake w = (next_fault (afaults w), w\<lparr>afaults := tl (afaults w)\<rparr>)"

definition aclock :: "int audit_act" where
  "aclock w = (Inr (anow w (aticks w)), w\<lparr>aticks := Suc (aticks w)\<rparr>)"

definition aquery :: "(audit_db \<Rightarrow> 'a) \<Rightarrow> 'a audit_act" where
  "aquery q w = (case atake w of (Works, w') \<Rightarrow> (Inr (q (adb w)), w') | (_, w') \<Rightarrow> (Inl AuditDB, w'))"

text \<open>A statement: a violated constraint is an error and changes nothing.\<close>

definition aexec :: "(audit_db \<Rightarrow> ('a \<times> audit_db) option) \<Rightarrow> 'a audit_act" where
  "aexec st w =
     (case atake w of
        (Fails, w') \<Rightarrow> (Inl AuditDB, w')
      | (f, w') \<Rightarrow>
          (case st (adb w) of
             None \<Rightarrow> (Inl AuditDB, w')
           | Some (x, d) \<Rightarrow> ((if f = Works then Inr x else Inl AuditDB), w'\<lparr>adb := d\<rparr>)))"

text \<open>
  A transaction. The body returns its value and whether it commits; an error or no commit rolls back.
  A commit may fail, and it may be applied while the reply is lost.
\<close>

definition atx :: "('a \<times> bool) audit_act \<Rightarrow> 'a audit_act" where
  "atx body w =
     (case atake w of
        (Works, w1) \<Rightarrow>
          (case body w1 of
             (Inl e, w2) \<Rightarrow> (Inl e, w2\<lparr>adb := adb w\<rparr>)
           | (Inr (x, False), w2) \<Rightarrow> (Inr x, w2\<lparr>adb := adb w\<rparr>)
           | (Inr (x, True), w2) \<Rightarrow>
               (case atake w2 of
                  (Works, w3) \<Rightarrow> (Inr x, w3)
                | (Fails, w3) \<Rightarrow> (Inl AuditDB, w3\<lparr>adb := adb w\<rparr>)
                | (Lost_reply, w3) \<Rightarrow> (Inl AuditDB, w3)))
      | (_, w1) \<Rightarrow> (Inl AuditDB, w1))"

text \<open>\<open>pg_advisory_xact_lock\<close>.\<close>

definition lock_chain :: "int \<Rightarrow> unit audit_act" where
  "lock_chain key = aexec (\<lambda>d. Some ((), d))"

section \<open>Anchor and head\<close>

definition chainAnchor :: "string \<Rightarrow> (int \<times> string) audit_act" where
  "chainAnchor t =
     bnd (aquery (\<lambda>d. anchors d t)) (\<lambda>a.
     case a of
       None \<Rightarrow> ret (1, chainGenesis)
     | Some a \<Rightarrow>
         if an_first a < 1 \<or> length (an_prev a) \<noteq> chainHashLen then fail (CorruptAnchor t)
         else ret (an_first a, an_prev a))"

definition newest :: "string \<Rightarrow> audit_db \<Rightarrow> audit_row option" where
  "newest t d = (case rev (chained t d) of [] \<Rightarrow> None | r # _ \<Rightarrow> Some r)"

definition chainHead :: "string \<Rightarrow> (int \<times> string) audit_act" where
  "chainHead t =
     bnd (aquery (newest t)) (\<lambda>r.
     case r of
       None \<Rightarrow> bnd (chainAnchor t) (\<lambda>(firstSeq, prevHash). ret (firstSeq - 1, prevHash))
     | Some r \<Rightarrow>
         if length (ar_entry r) \<noteq> chainHashLen then fail (CorruptHead t)
         else ret (the (ar_seq r), ar_entry r))"

section \<open>The verifier\<close>

datatype chain_break = ChainIntact | ChainBreakAltered | ChainBreakMissing | ChainBreakUnlinked

record chain_report =
  rp_tenant :: string
  rp_chained :: nat
  rp_unchained :: nat
  rp_first :: int
  rp_break :: chain_break
  rp_break_seq :: int

definition Intact :: "chain_report \<Rightarrow> bool" where
  "Intact r \<longleftrightarrow> rp_break r = ChainIntact"

fun verify_rows :: "int \<Rightarrow> string \<Rightarrow> chain_row list \<Rightarrow> chain_report \<Rightarrow> chain_report" where
  "verify_rows expectedSeq prevHash [] rp = rp"
| "verify_rows expectedSeq prevHash (r # rs) rp =
     (let rp = rp\<lparr>rp_chained := Suc (rp_chained rp)\<rparr> in
      if cr_seq r \<noteq> expectedSeq then rp\<lparr>rp_break := ChainBreakMissing, rp_break_seq := expectedSeq\<rparr>
      else if cr_prev r \<noteq> prevHash then rp\<lparr>rp_break := ChainBreakUnlinked, rp_break_seq := cr_seq r\<rparr>
      else if computeEntryHash r \<noteq> cr_entry r then rp\<lparr>rp_break := ChainBreakAltered, rp_break_seq := cr_seq r\<rparr>
      else verify_rows (cr_seq r + 1) (cr_entry r) rs rp)"

definition unchained :: "string \<Rightarrow> audit_db \<Rightarrow> nat" where
  "unchained t d = length (filter (\<lambda>r. ar_tenant r = t \<and> ar_seq r = None) (audit_log d))"

definition VerifyChain :: "string \<Rightarrow> chain_report audit_act" where
  "VerifyChain t =
     (if t = [] then fail EmptyTenant
      else
        bnd (aquery (unchained t)) (\<lambda>n.
        bnd (chainAnchor t) (\<lambda>(firstSeq, prevHash).
        bnd (aquery (chain_of t)) (\<lambda>rows.
        ret (verify_rows firstSeq prevHash rows
          \<lparr>rp_tenant = t, rp_chained = 0, rp_unchained = n, rp_first = firstSeq,
           rp_break = ChainIntact, rp_break_seq = 0\<rparr>)))))"

section \<open>The encoding is injective\<close>

definition short :: "string \<Rightarrow> bool" where
  "short s \<longleftrightarrow> length s < 2 ^ 32"

lemma length_be_mod: "nat (v mod 2 ^ 64) < 256 ^ 8"
proof -
  have "v mod 2 ^ 64 < 2 ^ 64" by (rule pos_mod_bound) simp
  then have "nat (v mod 2 ^ 64) < nat (2 ^ 64)" by (rule nat_less_eq_zless [THEN iffD2, rotated]) simp
  then show ?thesis by simp
qed

lemma writeField_append:
  assumes "short a" "short b" "writeField a @ x = writeField b @ y"
  shows "a = b \<and> x = y"
proof -
  have len: "min (length a) (2 ^ 32 - 1) = length a" "min (length b) (2 ^ 32 - 1) = length b"
    using assms(1,2) by (auto simp: short_def)
  from assms(3) have "be_bytes 4 (length a) @ a @ x = be_bytes 4 (length b) @ b @ y"
    by (simp only: writeField_def len append_assoc)
  then have eq: "be_bytes 4 (length a) = be_bytes 4 (length b)" "a @ x = b @ y"
    using append_eq_append_conv [of "be_bytes 4 (length a)" "be_bytes 4 (length b)"] by simp_all
  have "length a = length b"
    by (rule be_bytes_inj [OF eq(1)]) (use assms(1,2) in \<open>simp_all add: short_def\<close>)
  with eq(2) show ?thesis by simp
qed

lemma writeUint64_append:
  assumes "writeUint64 v @ x = writeUint64 u @ y"
  shows "v mod 2 ^ 64 = u mod 2 ^ 64 \<and> x = y"
proof -
  have s: "short (be_bytes 8 n)" for n by (simp add: short_def)
  from writeField_append [OF s s assms [unfolded writeUint64_def]]
  have eq: "be_bytes 8 (nat (v mod 2 ^ 64)) = be_bytes 8 (nat (u mod 2 ^ 64))" "x = y" by simp_all
  have "nat (v mod 2 ^ 64) = nat (u mod 2 ^ 64)"
    by (rule be_bytes_inj [OF eq(1) length_be_mod length_be_mod])
  moreover have "0 \<le> v mod 2 ^ 64" "0 \<le> u mod 2 ^ 64" by simp_all
  ultimately show ?thesis using eq(2) by (simp add: eq_nat_nat_iff)
qed

text \<open>The fields a hash commits to, as the database holds them.\<close>

definition row_ok :: "chain_row \<Rightarrow> bool" where
  "row_ok r \<longleftrightarrow>
     short (cr_prev r) \<and> short (cr_tenant r) \<and> short (cr_actor r) \<and> short (cr_actor_type r) \<and>
     short (cr_action r) \<and> short (cr_target_type r) \<and> short (cr_target_id r) \<and>
     short (cr_decision r) \<and> short (cr_metadata r) \<and>
     0 \<le> cr_seq r \<and> cr_seq r < 2 ^ 63 \<and> - (2 ^ 63) \<le> cr_created r \<and> cr_created r < 2 ^ 63"

lemma mod_64_inj:
  fixes a b :: int
  assumes "- (2 ^ 63) \<le> a" "a < 2 ^ 63" "- (2 ^ 63) \<le> b" "b < 2 ^ 63" "a mod 2 ^ 64 = b mod 2 ^ 64"
  shows "a = b"
proof -
  have "to_int64 x = (x mod 2 ^ 64 + 2 ^ 63) mod 2 ^ 64 - 2 ^ 63" for x
    unfolding to_int64_def by (simp only: mod_add_left_eq)
  then have "to_int64 a = to_int64 b" by (simp only: assms(5))
  then show ?thesis using assms(1-4) by (simp only: to_int64_id)
qed

lemma canonical_inj:
  assumes ok: "row_ok r" "row_ok r'" and eq: "canonical r = canonical r'"
  shows "r\<lparr>cr_entry := []\<rparr> = r'\<lparr>cr_entry := []\<rparr>"
proof -
  note s = ok [unfolded row_ok_def]
  from writeUint64_append [OF eq [unfolded canonical_def]]
  have seq: "cr_seq r mod 2 ^ 64 = cr_seq r' mod 2 ^ 64" and e1:
    "writeField (cr_prev r) @ writeField (cr_tenant r) @
     writeField (cr_actor r) @ writeField (cr_actor_type r) @ writeField (cr_action r) @
     writeField (cr_target_type r) @ writeField (cr_target_id r) @ writeField (cr_decision r) @
     writeField (cr_metadata r) @ writeUint64 (cr_created r) =
     writeField (cr_prev r') @ writeField (cr_tenant r') @
     writeField (cr_actor r') @ writeField (cr_actor_type r') @ writeField (cr_action r') @
     writeField (cr_target_type r') @ writeField (cr_target_id r') @ writeField (cr_decision r') @
     writeField (cr_metadata r') @ writeUint64 (cr_created r')" by simp_all
  have sh: "short (cr_prev r)" "short (cr_prev r')" "short (cr_tenant r)" "short (cr_tenant r')"
    "short (cr_actor r)" "short (cr_actor r')" "short (cr_actor_type r)" "short (cr_actor_type r')"
    "short (cr_action r)" "short (cr_action r')" "short (cr_target_type r)" "short (cr_target_type r')"
    "short (cr_target_id r)" "short (cr_target_id r')" "short (cr_decision r)" "short (cr_decision r')"
    "short (cr_metadata r)" "short (cr_metadata r')" using s by simp_all
  note f1 = writeField_append [OF sh(1,2) e1]
  note f2 = writeField_append [OF sh(3,4) f1 [THEN conjunct2]]
  note f3 = writeField_append [OF sh(5,6) f2 [THEN conjunct2]]
  note f4 = writeField_append [OF sh(7,8) f3 [THEN conjunct2]]
  note f5 = writeField_append [OF sh(9,10) f4 [THEN conjunct2]]
  note f6 = writeField_append [OF sh(11,12) f5 [THEN conjunct2]]
  note f7 = writeField_append [OF sh(13,14) f6 [THEN conjunct2]]
  note f8 = writeField_append [OF sh(15,16) f7 [THEN conjunct2]]
  note f9 = writeField_append [OF sh(17,18) f8 [THEN conjunct2]]
  have "writeUint64 (cr_created r) @ [] = writeUint64 (cr_created r') @ []" using f9 by simp
  from writeUint64_append [OF this]
  have "cr_created r mod 2 ^ 64 = cr_created r' mod 2 ^ 64" by simp
  then have "cr_created r = cr_created r'" by (rule mod_64_inj [rotated 4]) (use s in simp_all)
  moreover have "cr_seq r = cr_seq r'" by (rule mod_64_inj [OF _ _ _ _ seq]) (use s in simp_all)
  ultimately show ?thesis using f1 f2 f3 f4 f5 f6 f7 f8 f9 by simp
qed

section \<open>Linked rows\<close>

text \<open>\<open>linked t n p rs\<close>: the rows continue a chain of the tenant at the position \<open>n\<close>, after the hash \<open>p\<close>.\<close>

fun linked :: "string \<Rightarrow> int \<Rightarrow> string \<Rightarrow> chain_row list \<Rightarrow> bool" where
  "linked t n p [] = True"
| "linked t n p (r # rs) \<longleftrightarrow>
     cr_tenant r = t \<and> cr_seq r = n \<and> cr_prev r = p \<and> cr_entry r = computeEntryHash r \<and>
     linked t (n + 1) (cr_entry r) rs"

text \<open>The hash after the rows.\<close>

definition end_hash :: "string \<Rightarrow> chain_row list \<Rightarrow> string" where
  "end_hash p rs = (if rs = [] then p else cr_entry (last rs))"

lemma end_hash_simps [simp]:
  "end_hash p [] = p"
  "end_hash p (r # rs) = end_hash (cr_entry r) rs"
  "end_hash p (xs @ [r]) = cr_entry r"
  by (simp_all add: end_hash_def)

lemma end_hash_append: "end_hash p (xs @ ys) = end_hash (end_hash p xs) ys"
  by (induction xs arbitrary: p) auto

lemma linked_append:
  "linked t n p (xs @ ys) \<longleftrightarrow> linked t n p xs \<and> linked t (n + int (length xs)) (end_hash p xs) ys"
  by (induction xs arbitrary: n p) (auto simp: algebra_simps)

lemma linked_seq: "linked t n p rs \<Longrightarrow> i < length rs \<Longrightarrow> cr_seq (rs ! i) = n + int i"
proof (induction rs arbitrary: n p i)
  case (Cons r rs)
  show ?case
  proof (cases i)
    case (Suc j)
    with Cons.prems have "cr_seq (rs ! j) = n + 1 + int j" by (intro Cons.IH) auto
    then show ?thesis using Suc by simp
  qed (use Cons.prems in simp)
qed simp

lemma linked_tenant: "linked t n p rs \<Longrightarrow> r \<in> set rs \<Longrightarrow> cr_tenant r = t"
  by (induction rs arbitrary: n p) auto

lemma linked_entry: "linked t n p rs \<Longrightarrow> r \<in> set rs \<Longrightarrow> cr_entry r = computeEntryHash r"
  by (induction rs arbitrary: n p) auto

lemma linked_drop:
  "linked t n p rs \<Longrightarrow> i \<le> length rs \<Longrightarrow> linked t (n + int i) (end_hash p (take i rs)) (drop i rs)"
  using linked_append [of t n p "take i rs" "drop i rs"] by simp

lemma length_end_hash:
  "linked t n p rs \<Longrightarrow> length p = chainHashLen \<Longrightarrow> length (end_hash p rs) = chainHashLen"
  by (cases rs rule: rev_cases) (auto simp: linked_append computeEntryHash_def chainHashLen_def)

text \<open>The verifier accepts exactly the linked rows.\<close>

lemma verify_rows_intact:
  assumes "rp_break rp = ChainIntact" "\<forall>r \<in> set rs. cr_tenant r = t"
  shows "rp_break (verify_rows n p rs rp) = ChainIntact \<longleftrightarrow> linked t n p rs"
  using assms by (induction rs arbitrary: n p rp) (auto simp: Let_def)

text \<open>
  Two linked lists of rows with the same start and the same last hash are the same rows, or two of
  their rows are a collision of the hash.
\<close>

definition collision :: "chain_row list \<Rightarrow> chain_row list \<Rightarrow> bool" where
  "collision xs ys \<longleftrightarrow>
     (\<exists>x \<in> set xs. \<exists>y \<in> set ys. canonical x \<noteq> canonical y \<and> sha256 (canonical x) = sha256 (canonical y))"

lemma linked_unique:
  assumes "linked t n p xs" "linked t n p ys" "length xs = length ys"
    and "\<forall>x \<in> set xs. row_ok x" "\<forall>y \<in> set ys. row_ok y" "end_hash p xs = end_hash p ys"
  shows "xs = ys \<or> collision xs ys"
  using assms
proof (induction xs arbitrary: ys rule: rev_induct)
  case (snoc x xs)
  then obtain ys' y where ys: "ys = ys' @ [y]" by (cases ys rule: rev_cases) auto
  from snoc.prems ys have lx: "linked t n p xs" "cr_prev x = end_hash p xs" "cr_entry x = computeEntryHash x"
    and ly: "linked t n p ys'" "cr_prev y = end_hash p ys'" "cr_entry y = computeEntryHash y"
    and hash: "cr_entry x = cr_entry y" by (simp_all add: linked_append)
  show ?case
  proof (cases "canonical x = canonical y")
    case False
    with hash lx(3) ly(3) ys show ?thesis by (auto simp: collision_def computeEntryHash_def)
  next
    case True
    have "x\<lparr>cr_entry := []\<rparr> = y\<lparr>cr_entry := []\<rparr>" by (rule canonical_inj [OF _ _ True]) (use snoc.prems ys in auto)
    with hash have "x = y" by (cases x; cases y) simp
    with lx(2) ly(2) have "end_hash p xs = end_hash p ys'" by simp
    with snoc.IH [OF lx(1) ly(1)] snoc.prems ys have "xs = ys' \<or> collision xs ys'" by simp
    with \<open>x = y\<close> ys show ?thesis by (auto simp: collision_def)
  qed
qed simp

end
