(* ===== verification/AuditWriter.thy ===== *)
theory AuditWriter
  imports AuditChain
begin

text \<open>
  Writing to the audit trail (\<open>writer.go\<close>, \<open>sync_writer.go\<close>): the transaction that extends the chains
  of the tenants of a batch, and the synchronous writes. \<open>insert\<close> always returns the id of the first
  row; \<open>flush\<close> drops it, so the flag \<open>returnID\<close> is left out. The queue in front of it is in
  \<open>AuditQueue\<close>.
\<close>

record audit_entry =
  ae_tenant :: string
  ae_actor :: string
  ae_actor_type :: string
  ae_action :: string
  ae_target_type :: string
  ae_target_id :: string
  ae_decision :: string
  ae_metadata :: string

section \<open>New rows\<close>

definition unhashed_row :: "string \<Rightarrow> int \<Rightarrow> int \<Rightarrow> string \<Rightarrow> audit_entry \<Rightarrow> chain_row" where
  "unhashed_row t created seq prevHash ev =
     \<lparr>cr_seq = seq, cr_tenant = t, cr_actor = ae_actor ev,
      cr_actor_type = (if ae_actor_type ev = [] then ''user'' else ae_actor_type ev),
      cr_action = ae_action ev, cr_target_type = ae_target_type ev,
      cr_target_id = ae_target_id ev, cr_decision = ae_decision ev,
      cr_metadata = (if ae_metadata ev = [] then ''{}'' else ae_metadata ev),
      cr_created = created, cr_prev = prevHash, cr_entry = []\<rparr>"

definition new_row :: "string \<Rightarrow> int \<Rightarrow> int \<Rightarrow> string \<Rightarrow> audit_entry \<Rightarrow> chain_row" where
  "new_row t created seq prevHash ev =
     (unhashed_row t created seq prevHash ev)
       \<lparr>cr_entry := computeEntryHash (unhashed_row t created seq prevHash ev)\<rparr>"

fun new_rows :: "string \<Rightarrow> int \<Rightarrow> int \<Rightarrow> string \<Rightarrow> audit_entry list \<Rightarrow> chain_row list" where
  "new_rows t created seq prevHash [] = []"
| "new_rows t created seq prevHash (ev # evs) =
     new_row t created (seq + 1) prevHash ev #
     new_rows t created (seq + 1) (cr_entry (new_row t created (seq + 1) prevHash ev)) evs"

text \<open>The events of the batch by tenant, the tenants in order.\<close>

definition byTenant :: "audit_entry list \<Rightarrow> string \<Rightarrow> audit_entry list" where
  "byTenant batch t = filter (\<lambda>ev. ae_tenant ev = t) batch"

definition batch_tenants :: "audit_entry list \<Rightarrow> string list" where
  "batch_tenants batch = sorted_list_of_set (ae_tenant ` set batch)"

definition chain_tenant :: "audit_entry list \<Rightarrow> int \<Rightarrow> string \<Rightarrow> chain_row list audit_act" where
  "chain_tenant batch created t =
     bnd (lock_chain (tenantAdvisoryKey t)) (\<lambda>_.
     bnd (chainHead t) (\<lambda>(seq, prevHash).
     ret (new_rows t created seq prevHash (byTenant batch t))))"

fun chain_tenants :: "audit_entry list \<Rightarrow> int \<Rightarrow> string list \<Rightarrow> chain_row list audit_act" where
  "chain_tenants batch created [] = ret []"
| "chain_tenants batch created (t # ts) =
     bnd (chain_tenant batch created t) (\<lambda>rows.
     bnd (chain_tenants batch created ts) (\<lambda>more. ret (rows @ more)))"

section \<open>The statement\<close>

text \<open>An empty decision is stored as NULL.\<close>

definition stored_row :: "int \<Rightarrow> chain_row \<Rightarrow> audit_row" where
  "stored_row i r =
     \<lparr>ar_id = i, ar_tenant = cr_tenant r, ar_actor = cr_actor r, ar_actor_type = cr_actor_type r,
      ar_action = cr_action r, ar_target_type = Some (cr_target_type r),
      ar_target_id = Some (cr_target_id r),
      ar_decision = (if cr_decision r \<noteq> [] then Some (cr_decision r) else None),
      ar_metadata = cr_metadata r, ar_created = cr_created r, ar_seq = Some (cr_seq r),
      ar_prev = cr_prev r, ar_entry = cr_entry r\<rparr>"

definition storable :: "audit_db \<Rightarrow> chain_row \<Rightarrow> bool" where
  "storable d r \<longleftrightarrow>
     text_ok d (cr_tenant r) \<and> text_ok d (cr_actor r) \<and> text_ok d (cr_actor_type r) \<and>
     text_ok d (cr_action r) \<and> text_ok d (cr_target_type r) \<and> text_ok d (cr_target_id r) \<and>
     text_ok d (cr_decision r)"

fun number_rows :: "int \<Rightarrow> chain_row list \<Rightarrow> audit_row list" where
  "number_rows i [] = []"
| "number_rows i (r # rs) = stored_row i r # number_rows (i + 1) rs"

text \<open>The unique index on tenant and position.\<close>

definition positions_free :: "audit_db \<Rightarrow> chain_row list \<Rightarrow> bool" where
  "positions_free d rs \<longleftrightarrow>
     distinct (map (\<lambda>r. (cr_tenant r, cr_seq r)) rs) \<and>
     (\<forall>r \<in> set rs. \<forall>x \<in> set (audit_log d). ar_tenant x = cr_tenant r \<longrightarrow> ar_seq x \<noteq> Some (cr_seq r))"

definition insert_rows :: "chain_row list \<Rightarrow> audit_db \<Rightarrow> (int \<times> audit_db) option" where
  "insert_rows rs d =
     (if (\<forall>r \<in> set rs. storable d r) \<and> positions_free d rs
      then Some (next_row_id d,
                 d\<lparr>audit_log := audit_log d @ number_rows (next_row_id d) rs,
                   next_row_id := next_row_id d + int (length rs)\<rparr>)
      else None)"

section \<open>Writes\<close>

definition Writer_insert_tx :: "audit_entry list \<Rightarrow> (int \<times> bool) audit_act" where
  "Writer_insert_tx batch =
     bnd aclock (\<lambda>now.
     bnd (chain_tenants batch (now div 1000) (batch_tenants batch)) (\<lambda>rows.
     bnd (aexec (insert_rows rows)) (\<lambda>i. ret (i, True))))"

definition Writer_insert :: "audit_entry list \<Rightarrow> int audit_act" where
  "Writer_insert batch = (if batch = [] then ret 0 else atx (Writer_insert_tx batch))"

definition Writer_flush :: "audit_entry list \<Rightarrow> unit audit_act" where
  "Writer_flush batch = bnd (Writer_insert batch) (\<lambda>_. ret ())"

definition WriteSync :: "audit_entry \<Rightarrow> unit audit_act" where
  "WriteSync ev = Writer_flush [ev]"

definition WriteSyncID :: "audit_entry \<Rightarrow> int audit_act" where
  "WriteSyncID ev = Writer_insert [ev]"

section \<open>What a write does\<close>

lemma new_row_fields [simp]:
  "cr_seq (new_row t c n p ev) = n" "cr_tenant (new_row t c n p ev) = t"
  "cr_prev (new_row t c n p ev) = p" "cr_created (new_row t c n p ev) = c"
  by (simp_all add: new_row_def unhashed_row_def)

lemma canonical_entry: "canonical (r\<lparr>cr_entry := e\<rparr>) = canonical r"
  by (simp add: canonical_def)

lemma new_row_entry: "cr_entry (new_row t c n p ev) = computeEntryHash (new_row t c n p ev)"
  by (simp add: new_row_def computeEntryHash_def canonical_entry)

lemma length_new_rows [simp]: "length (new_rows t c n p evs) = length evs"
  by (induction evs arbitrary: n p) auto

lemma linked_new_rows: "linked t (n + 1) p (new_rows t c n p evs)"
proof (induction evs arbitrary: n p)
  case (Cons ev evs)
  show ?case using Cons [of "n + 1"] by (simp add: new_row_entry)
qed simp

text \<open>A row is read back as it was written.\<close>

lemma scan_stored: "cr_tenant r = t \<Longrightarrow> scan_row t (stored_row i r) = r"
  by (cases r) (simp add: scan_row_def stored_row_def coalesce_text_def)

lemma length_number_rows [simp]: "length (number_rows i rs) = length rs"
  by (induction rs arbitrary: i) auto

lemma set_number_rows: "x \<in> set (number_rows i rs) \<Longrightarrow> \<exists>j. \<exists>r \<in> set rs. x = stored_row j r"
proof (induction rs arbitrary: i)
  case (Cons r rs)
  then consider "x = stored_row i r" | "x \<in> set (number_rows (i + 1) rs)" by auto
  then show ?case by cases (use Cons.IH in fastforce)+
qed simp

lemma filter_number_rows:
  "(\<And>r. r \<in> set rs \<Longrightarrow> cr_tenant r = t) \<Longrightarrow>
     map (scan_row t) (filter (\<lambda>x. ar_tenant x = t \<and> ar_seq x \<noteq> None) (number_rows i rs)) = rs"
  by (induction rs arbitrary: i) (auto simp: scan_stored, simp_all add: stored_row_def)

section \<open>What an action keeps\<close>

text \<open>\<open>along P m\<close>: whatever happens, \<open>m\<close> takes the world along \<open>P\<close>.\<close>

definition along :: "(audit_world \<Rightarrow> audit_world \<Rightarrow> bool) \<Rightarrow> 'a audit_act \<Rightarrow> bool" where
  "along P m \<longleftrightarrow> (\<forall>w. P w (snd (m w)))"

lemma alongD: "along P m \<Longrightarrow> m w = (r, w') \<Longrightarrow> P w w'"
  unfolding along_def by (metis snd_conv)

locale kept =
  fixes P :: "audit_world \<Rightarrow> audit_world \<Rightarrow> bool"
  assumes refl: "P w w"
    and trans: "P w1 w2 \<Longrightarrow> P w2 w3 \<Longrightarrow> P w1 w3"
begin

lemma along_ret: "along P (ret x)"
  by (simp add: along_def ret_def refl)

lemma along_fail: "along P (fail e)"
  by (simp add: along_def fail_def refl)

lemma along_from_option: "along P (from_option e xo)"
  by (cases xo) (simp_all add: from_option_def along_ret along_fail)

lemma along_bnd:
  assumes "along P m" "\<And>x. along P (f x)" shows "along P (bnd m f)"
  unfolding along_def
proof
  fix w
  obtain r w1 where m: "m w = (r, w1)" by force
  show "P w (snd (bnd m f w))"
  proof (cases r)
    case (Inr x)
    have "P w1 (snd (f x w1))" using assms(2) [of x] by (simp add: along_def)
    with alongD [OF assms(1) m] m Inr show ?thesis by (simp add: bnd_def trans)
  qed (use alongD [OF assms(1) m] m in \<open>simp add: bnd_def\<close>)
qed

lemma along_if: "along P m \<Longrightarrow> along P n \<Longrightarrow> along P (if c then m else n)"
  by simp

lemma along_split: "(\<And>a b. along P (f a b)) \<Longrightarrow> along P (case x of (a, b) \<Rightarrow> f a b)"
  by (cases x) simp

lemma along_case_option:
  "along P m \<Longrightarrow> (\<And>x. along P (f x)) \<Longrightarrow> along P (case xo of None \<Rightarrow> m | Some x \<Rightarrow> f x)"
  by (cases xo) auto

lemmas along_rules = along_ret along_fail along_from_option along_bnd along_if along_split along_case_option

end

text \<open>Tables, bucket and clock are as they were; time and outcomes have moved on.\<close>

definition same_data :: "audit_world \<Rightarrow> audit_world \<Rightarrow> bool" where
  "same_data w w' \<longleftrightarrow> adb w' = adb w \<and> bucket w' = bucket w \<and> anow w' = anow w"

definition same_objects :: "audit_world \<Rightarrow> audit_world \<Rightarrow> bool" where
  "same_objects w w' \<longleftrightarrow> bucket w' = bucket w \<and> anow w' = anow w"

interpretation reading: kept same_data
  by unfold_locales (simp_all add: same_data_def)

interpretation tables: kept same_objects
  by unfold_locales (simp_all add: same_objects_def)

abbreviation reads :: "'a audit_act \<Rightarrow> bool" where
  "reads \<equiv> along same_data"

lemma reads_aclock: "reads aclock"
  by (simp add: along_def same_data_def aclock_def)

lemma reads_aquery: "reads (aquery q)"
  by (simp add: along_def same_data_def aquery_def atake_def split: fault.splits)

lemma reads_lock: "reads (lock_chain k)"
  by (simp add: along_def same_data_def lock_chain_def aexec_def atake_def split: fault.splits)

lemmas reads_rules = reading.along_rules reads_aclock reads_aquery reads_lock

lemma reads_tables: "reads m \<Longrightarrow> along same_objects m"
  by (auto simp: along_def same_data_def same_objects_def)

lemma tables_aexec: "along same_objects (aexec st)"
  by (auto simp: along_def same_objects_def aexec_def atake_def split: fault.splits option.splits)

lemma tables_atx: "along same_objects body \<Longrightarrow> along same_objects (atx body)"
  unfolding along_def
proof (intro allI)
  fix w :: audit_world assume body: "\<forall>w. same_objects w (snd (body w))"
  let ?w1 = "w\<lparr>afaults := tl (afaults w)\<rparr>"
  have "same_objects w (snd (body ?w1))" using body [rule_format, of ?w1] by (simp add: same_objects_def)
  then show "same_objects w (snd (atx body w))"
    by (cases "body ?w1") (auto simp: atx_def atake_def same_objects_def split: fault.splits sum.splits bool.splits)
qed

lemma reads_chainAnchor: "reads (chainAnchor t)"
  unfolding chainAnchor_def by (intro reads_rules)

lemma reads_chainHead: "reads (chainHead t)"
  unfolding chainHead_def by (intro reads_rules reads_chainAnchor)

lemma reads_chain_tenant: "reads (chain_tenant batch c t)"
  unfolding chain_tenant_def by (intro reads_rules reads_chainHead)

lemma reads_chain_tenants: "reads (chain_tenants batch c ts)"
  by (induction ts) (auto intro!: reads_rules reads_chain_tenant)

lemma reads_VerifyChain: "reads (VerifyChain t)"
  unfolding VerifyChain_def by (intro reads_rules reads_chainAnchor)

lemma tables_insert: "along same_objects (Writer_insert batch)"
  unfolding Writer_insert_def Writer_insert_tx_def
  by (intro tables.along_rules tables_atx tables_aexec reads_tables [OF reads_aclock] reads_tables [OF reads_chain_tenants])

text \<open>A transaction does nothing, or what its body did.\<close>

lemma atx_cases:
  assumes "atx body w = (r, w')"
  obtains "adb w' = adb w" "\<And>x. r = Inr x \<Longrightarrow> \<exists>w1 w2. same_data w w1 \<and> body w1 = (Inr (x, False), w2)"
  | w1 x w2 where "same_data w w1" "body w1 = (Inr (x, True), w2)" "adb w' = adb w2" "r = Inr x \<or> r = Inl AuditDB"
proof -
  let ?w1 = "w\<lparr>afaults := tl (afaults w)\<rparr>"
  have same: "same_data w ?w1" by (simp add: same_data_def)
  show thesis
  proof (cases "next_fault (afaults w) = Works")
    case False
    with assms have "adb w' = adb w" "r = Inl AuditDB" by (auto simp: atx_def atake_def split: fault.splits)
    then show ?thesis using that(1) by simp
  next
    case True
    obtain r2 w2 where body: "body ?w1 = (r2, w2)" by force
    show ?thesis
    proof (cases r2)
      case (Inl e)
      with True body assms have "adb w' = adb w" "r = Inl e" by (auto simp: atx_def atake_def)
      then show ?thesis using that(1) by simp
    next
      case (Inr y)
      obtain x c where y: "y = (x, c)" by force
      show ?thesis
      proof (cases c)
        case False
        with True body Inr y assms have "adb w' = adb w" "r = Inr x" by (auto simp: atx_def atake_def)
        moreover have "body ?w1 = (Inr (x, False), w2)" using body Inr y False by simp
        ultimately show ?thesis using that(1) same by auto
      next
        case commit: True
        show ?thesis
        proof (cases "next_fault (afaults w2) = Fails")
          case True': True
          with True body Inr y commit assms have "adb w' = adb w" "r = Inl AuditDB" by (auto simp: atx_def atake_def)
          then show ?thesis using that(1) by simp
        next
          case False
          with True body Inr y commit assms have "adb w' = adb w2" "r = Inr x \<or> r = Inl AuditDB"
            by (auto simp: atx_def atake_def split: fault.splits)
          moreover have "body ?w1 = (Inr (x, True), w2)" using body Inr y commit by simp
          ultimately show ?thesis using that(2) [OF same] by blast
        qed
      qed
    qed
  qed
qed

section \<open>When the database works\<close>

lemma afaults_Nil: "afaults w = [] \<Longrightarrow> w\<lparr>afaults := []\<rparr> = (w :: audit_world)"
  by (cases w) simp

lemma calm_bnd: "m w = (Inr x, w') \<Longrightarrow> bnd m f w = f x w'"
  by (simp add: bnd_def)

lemma calm_aquery: "afaults w = [] \<Longrightarrow> aquery q w = (Inr (q (adb w)), w)"
  by (simp add: aquery_def atake_def afaults_Nil)

lemma calm_aexec: "afaults w = [] \<Longrightarrow> st (adb w) = Some (x, d) \<Longrightarrow> aexec st w = (Inr x, w\<lparr>adb := d\<rparr>)"
  by (simp add: aexec_def atake_def afaults_Nil)

lemma calm_lock: "afaults w = [] \<Longrightarrow> lock_chain k w = (Inr (), w)"
  by (simp add: lock_chain_def aexec_def atake_def afaults_Nil)

lemma calm_bnd_aquery: "afaults w = [] \<Longrightarrow> bnd (aquery q) f w = f (q (adb w)) w"
  by (simp add: bnd_def calm_aquery)

lemma calm_bnd_aexec:
  "afaults w = [] \<Longrightarrow> st (adb w) = Some (x, d) \<Longrightarrow> bnd (aexec st) f w = f x (w\<lparr>adb := d\<rparr>)"
  by (simp add: bnd_def calm_aexec)

lemma calm_bnd_lock: "afaults w = [] \<Longrightarrow> bnd (lock_chain k) f w = f () w"
  by (simp add: bnd_def calm_lock)

lemmas calm_rules = calm_bnd_aquery calm_bnd_lock calm_aquery calm_lock

lemma calm_atx:
  "afaults w = [] \<Longrightarrow> body w = (Inr (x, c), w2) \<Longrightarrow> afaults w2 = [] \<Longrightarrow>
     atx body w = (Inr x, if c then w2 else w2\<lparr>adb := adb w\<rparr>)"
  by (simp add: atx_def atake_def afaults_Nil split: bool.splits)

end
