(* ===== verification/AuditRetention.thy ===== *)
theory AuditRetention
  imports AuditWriter PageToken
begin

text \<open>
  Retention of the audit trail (\<open>retention.go\<close>): the period of the install and of a tenant, and the
  run that removes the exported rows before the period and moves the anchor.
\<close>

section \<open>Dates\<close>

text \<open>
  \<open>Time.AddDate(0, -months, 0)\<close>: the month is normalised, and a day past the end of its month counts
  on into the next one. Days are counted from the first of January of year one.
\<close>

definition year_start :: "int \<Rightarrow> int" where
  "year_start y = 365 * (y - 1) + (y - 1) div 4 - (y - 1) div 100 + (y - 1) div 400"

definition leap_year :: "int \<Rightarrow> bool" where
  "leap_year y \<longleftrightarrow> y mod 4 = 0 \<and> (y mod 100 \<noteq> 0 \<or> y mod 400 = 0)"

text \<open>The day of a date; months and days count from zero.\<close>

definition date_day :: "int \<Rightarrow> nat \<Rightarrow> int \<Rightarrow> int" where
  "date_day y m d = year_start y + int (days_before_month (leap_year y) ! m) + d"

definition day_ns :: int where
  "day_ns = 86400000000000"

definition minus_months :: "int \<Rightarrow> int \<Rightarrow> int" where
  "minus_months now months =
     (let day = nat (now div day_ns + int unix_epoch_days);
          y = year_of day;
          in_year = day - days_before_year y;
          m = month_of (is_leap y) in_year;
          d = in_year - days_before_month (is_leap y) ! m;
          total = int y * 12 + int m - months
      in (date_day (total div 12) (nat (total mod 12)) (int d) - int unix_epoch_days) * day_ns + now mod day_ns)"

text \<open>A time is rounded to the microseconds of the database.\<close>

definition to_timestamptz :: "int \<Rightarrow> int" where
  "to_timestamptz ns =
     (let q = ns div 1000; r = ns mod 1000 in if r > 500 \<or> (r = 500 \<and> odd q) then q + 1 else q)"

section \<open>Periods\<close>

definition MinRetentionMonths :: int where "MinRetentionMonths = 13"

definition ValidateRetentionMonths :: "int \<Rightarrow> audit_err option" where
  "ValidateRetentionMonths months = (if months < MinRetentionMonths then Some (RetentionTooShort months) else None)"

text \<open>\<open>strconv.Atoi\<close>: an optional sign and decimal digits, in the range of an \<open>int\<close>.\<close>

definition atoi_digits :: "string \<Rightarrow> int option" where
  "atoi_digits s = (if s = [] then None else map_option int (number 0 s))"

definition atoi :: "string \<Rightarrow> int option" where
  "atoi s =
     (case (case s of
              c # ds \<Rightarrow> if c = CHR ''-'' then map_option uminus (atoi_digits ds)
                        else if c = CHR ''+'' then atoi_digits ds else atoi_digits s
            | [] \<Rightarrow> None) of
        None \<Rightarrow> None
      | Some v \<Rightarrow> if - (2 ^ 63) \<le> v \<and> v < 2 ^ 63 then Some v else None)"

definition RetentionMonthsFromEnv :: "string \<Rightarrow> audit_err + int" where
  "RetentionMonthsFromEnv value =
     (let raw = TrimSpace value in
      if raw = [] then Inr MinRetentionMonths
      else case atoi raw of
             None \<Rightarrow> Inl (NotANumber raw)
           | Some months \<Rightarrow>
               (case ValidateRetentionMonths months of Some e \<Rightarrow> Inl e | None \<Rightarrow> Inr months))"

definition periodOfTenant :: "int \<Rightarrow> string \<Rightarrow> int audit_act" where
  "periodOfTenant installMonths t =
     bnd (aquery (\<lambda>d. tenant_months d t)) (\<lambda>m.
     ret (case m of None \<Rightarrow> installMonths | Some months \<Rightarrow> max months installMonths))"

record retention_period =
  pd_install :: int
  pd_tenant :: int
  pd_effective :: int

definition Period :: "int \<Rightarrow> string \<Rightarrow> retention_period audit_act" where
  "Period installMonths t =
     (if t = [] then fail EmptyTenant
      else
        bnd (aquery (\<lambda>d. tenant_months d t)) (\<lambda>m.
        let tenantMonths = (case m of None \<Rightarrow> 0 | Some x \<Rightarrow> x) in
        ret \<lparr>pd_install = installMonths, pd_tenant = tenantMonths, pd_effective = max tenantMonths installMonths\<rparr>))"

text \<open>The column is a 32-bit number that is at least 13.\<close>

definition upsert_months :: "string \<Rightarrow> int \<Rightarrow> string \<Rightarrow> audit_db \<Rightarrow> (unit \<times> audit_db) option" where
  "upsert_months t months updatedBy d =
     (if 13 \<le> months \<and> months < 2 ^ 31 \<and> text_ok d t \<and> text_ok d updatedBy
      then Some ((), d\<lparr>tenant_months := (tenant_months d)(t := Some months)\<rparr>) else None)"

definition SetTenantMonths :: "int \<Rightarrow> string \<Rightarrow> int \<Rightarrow> string \<Rightarrow> unit audit_act" where
  "SetTenantMonths installMonths t months updatedBy =
     (if t = [] then fail EmptyTenant
      else if months = 0 then aexec (\<lambda>d. Some ((), d\<lparr>tenant_months := (tenant_months d)(t := None)\<rparr>))
      else if months < installMonths then fail (RetentionUnderInstall months installMonths)
      else if updatedBy = [] then fail EmptyUpdatedBy
      else aexec (upsert_months t months updatedBy))"

section \<open>Pruning\<close>

definition exported_seq :: "string \<Rightarrow> audit_db \<Rightarrow> int" where
  "exported_seq t d = (case cursors d t of None \<Rightarrow> 0 | Some c \<Rightarrow> ec_exported c)"

text \<open>The position of the oldest row inside the period; without one, past every position.\<close>

definition first_inside :: "string \<Rightarrow> int \<Rightarrow> audit_db \<Rightarrow> int" where
  "first_inside t cutoff d =
     (case filter (\<lambda>r. ar_created r \<ge> cutoff) (chained t d) of
        [] \<Rightarrow> 9223372036854775807 | r # _ \<Rightarrow> the (ar_seq r))"

definition last_old :: "string \<Rightarrow> int \<Rightarrow> audit_db \<Rightarrow> audit_row option" where
  "last_old t cutoff d =
     (case rev (filter (\<lambda>r. the (ar_seq r) < first_inside t cutoff d \<and> the (ar_seq r) \<le> exported_seq t d) (chained t d)) of
        [] \<Rightarrow> None | r # _ \<Rightarrow> Some r)"

definition upsert_anchor :: "string \<Rightarrow> int \<Rightarrow> string \<Rightarrow> int \<Rightarrow> audit_db \<Rightarrow> (unit \<times> audit_db) option" where
  "upsert_anchor t firstSeq prevHash pruned d =
     (if firstSeq \<ge> 1 \<and> length prevHash = 32
      then Some ((), d\<lparr>anchors := (anchors d)(t := Some \<lparr>an_first = firstSeq, an_prev = prevHash, an_pruned = pruned\<rparr>)\<rparr>)
      else None)"

definition removable :: "string \<Rightarrow> int \<Rightarrow> audit_row \<Rightarrow> bool" where
  "removable t lastSeq r \<longleftrightarrow> ar_tenant r = t \<and> (case ar_seq r of None \<Rightarrow> False | Some s \<Rightarrow> s \<le> lastSeq)"

definition delete_rows :: "string \<Rightarrow> int \<Rightarrow> audit_db \<Rightarrow> (int \<times> audit_db) option" where
  "delete_rows t lastSeq d =
     Some (int (length (filter (removable t lastSeq) (audit_log d))),
           d\<lparr>audit_log := filter (\<lambda>r. \<not> removable t lastSeq r) (audit_log d)\<rparr>)"

definition PruneTenant_tx :: "int \<Rightarrow> string \<Rightarrow> (int \<times> bool) audit_act" where
  "PruneTenant_tx months t =
     bnd (lock_chain (tenantAdvisoryKey t)) (\<lambda>_.
     bnd (periodOfTenant months t) (\<lambda>period.
     bnd aclock (\<lambda>now.
     bnd (aquery (last_old t (to_timestamptz (minus_months now period)))) (\<lambda>r.
     case r of
       None \<Rightarrow> ret (0, True)
     | Some r \<Rightarrow>
         if length (ar_entry r) \<noteq> chainHashLen then fail (CorruptRow t (the (ar_seq r)))
         else
           bnd (aexec (upsert_anchor t (the (ar_seq r) + 1) (ar_entry r) (to_timestamptz now))) (\<lambda>_.
           bnd (aexec (delete_rows t (the (ar_seq r)))) (\<lambda>n. ret (n, True)))))))"

definition PruneTenant :: "int \<Rightarrow> string \<Rightarrow> int audit_act" where
  "PruneTenant months t = (if t = [] then fail EmptyTenant else atx (PruneTenant_tx months t))"

text \<open>All tenants in turn: the number of removed rows, and the errors.\<close>

fun prune_tenants :: "int \<Rightarrow> string list \<Rightarrow> audit_world \<Rightarrow> (int \<times> audit_err list) \<times> audit_world" where
  "prune_tenants months [] w = ((0, []), w)"
| "prune_tenants months (t # ts) w =
     (case PruneTenant months t w of
        (Inl e, w1) \<Rightarrow> (case prune_tenants months ts w1 of ((n, es), w2) \<Rightarrow> ((n, e # es), w2))
      | (Inr k, w1) \<Rightarrow> (case prune_tenants months ts w1 of ((n, es), w2) \<Rightarrow> ((k + n, es), w2)))"

definition log_tenants :: "audit_db \<Rightarrow> string list" where
  "log_tenants d = sorted_list_of_set (ar_tenant ` set (audit_log d))"

definition Prune :: "int \<Rightarrow> audit_world \<Rightarrow> (int \<times> audit_err list) \<times> audit_world" where
  "Prune months w =
     (case aquery log_tenants w of
        (Inl e, w1) \<Rightarrow> ((0, [e]), w1)
      | (Inr ts, w1) \<Rightarrow> prune_tenants months ts w1)"

end
