(* ===== verification/AuditExport.thy ===== *)
theory AuditExport
  imports AuditRetention
begin

text \<open>
  Export of the audit trail (\<open>export.go\<close>): the object names, the check of a range, and the three
  steps that bring a range of a chain into the bucket: claim it, write it, move the position. The
  body of an object is the list of its records; the JSON of a line is left out.
\<close>

section \<open>Policy\<close>

record export_policy =
  ep_mode :: string
  ep_days :: int

definition ExportPolicy_Validate :: "export_policy \<Rightarrow> audit_err option" where
  "ExportPolicy_Validate p =
     (if ep_mode p \<noteq> ''GOVERNANCE'' \<and> ep_mode p \<noteq> ''COMPLIANCE'' then Some (BadLockMode (ep_mode p))
      else if ep_days p < 1 then Some (BadLockDays (ep_days p))
      else None)"

section \<open>Object names\<close>

text \<open>\<open>url.PathEscape\<close>.\<close>

definition path_plain :: "char \<Rightarrow> bool" where
  "path_plain c \<longleftrightarrow>
     c \<in> set ''ABCDEFGHIJKLMNOPQRSTUVWXYZabcdefghijklmnopqrstuvwxyz0123456789-_.~$&+:=@''"

definition hex_digit :: "nat \<Rightarrow> char" where
  "hex_digit n = ''0123456789ABCDEF'' ! n"

definition escape_char :: "char \<Rightarrow> string" where
  "escape_char c = (if path_plain c then [c] else [CHR ''%'', hex_digit (byte c div 16), hex_digit (byte c mod 16)])"

definition PathEscape :: "string \<Rightarrow> string" where
  "PathEscape s = concat (map escape_char s)"

text \<open>\<open>%020d\<close>.\<close>

definition zero_pad :: "nat \<Rightarrow> string \<Rightarrow> string" where
  "zero_pad k s = replicate (k - length s) (digit 0) @ s"

definition pad20 :: "int \<Rightarrow> string" where
  "pad20 n = (if n < 0 then CHR ''-'' # zero_pad 19 (nat_digits (nat (- n))) else zero_pad 20 (nat_digits (nat n)))"

definition ExportObjectKey :: "string \<Rightarrow> int \<Rightarrow> int \<Rightarrow> string" where
  "ExportObjectKey t lo hi =
     ''audit/'' @ PathEscape t @ ''/'' @ pad20 lo @ ''-'' @ pad20 hi @ ''.ndjson''"

section \<open>A range\<close>

definition read_range :: "string \<Rightarrow> int \<Rightarrow> int \<Rightarrow> audit_db \<Rightarrow> exported_record list" where
  "read_range t lo hi d =
     map (\<lambda>r. \<lparr>er_id = ar_id r, er_row = scan_row t r\<rparr>)
       (filter (\<lambda>r. lo \<le> the (ar_seq r) \<and> the (ar_seq r) \<le> hi) (chained t d))"

definition readRange :: "string \<Rightarrow> int \<Rightarrow> int \<Rightarrow> exported_record list audit_act" where
  "readRange t lo hi = aquery (read_range t lo hi)"

text \<open>The loop of \<open>checkExportRange\<close> from the position \<open>n\<close>, after the hash of the record before.\<close>

fun check_records :: "int \<Rightarrow> string option \<Rightarrow> exported_record list \<Rightarrow> audit_err option" where
  "check_records n prev [] = None"
| "check_records n prev (r # rs) =
     (if cr_seq (er_row r) \<noteq> n then Some (MissingPosition n)
      else if prev \<noteq> None \<and> Some (cr_prev (er_row r)) \<noteq> prev then Some (PrevMismatch (cr_seq (er_row r)))
      else if computeEntryHash (er_row r) \<noteq> cr_entry (er_row r) then Some (EntryMismatch (cr_seq (er_row r)))
      else check_records (n + 1) (Some (cr_entry (er_row r))) rs)"

definition checkExportRange :: "exported_record list \<Rightarrow> int \<Rightarrow> int \<Rightarrow> audit_err option" where
  "checkExportRange records lo hi =
     (if int (length records) \<noteq> hi - lo + 1
      then Some (WrongCount (int (length records)) (hi - lo + 1))
      else check_records lo None records)"

section \<open>Claiming a range\<close>

definition new_cursor :: export_cursor where
  "new_cursor = \<lparr>ec_exported = 0, ec_pending = None\<rparr>"

definition create_cursor :: "string \<Rightarrow> audit_db \<Rightarrow> (unit \<times> audit_db) option" where
  "create_cursor t d =
     (if cursors d t \<noteq> None then Some ((), d)
      else if text_ok d t then Some ((), d\<lparr>cursors := (cursors d)(t := Some new_cursor)\<rparr>)
      else None)"

text \<open>The first and the last position after the exported ones, at most a batch apart.\<close>

definition next_range :: "string \<Rightarrow> int \<Rightarrow> nat \<Rightarrow> audit_db \<Rightarrow> (int \<times> int) option" where
  "next_range t exported batch d =
     (case take batch (filter (\<lambda>r. the (ar_seq r) > exported) (chained t d)) of
        [] \<Rightarrow> None
      | r # rs \<Rightarrow> Some (the (ar_seq r), the (ar_seq (last (r # rs)))))"

definition set_pending :: "string \<Rightarrow> int \<times> int \<Rightarrow> audit_db \<Rightarrow> (unit \<times> audit_db) option" where
  "set_pending t rng d =
     (if fst rng \<le> snd rng
      then Some ((), d\<lparr>cursors := (cursors d)(t := map_option (\<lambda>c. c\<lparr>ec_pending := Some rng\<rparr>) (cursors d t))\<rparr>)
      else None)"

definition claimRange_tx :: "nat \<Rightarrow> string \<Rightarrow> ((int \<times> int) option \<times> bool) audit_act" where
  "claimRange_tx batch t =
     bnd (aexec (create_cursor t)) (\<lambda>_.
     bnd (aquery (\<lambda>d. cursors d t)) (\<lambda>c.
     bnd (from_option AuditDB c) (\<lambda>c.
     case ec_pending c of
       Some rng \<Rightarrow> ret (Some rng, False)
     | None \<Rightarrow>
         bnd (aquery (next_range t (ec_exported c) batch)) (\<lambda>rng.
         case rng of
           None \<Rightarrow> ret (None, False)
         | Some rng \<Rightarrow> bnd (aexec (set_pending t rng)) (\<lambda>_. ret (Some rng, True))))))"

definition claimRange :: "nat \<Rightarrow> string \<Rightarrow> (int \<times> int) option audit_act" where
  "claimRange batch t = atx (claimRange_tx batch t)"

section \<open>Writing it\<close>

definition PutLocked :: "string \<Rightarrow> stored_object \<Rightarrow> unit audit_act" where
  "PutLocked key obj w =
     (case atake w of
        (Fails, w') \<Rightarrow> (Inl AuditStore, w')
      | (f, w') \<Rightarrow> ((if f = Works then Inr () else Inl AuditStore), w'\<lparr>bucket := (bucket w')(key := Some obj)\<rparr>))"

definition put_range :: "export_policy \<Rightarrow> string \<Rightarrow> int \<Rightarrow> int \<Rightarrow> exported_record list \<Rightarrow> unit audit_act" where
  "put_range p t lo hi records =
     bnd aclock (\<lambda>now.
     PutLocked (ExportObjectKey t lo hi)
       \<lparr>so_records = records, so_mode = ep_mode p, so_retain_until = now + ep_days p * day_ns\<rparr>)"

definition advance :: "string \<Rightarrow> int \<Rightarrow> int \<Rightarrow> audit_db \<Rightarrow> (unit \<times> audit_db) option" where
  "advance t lo hi d =
     (case cursors d t of
        None \<Rightarrow> Some ((), d)
      | Some c \<Rightarrow>
          if ec_pending c = Some (lo, hi)
          then Some ((), d\<lparr>cursors := (cursors d)(t := Some \<lparr>ec_exported = hi, ec_pending = None\<rparr>)\<rparr>)
          else Some ((), d))"

definition load_range :: "string \<Rightarrow> int \<Rightarrow> int \<Rightarrow> exported_record list audit_act" where
  "load_range t lo hi =
     bnd (readRange t lo hi) (\<lambda>records.
     case checkExportRange records lo hi of Some e \<Rightarrow> fail e | None \<Rightarrow> ret records)"

definition ExportTenantOnce :: "nat \<Rightarrow> export_policy \<Rightarrow> string \<Rightarrow> int audit_act" where
  "ExportTenantOnce batch p t =
     (if t = [] then fail EmptyTenant
      else
        bnd (claimRange batch t) (\<lambda>rng.
        case rng of
          None \<Rightarrow> ret 0
        | Some (lo, hi) \<Rightarrow>
            bnd (load_range t lo hi) (\<lambda>records.
            bnd (put_range p t lo hi records) (\<lambda>_.
            bnd (aexec (advance t lo hi)) (\<lambda>_.
            ret (int (length records)))))))"

text \<open>
  A tenant is exported until nothing is left or an error comes; the number of rounds is a bound on
  the recursion. The names of the tenants are trimmed.
\<close>

fun export_tenant :: "nat \<Rightarrow> nat \<Rightarrow> export_policy \<Rightarrow> string \<Rightarrow> audit_world \<Rightarrow> ((int \<times> audit_err list) \<times> audit_world) option" where
  "export_tenant 0 batch p t w = None"
| "export_tenant (Suc fuel) batch p t w =
     (case ExportTenantOnce batch p t w of
        (Inl e, w1) \<Rightarrow> Some ((0, [e]), w1)
      | (Inr n, w1) \<Rightarrow>
          if n = 0 then Some ((0, []), w1)
          else map_option (\<lambda>((m, es), w2). ((n + m, es), w2)) (export_tenant fuel batch p t w1))"

fun export_tenants :: "nat \<Rightarrow> nat \<Rightarrow> export_policy \<Rightarrow> string list \<Rightarrow> audit_world \<Rightarrow> ((int \<times> audit_err list) \<times> audit_world) option" where
  "export_tenants fuel batch p [] w = Some ((0, []), w)"
| "export_tenants fuel batch p (t # ts) w =
     Option.bind (export_tenant fuel batch p t w) (\<lambda>((n, es), w1).
     map_option (\<lambda>((m, es'), w2). ((n + m, es @ es'), w2)) (export_tenants fuel batch p ts w1))"

definition chained_tenants :: "audit_db \<Rightarrow> string list" where
  "chained_tenants d = sorted_list_of_set (ar_tenant ` {r \<in> set (audit_log d). ar_seq r \<noteq> None})"

definition Export :: "nat \<Rightarrow> nat \<Rightarrow> export_policy \<Rightarrow> audit_world \<Rightarrow> ((int \<times> audit_err list) \<times> audit_world) option" where
  "Export fuel batch p w =
     (case aquery chained_tenants w of
        (Inl e, w1) \<Rightarrow> Some ((0, [e]), w1)
      | (Inr ts, w1) \<Rightarrow> export_tenants fuel batch p (map TrimSpace ts) w1)"

text \<open>The age of the oldest record that is not in the bucket, in microseconds.\<close>

definition unexported :: "audit_db \<Rightarrow> audit_row list" where
  "unexported d = filter (\<lambda>r. case ar_seq r of None \<Rightarrow> False | Some s \<Rightarrow> s > exported_seq (ar_tenant r) d) (audit_log d)"

definition exportLag :: "int \<Rightarrow> audit_db \<Rightarrow> int" where
  "exportLag now d =
     (case map ar_created (unexported d) of [] \<Rightarrow> 0 | x # xs \<Rightarrow> max (now - fold min xs x) 0)"

section \<open>Names are unique\<close>

lemma path_special: "\<not> path_plain (CHR ''/'')" "\<not> path_plain (CHR ''%'')"
  by (simp_all add: path_plain_def)

lemma hex_digit_inj: "i < 16 \<Longrightarrow> j < 16 \<Longrightarrow> hex_digit i = hex_digit j \<longleftrightarrow> i = j"
  unfolding hex_digit_def by (rule nth_eq_iff_index_eq) simp_all

lemma hex_digit_not_slash: "n < 16 \<Longrightarrow> hex_digit n \<noteq> CHR ''/''"
proof -
  assume "n < 16"
  then have "hex_digit n \<in> set ''0123456789ABCDEF''" unfolding hex_digit_def by (intro nth_mem) simp
  then show ?thesis by auto
qed

lemma byte_nibbles: "byte c div 16 < 16" "byte c mod 16 < 16"
  using byte_bound [of c] by simp_all

lemma byte_inj: "byte c = byte c' \<Longrightarrow> c = c'"
  by (metis char_of_byte)

lemma escape_char_append:
  assumes "escape_char c @ x = escape_char c' @ y" shows "c = c' \<and> x = y"
proof (cases "path_plain c"; cases "path_plain c'")
  assume "\<not> path_plain c" "\<not> path_plain c'"
  with assms have "byte c div 16 = byte c' div 16" "byte c mod 16 = byte c' mod 16" "x = y"
    by (simp_all add: escape_char_def hex_digit_inj byte_nibbles)
  then have "byte c = byte c'" by (metis div_mult_mod_eq)
  with \<open>x = y\<close> show ?thesis by (simp add: byte_inj)
qed (use assms path_special in \<open>auto simp: escape_char_def\<close>)

lemma escape_char_not_Nil [simp]: "escape_char c \<noteq> []"
  by (simp add: escape_char_def)

lemma PathEscape_inj: "PathEscape s = PathEscape s' \<Longrightarrow> s = s'"
proof (induction s arbitrary: s')
  case (Cons c s)
  then obtain c' s'' where s': "s' = c' # s''" by (cases s') (simp_all add: PathEscape_def)
  with Cons.prems have "escape_char c @ PathEscape s = escape_char c' @ PathEscape s''"
    by (simp add: PathEscape_def)
  from escape_char_append [OF this] Cons.IH s' show ?case by auto
qed (cases s', simp_all add: PathEscape_def)

lemma PathEscape_no_slash: "CHR ''/'' \<notin> set (PathEscape s)"
proof -
  have "CHR ''/'' \<notin> set (escape_char c)" for c
    using path_special hex_digit_not_slash [OF byte_nibbles(1) [of c]] hex_digit_not_slash [OF byte_nibbles(2) [of c]]
    by (auto simp: escape_char_def)
  then show ?thesis by (auto simp: PathEscape_def)
qed

lemma split_at:
  "c \<notin> set xs \<Longrightarrow> c \<notin> set ys \<Longrightarrow> xs @ c # x = ys @ c # y \<Longrightarrow> xs = ys \<and> x = y"
proof (induction xs arbitrary: ys)
  case (Cons a xs) then show ?case by (cases ys) auto
qed (auto simp: Cons_eq_append_conv)

lemma nat_digits_digits: "c \<in> set (nat_digits n) \<Longrightarrow> is_digit c"
proof (induction n rule: nat_digits.induct)
  case (1 n)
  have d: "is_digit (char_of (48 + k))" if "k < 10" for k :: nat
    using is_digit_digit [OF that] by (simp add: digit_def)
  show ?case
  proof (cases "n < 10")
    case False
    with 1(2) have "c \<in> set (nat_digits (n div 10)) \<or> c = char_of (48 + n mod 10)"
      by (auto simp: nat_digits.simps [of n])
    then show ?thesis using 1(1) [OF False] d [of "n mod 10"] by auto
  qed (use 1 d in \<open>simp add: nat_digits.simps [of n]\<close>)
qed

lemma number_nat_digits: "number 0 (nat_digits n) = Some n"
proof (induction n rule: nat_digits.induct)
  case (1 n)
  have d: "digit_value (char_of (48 + k)) = Some k" if "k < 10" for k :: nat
    using digit_value_digit [OF that] by (simp add: digit_def)
  show ?case
  proof (cases "n < 10")
    case False
    then show ?thesis using 1 [OF False] d [of "n mod 10"]
      by (simp add: nat_digits.simps [of n] number_append)
  qed (use d in \<open>simp add: nat_digits.simps [of n]\<close>)
qed

lemma number_zero_pad: "number 0 (zero_pad k (nat_digits n)) = Some n"
  by (simp add: zero_pad_def number_append number_zeros number_nat_digits)

lemma pad20_inj: "0 \<le> n \<Longrightarrow> 0 \<le> m \<Longrightarrow> pad20 n = pad20 m \<Longrightarrow> n = m"
proof -
  assume nm: "0 \<le> n" "0 \<le> m" "pad20 n = pad20 m"
  then have "number 0 (zero_pad 20 (nat_digits (nat n))) = number 0 (zero_pad 20 (nat_digits (nat m)))"
    by (simp only: pad20_def linorder_not_less [symmetric] if_False)
  then have "nat n = nat m" by (simp only: number_zero_pad option.inject)
  with nm show ?thesis by (simp add: eq_nat_nat_iff)
qed

lemma pad20_digit: "0 \<le> n \<Longrightarrow> c \<in> set (pad20 n) \<Longrightarrow> is_digit c"
proof -
  assume "0 \<le> n" "c \<in> set (pad20 n)"
  then have "c = digit 0 \<or> c \<in> set (nat_digits (nat n))"
    by (simp only: pad20_def zero_pad_def linorder_not_less [symmetric] if_False set_append Un_iff) auto
  then show ?thesis using is_digit_digit [of 0] nat_digits_digits by auto
qed

lemma pad20_no_dash: "0 \<le> n \<Longrightarrow> CHR ''-'' \<notin> set (pad20 n)"
proof
  assume "0 \<le> n" "CHR ''-'' \<in> set (pad20 n)"
  then have "is_digit (CHR ''-'')" by (rule pad20_digit)
  moreover have "\<not> is_digit (CHR ''-'')" by code_simp
  ultimately show False by blast
qed

lemma ExportObjectKey_inj:
  assumes "0 \<le> lo" "0 \<le> hi" "0 \<le> lo'" "0 \<le> hi'"
    and "ExportObjectKey t lo hi = ExportObjectKey t' lo' hi'"
  shows "t = t' \<and> lo = lo' \<and> hi = hi'"
proof -
  from assms(5) have "PathEscape t @ CHR ''/'' # (pad20 lo @ ''-'' @ pad20 hi @ ''.ndjson'') =
      PathEscape t' @ CHR ''/'' # (pad20 lo' @ ''-'' @ pad20 hi' @ ''.ndjson'')"
    by (simp add: ExportObjectKey_def)
  from split_at [OF PathEscape_no_slash PathEscape_no_slash this]
  have t: "PathEscape t = PathEscape t'" and rest:
    "pad20 lo @ CHR ''-'' # (pad20 hi @ ''.ndjson'') = pad20 lo' @ CHR ''-'' # (pad20 hi' @ ''.ndjson'')"
    by simp_all
  from split_at [OF pad20_no_dash pad20_no_dash rest] assms
  have "pad20 lo = pad20 lo'" "pad20 hi = pad20 hi'" by simp_all
  with t assms show ?thesis by (auto dest: PathEscape_inj pad20_inj)
qed

end
