(* ===== verification/AuditTrail.thy ===== *)
theory AuditTrail
  imports AuditExport
begin

text \<open>
  What the audit trail promises, and that every step keeps it. The specification is one append-only
  list of rows for each tenant: the rows of \<open>audit_log\<close> are the end of it, the exported objects are
  consecutive slices from its start, and together they cover it. Writers, retention and any number of
  exporters interleave; an exporter may stop between any two of its steps.
\<close>

section \<open>The specification\<close>

definition anchor_seq :: "string \<Rightarrow> audit_db \<Rightarrow> int" where
  "anchor_seq t d = (case anchors d t of None \<Rightarrow> 1 | Some a \<Rightarrow> an_first a)"

definition anchor_hash :: "string \<Rightarrow> audit_db \<Rightarrow> string" where
  "anchor_hash t d = (case anchors d t of None \<Rightarrow> chainGenesis | Some a \<Rightarrow> an_prev a)"

definition pending_of :: "string \<Rightarrow> audit_db \<Rightarrow> (int \<times> int) option" where
  "pending_of t d = (case cursors d t of None \<Rightarrow> None | Some c \<Rightarrow> ec_pending c)"

text \<open>The rows at the positions from \<open>lo\<close> to \<open>hi\<close>.\<close>

definition span_of :: "chain_row list \<Rightarrow> int \<Rightarrow> int \<Rightarrow> chain_row list" where
  "span_of h lo hi = take (nat (hi - lo + 1)) (drop (nat (lo - 1)) h)"

text \<open>\<open>consecutive m rs n\<close>: the ranges cover the positions after \<open>m\<close> up to \<open>n\<close>, one after the other.\<close>

fun consecutive :: "int \<Rightarrow> (int \<times> int) list \<Rightarrow> int \<Rightarrow> bool" where
  "consecutive m [] n \<longleftrightarrow> m = n"
| "consecutive m ((lo, hi) # rs) n \<longleftrightarrow> lo = m + 1 \<and> lo \<le> hi \<and> consecutive hi rs n"

type_synonym objects = "string \<Rightarrow> stored_object option"

text \<open>The log holds what is after the anchor.\<close>

definition log_ok :: "string \<Rightarrow> chain_row list \<Rightarrow> audit_db \<Rightarrow> bool" where
  "log_ok t h d \<longleftrightarrow>
     linked t 1 chainGenesis h \<and>
     1 \<le> anchor_seq t d \<and> anchor_seq t d - 1 \<le> exported_seq t d \<and>
     chain_of t d = drop (nat (anchor_seq t d - 1)) h \<and>
     anchor_hash t d = end_hash chainGenesis (take (nat (anchor_seq t d - 1)) h)"

text \<open>The cursor is inside the list, and a pending range is the next one.\<close>

definition cursor_ok :: "string \<Rightarrow> chain_row list \<Rightarrow> audit_db \<Rightarrow> bool" where
  "cursor_ok t h d \<longleftrightarrow>
     exported_seq t d \<le> int (length h) \<and>
     (\<forall>lo hi. pending_of t d = Some (lo, hi) \<longrightarrow>
        lo = exported_seq t d + 1 \<and> lo \<le> hi \<and> hi \<le> int (length h))"

text \<open>The objects are slices of the list, one after the other up to the cursor.\<close>

definition objects_ok :: "string \<Rightarrow> chain_row list \<Rightarrow> audit_db \<Rightarrow> objects \<Rightarrow> bool" where
  "objects_ok t h d b \<longleftrightarrow>
     (\<exists>rs. consecutive 0 rs (exported_seq t d) \<and>
        (\<forall>(lo, hi) \<in> set rs. b (ExportObjectKey t lo hi) \<noteq> None) \<and>
        (\<forall>lo hi obj. 0 \<le> lo \<longrightarrow> 0 \<le> hi \<longrightarrow> b (ExportObjectKey t lo hi) = Some obj \<longrightarrow>
           ((lo, hi) \<in> set rs \<or> pending_of t d = Some (lo, hi)) \<and>
           map er_row (so_records obj) = span_of h lo hi))"

definition trail :: "string \<Rightarrow> chain_row list \<Rightarrow> audit_db \<Rightarrow> objects \<Rightarrow> bool" where
  "trail t h d b \<longleftrightarrow> log_ok t h d \<and> cursor_ok t h d \<and> objects_ok t h d b"

section \<open>Positions\<close>

lemma linked_filter_gt:
  "linked t (m + 1) p rs \<Longrightarrow> filter (\<lambda>r. n < cr_seq r) rs = drop (nat (n - m)) rs"
proof (induction rs arbitrary: m p)
  case (Cons r rs)
  then have IH: "filter (\<lambda>r. n < cr_seq r) rs = drop (nat (n - (m + 1))) rs" and r: "cr_seq r = m + 1"
    by (auto intro!: Cons.IH [of "m + 1"])
  show ?case
  proof (cases "n < m + 1")
    case True
    then have "nat (n - m) = 0" "nat (n - (m + 1)) = 0" by simp_all
    with True IH r show ?thesis by simp
  next
    case False
    then have "nat (n - m) = Suc (nat (n - (m + 1)))" by simp
    with False IH r show ?thesis by simp
  qed
qed simp

lemma linked_filter_le:
  "linked t (m + 1) p rs \<Longrightarrow> filter (\<lambda>r. cr_seq r \<le> n) rs = take (nat (n - m)) rs"
proof (induction rs arbitrary: m p)
  case (Cons r rs)
  then have IH: "filter (\<lambda>r. cr_seq r \<le> n) rs = take (nat (n - (m + 1))) rs" and r: "cr_seq r = m + 1"
    by (auto intro!: Cons.IH [of "m + 1"])
  show ?case
  proof (cases "n < m + 1")
    case True
    then have "nat (n - m) = 0" "nat (n - (m + 1)) = 0" by simp_all
    with True IH r show ?thesis by simp
  next
    case False
    then have "nat (n - m) = Suc (nat (n - (m + 1)))" by simp
    with False IH r show ?thesis by simp
  qed
qed simp

lemma cr_seq_scan [simp]: "cr_seq (scan_row t r) = the (ar_seq r)"
  by (simp add: scan_row_def)

lemma cr_entry_scan [simp]: "cr_entry (scan_row t r) = ar_entry r"
  by (simp add: scan_row_def)

lemma map_scan_filter:
  "map (scan_row t) (filter (\<lambda>r. P (the (ar_seq r))) (chained t d)) = filter (\<lambda>r. P (cr_seq r)) (chain_of t d)"
  by (simp add: chain_of_def filter_map o_def)

lemma log_ok_suffix:
  assumes "log_ok t h d"
  shows "linked t (anchor_seq t d) (anchor_hash t d) (chain_of t d)"
    "int (length (chain_of t d)) = int (length h) - (anchor_seq t d - 1) \<or> chain_of t d = []"
proof -
  let ?k = "nat (anchor_seq t d - 1)"
  from assms have h: "linked t 1 chainGenesis h" and k: "1 \<le> anchor_seq t d"
    and c: "chain_of t d = drop ?k h" and p: "anchor_hash t d = end_hash chainGenesis (take ?k h)"
    by (simp_all add: log_ok_def)
  show "linked t (anchor_seq t d) (anchor_hash t d) (chain_of t d)"
  proof (cases "?k \<le> length h")
    case True
    with linked_drop [OF h True] k c p show ?thesis by simp
  qed (simp add: c)
  show "int (length (chain_of t d)) = int (length h) - (anchor_seq t d - 1) \<or> chain_of t d = []"
    using c k by auto
qed

lemma log_ok_prefix:
  "log_ok t h d \<Longrightarrow> cursor_ok t h d \<Longrightarrow> nat (anchor_seq t d - 1) \<le> length h"
  by (auto simp: log_ok_def cursor_ok_def)

section \<open>The head of a chain\<close>

lemma aquery_Inr: "aquery q w = (Inr x, w') \<Longrightarrow> x = q (adb w) \<and> same_data w w'"
  by (auto simp: aquery_def atake_def same_data_def split: fault.splits)

lemma chainAnchor_Inr:
  assumes "chainAnchor t w = (Inr (n, p), w')"
  shows "n = anchor_seq t (adb w)" "p = anchor_hash t (adb w)" "1 \<le> n \<and> length p = chainHashLen"
proof -
  from assms obtain a w1 where a: "aquery (\<lambda>d. anchors d t) w = (Inr a, w1)"
    and rest: "(case a of None \<Rightarrow> ret (1, chainGenesis)
     | Some a \<Rightarrow> if an_first a < 1 \<or> length (an_prev a) \<noteq> chainHashLen then fail (CorruptAnchor t)
         else ret (an_first a, an_prev a)) w1 = (Inr (n, p), w')" by (auto simp: chainAnchor_def)
  have "a = anchors (adb w) t" using aquery_Inr [OF a] by simp
  with rest show "n = anchor_seq t (adb w)" "p = anchor_hash t (adb w)" "1 \<le> n \<and> length p = chainHashLen"
    by (auto simp: anchor_seq_def anchor_hash_def chainGenesis_def split: option.splits if_splits)
qed

lemma chainHead_Inr:
  assumes ok: "log_ok t h (adb w)" "cursor_ok t h (adb w)" and run: "chainHead t w = (Inr (n, p), w')"
  shows "n = int (length h) \<and> p = end_hash chainGenesis h"
proof -
  let ?d = "adb w" and ?k = "nat (anchor_seq t (adb w) - 1)"
  have h: "linked t 1 chainGenesis h" and k: "1 \<le> anchor_seq t ?d" and c: "chain_of t ?d = drop ?k h"
    and a: "anchor_hash t ?d = end_hash chainGenesis (take ?k h)" using ok(1) by (simp_all add: log_ok_def)
  have le: "?k \<le> length h" by (rule log_ok_prefix [OF ok])
  from run obtain r w1 where r: "aquery (newest t) w = (Inr r, w1)"
    and rest: "(case r of None \<Rightarrow> bnd (chainAnchor t) (\<lambda>(firstSeq, prevHash). ret (firstSeq - 1, prevHash))
     | Some r \<Rightarrow> if length (ar_entry r) \<noteq> chainHashLen then fail (CorruptHead t)
         else ret (the (ar_seq r), ar_entry r)) w1 = (Inr (n, p), w')" by (auto simp: chainHead_def)
  have r': "r = newest t ?d" and same: "adb w1 = ?d" using aquery_Inr [OF r] by (simp_all add: same_data_def)
  show ?thesis
  proof (cases "chained t ?d" rule: rev_cases)
    case Nil
    with r' rest obtain m q w2 where anchor: "chainAnchor t w1 = (Inr (m, q), w2)" and np: "n = m - 1" "p = q"
      by (auto simp: newest_def)
    have "length h \<le> ?k" using Nil c by (simp add: chain_of_def)
    with le have "?k = length h" by simp
    then show ?thesis using chainAnchor_Inr [OF anchor] np same a k by (simp add: end_hash_def)
  next
    case (snoc rs x)
    with r' rest have np: "n = the (ar_seq x)" "p = ar_entry x" by (auto simp: newest_def split: if_splits)
    have ne: "drop ?k h \<noteq> []" using snoc c by (auto simp: chain_of_def)
    have "scan_row t x = last h" using snoc c ne by (auto simp: chain_of_def dest: arg_cong [of _ _ last])
    then have "cr_seq (last h) = n" "cr_entry (last h) = p" using np by (metis cr_seq_scan, metis cr_entry_scan)
    moreover have "h \<noteq> []" using ne by auto
    moreover have "cr_seq (last h) = 1 + int (length h - 1)"
      using linked_seq [OF h, of "length h - 1"] \<open>h \<noteq> []\<close> by (simp add: last_conv_nth)
    ultimately show ?thesis by (simp add: end_hash_def of_nat_diff Suc_leI)
  qed
qed

section \<open>A write extends the lists\<close>

definition written :: "audit_entry list \<Rightarrow> int \<Rightarrow> chain_row list \<Rightarrow> string \<Rightarrow> chain_row list" where
  "written batch created h t =
     new_rows t created (int (length h)) (end_hash chainGenesis h) (byTenant batch t)"

lemma chain_tenants_Inr:
  assumes "\<And>t. log_ok t (hs t) (adb w) \<and> cursor_ok t (hs t) (adb w)"
    and "chain_tenants batch c ts w = (Inr rows, w')"
  shows "rows = concat (map (\<lambda>t. written batch c (hs t) t) ts)"
  using assms
proof (induction ts arbitrary: w rows)
  case (Cons t ts)
  from Cons.prems(2) obtain r1 w1 r2 where one: "chain_tenant batch c t w = (Inr r1, w1)"
    and more: "chain_tenants batch c ts w1 = (Inr r2, w')" and rows: "rows = r1 @ r2" by auto
  from one obtain w2 n p w3 where lock: "lock_chain (tenantAdvisoryKey t) w = (Inr (), w2)"
    and head: "chainHead t w2 = (Inr (n, p), w3)" and r1: "r1 = new_rows t c n p (byTenant batch t)"
    by (auto simp: chain_tenant_def)
  have d2: "adb w2 = adb w" using alongD [OF reads_lock lock] by (simp add: same_data_def)
  have d1: "adb w1 = adb w" using alongD [OF reads_chain_tenant one] by (simp add: same_data_def)
  have "n = int (length (hs t)) \<and> p = end_hash chainGenesis (hs t)"
    by (rule chainHead_Inr [OF _ _ head]) (use Cons.prems(1) d2 in simp_all)
  moreover have "r2 = concat (map (\<lambda>t. written batch c (hs t) t) ts)"
    by (rule Cons.IH [OF _ more]) (use Cons.prems(1) d1 in simp)
  ultimately show ?case using r1 rows by (simp add: written_def)
qed simp

lemma written_tenant: "r \<in> set (written batch c h t) \<Longrightarrow> cr_tenant r = t"
  unfolding written_def by (rule linked_tenant [OF linked_new_rows])

lemma filter_concat_written:
  assumes "distinct ts"
  shows "filter (\<lambda>r. cr_tenant r = t) (concat (map (\<lambda>t. written batch c (hs t) t) ts)) =
    (if t \<in> set ts then written batch c (hs t) t else [])"
  using assms
proof (induction ts)
  case (Cons u ts)
  have "filter (\<lambda>r. cr_tenant r = t) (written batch c (hs u) u) = (if u = t then written batch c (hs u) u else [])"
    by (auto simp: filter_id_conv filter_empty_conv dest: written_tenant)
  with Cons show ?case by auto
qed simp

lemma written_nobody: "t \<notin> ae_tenant ` set batch \<Longrightarrow> written batch c h t = []"
proof -
  assume "t \<notin> ae_tenant ` set batch"
  then have "byTenant batch t = []" by (auto simp: byTenant_def filter_empty_conv)
  then show ?thesis by (simp add: written_def)
qed

lemma sort_key_append:
  assumes "sorted (map f ys)" "\<And>x y. x \<in> set xs \<Longrightarrow> y \<in> set ys \<Longrightarrow> f x \<le> f y"
  shows "sort_key f (xs @ ys) = sort_key f xs @ ys"
proof (rule properties_for_sort_key)
  show "mset (sort_key f xs @ ys) = mset (xs @ ys)" by simp
  show "filter (\<lambda>x. f k = f x) (sort_key f xs @ ys) = filter (\<lambda>x. f k = f x) (xs @ ys)" for k
  proof -
    have "(\<lambda>x. f k = f x) = (\<lambda>x. f x = f k)" by auto
    then show ?thesis by (simp add: sort_key_stable)
  qed
  show "sorted (map f (sort_key f xs @ ys))" using assms by (auto simp: sorted_append)
qed

lemma linked_sorted: "linked t n p rs \<Longrightarrow> sorted (map cr_seq rs) \<and> (\<forall>r \<in> set rs. n \<le> cr_seq r)"
proof (induction rs arbitrary: n p)
  case (Cons r rs)
  then have "sorted (map cr_seq rs) \<and> (\<forall>r \<in> set rs. n + 1 \<le> cr_seq r)" by auto
  with Cons.prems show ?case by (auto dest: bspec)
qed simp

lemma scan_number_rows:
  "map (scan_row t) (filter (\<lambda>x. ar_tenant x = t \<and> ar_seq x \<noteq> None) (number_rows i rs)) =
     filter (\<lambda>r. cr_tenant r = t) rs"
proof (induction rs arbitrary: i)
  case (Cons r rs)
  have "ar_tenant (stored_row i r) = cr_tenant r" "ar_seq (stored_row i r) = Some (cr_seq r)"
    by (simp_all add: stored_row_def)
  with Cons show ?case by (simp add: scan_stored)
qed simp

lemma chain_of_insert:
  assumes ins: "insert_rows rows d = Some (i, d')"
    and old: "linked t n p (chain_of t d)"
    and new: "linked t (n + int (length (chain_of t d))) q (filter (\<lambda>r. cr_tenant r = t) rows)"
  shows "chain_of t d' = chain_of t d @ filter (\<lambda>r. cr_tenant r = t) rows"
proof -
  let ?P = "\<lambda>x. ar_tenant x = t \<and> ar_seq x \<noteq> None" and ?f = "\<lambda>r. the (ar_seq r)"
  let ?ys = "filter ?P (number_rows (next_row_id d) rows)"
  from ins have log: "audit_log d' = audit_log d @ number_rows (next_row_id d) rows"
    by (auto simp: insert_rows_def split: if_splits)
  have scan: "map (scan_row t) ?ys = filter (\<lambda>r. cr_tenant r = t) rows" by (rule scan_number_rows)
  have keys: "map ?f ?ys = map cr_seq (filter (\<lambda>r. cr_tenant r = t) rows)"
    by (simp add: scan [symmetric] o_def)
  have "?f x \<le> ?f y" if "x \<in> set (filter ?P (audit_log d))" "y \<in> set ?ys" for x y
  proof -
    have "scan_row t x \<in> set (chain_of t d)" using that(1) by (simp add: chain_of_def chained_def)
    then obtain j where "j < length (chain_of t d)" "chain_of t d ! j = scan_row t x"
      by (auto simp: in_set_conv_nth)
    with linked_seq [OF old, of j] have "?f x < n + int (length (chain_of t d))" by simp
    moreover have "scan_row t y \<in> set (filter (\<lambda>r. cr_tenant r = t) rows)"
      using that(2) unfolding scan [symmetric] set_map by (rule imageI)
    then have "n + int (length (chain_of t d)) \<le> ?f y" using linked_sorted [OF new] cr_seq_scan [of t y] by metis
    ultimately show ?thesis by simp
  qed
  moreover have "sorted (map ?f ?ys)" unfolding keys using linked_sorted [OF new] by simp
  ultimately have "chained t d' = chained t d @ ?ys"
    unfolding chained_def log filter_append by (intro sort_key_append)
  then show ?thesis by (simp only: chain_of_def map_append scan)
qed

lemma linked_written: "linked t (int (length h) + 1) (end_hash chainGenesis h) (written batch c h t)"
  unfolding written_def by (rule linked_new_rows)

text \<open>Rows are added at the end of the list; what is exported stays.\<close>

lemma span_append: "1 \<le> lo \<Longrightarrow> hi \<le> int (length h) \<Longrightarrow> span_of (h @ ext) lo hi = span_of h lo hi"
  by (auto simp: span_of_def)

lemma consecutive_bound: "consecutive m rs n \<Longrightarrow> m \<le> n \<and> (\<forall>(lo, hi) \<in> set rs. m < lo \<and> lo \<le> hi \<and> hi \<le> n)"
proof (induction rs arbitrary: m)
  case (Cons r rs)
  obtain lo hi where r: "r = (lo, hi)" by force
  with Cons.prems have "lo = m + 1" "lo \<le> hi" "consecutive hi rs n" by auto
  with Cons.IH [of hi] r show ?case by (auto dest!: bspec)
qed simp

lemma objects_ok_append:
  assumes "objects_ok t h d b" "cursor_ok t h d" "cursors d' t = cursors d t"
  shows "objects_ok t (h @ ext) d' b"
proof -
  have e: "exported_seq t d' = exported_seq t d" "pending_of t d' = pending_of t d"
    using assms(3) by (simp_all add: exported_seq_def pending_of_def)
  from assms(1) obtain rs where rs: "consecutive 0 rs (exported_seq t d)"
    "\<forall>(lo, hi) \<in> set rs. b (ExportObjectKey t lo hi) \<noteq> None"
    and objs: "\<And>lo hi obj. 0 \<le> lo \<Longrightarrow> 0 \<le> hi \<Longrightarrow> b (ExportObjectKey t lo hi) = Some obj \<Longrightarrow>
       ((lo, hi) \<in> set rs \<or> pending_of t d = Some (lo, hi)) \<and> map er_row (so_records obj) = span_of h lo hi"
    by (auto simp: objects_ok_def)
  have bound: "1 \<le> lo \<and> hi \<le> int (length h)" if "(lo, hi) \<in> set rs \<or> pending_of t d = Some (lo, hi)" for lo hi
    using that consecutive_bound [OF rs(1)] assms(2) by (auto simp: cursor_ok_def)
  have "((lo, hi) \<in> set rs \<or> pending_of t d = Some (lo, hi)) \<and> map er_row (so_records obj) = span_of (h @ ext) lo hi"
    if "0 \<le> lo" "0 \<le> hi" "b (ExportObjectKey t lo hi) = Some obj" for lo hi obj
    using objs [OF that] bound [of lo hi] span_append [of lo hi h ext] by auto
  with rs show ?thesis unfolding objects_ok_def e by blast
qed

lemma trail_insert:
  assumes ok: "\<And>t. trail t (hs t) d b"
    and ins: "insert_rows (concat (map (\<lambda>t. written batch c (hs t) t) (batch_tenants batch))) d = Some (i, d')"
  shows "trail t (hs t @ written batch c (hs t) t) d' b"
proof -
  let ?h = "hs t" and ?k = "nat (anchor_seq t d - 1)"
  have log: "log_ok t ?h d" and cur: "cursor_ok t ?h d" and obj: "objects_ok t ?h d b"
    using ok [of t] by (simp_all add: trail_def)
  have same: "anchors d' = anchors d" "cursors d' = cursors d"
    using ins by (auto simp: insert_rows_def split: if_splits)
  have e: "exported_seq t d' = exported_seq t d" "pending_of t d' = pending_of t d"
    "anchor_seq t d' = anchor_seq t d" "anchor_hash t d' = anchor_hash t d"
    using same by (simp_all add: exported_seq_def pending_of_def anchor_seq_def anchor_hash_def)
  have mine: "filter (\<lambda>r. cr_tenant r = t) (concat (map (\<lambda>t. written batch c (hs t) t) (batch_tenants batch))) =
      written batch c ?h t"
    by (subst filter_concat_written) (auto simp: batch_tenants_def written_nobody)
  have h: "linked t 1 chainGenesis ?h" and c: "chain_of t d = drop ?k ?h" and k: "1 \<le> anchor_seq t d"
    using log by (simp_all add: log_ok_def)
  have le: "?k \<le> length ?h" by (rule log_ok_prefix [OF log cur])
  then have len: "anchor_seq t d + int (length (chain_of t d)) = int (length ?h) + 1" using c k by simp
  have "chain_of t d' = chain_of t d @ written batch c ?h t"
    using chain_of_insert [OF ins log_ok_suffix(1) [OF log], of "end_hash chainGenesis ?h"] linked_written [of t ?h batch c]
    unfolding mine len by simp
  then have "chain_of t d' = drop ?k (?h @ written batch c ?h t)" using c le by simp
  moreover have "linked t 1 chainGenesis (?h @ written batch c ?h t)"
    using h linked_written [of t ?h batch c] by (simp add: linked_append add.commute)
  ultimately have "log_ok t (?h @ written batch c ?h t) d'"
    using log le by (simp add: log_ok_def e)
  moreover have "cursor_ok t (?h @ written batch c ?h t) d'"
    using cur by (force simp: cursor_ok_def e)
  moreover have "objects_ok t (?h @ written batch c ?h t) d' b"
    by (rule objects_ok_append [OF obj cur]) (simp add: same)
  ultimately show ?thesis by (simp add: trail_def)
qed

end
