(* ===== verification/AuditSteps.thy ===== *)
theory AuditSteps
  imports AuditTrail
begin

text \<open>
  Each operation on the audit trail takes the specification along: a write appends, retention and
  export keep the list.
\<close>

definition trails :: "(string \<Rightarrow> chain_row list) \<Rightarrow> audit_world \<Rightarrow> bool" where
  "trails hs w \<longleftrightarrow> (\<forall>t. trail t (hs t) (adb w) (bucket w))"

lemma trails_same: "trails hs w \<Longrightarrow> adb w' = adb w \<Longrightarrow> bucket w' = bucket w \<Longrightarrow> trails hs w'"
  by (simp add: trails_def)

section \<open>Writes\<close>

lemma insert_step:
  assumes ok: "trails hs w" and run: "Writer_insert batch w = (r, w')"
  shows "trails hs w' \<and> (\<forall>x. r = Inr x \<longrightarrow> batch = []) \<or>
    (\<exists>c. trails (\<lambda>t. hs t @ written batch c (hs t) t) w' \<and> (\<exists>n. c = anow w n div 1000))"
proof (cases "batch = []")
  case True
  with run ok show ?thesis by (simp add: Writer_insert_def)
next
  case False
  with run have tx: "atx (Writer_insert_tx batch) w = (r, w')" by (simp add: Writer_insert_def)
  have b: "bucket w' = bucket w" using alongD [OF tables_insert run] by (simp add: same_objects_def)
  from tx show ?thesis
  proof (cases rule: atx_cases)
    case 1
    then have "trails hs w'" using trails_same [OF ok _ b] by simp
    moreover have "r \<noteq> Inr x" for x
      using 1(2) [of x] by (auto simp: Writer_insert_tx_def)
    ultimately show ?thesis by blast
  next
    case (2 w1 x w2)
    from 2(2) obtain now w3 rows w4 where clk: "aclock w1 = (Inr now, w3)"
      and rows: "chain_tenants batch (now div 1000) (batch_tenants batch) w3 = (Inr rows, w4)"
      and ins: "aexec (insert_rows rows) w4 = (Inr x, w2)" by (auto simp: Writer_insert_tx_def)
    have d3: "adb w3 = adb w" "bucket w3 = bucket w" "anow w1 = anow w"
      using alongD [OF reads_aclock clk] 2(1) by (simp_all add: same_data_def)
    have d4: "adb w4 = adb w3" using alongD [OF reads_chain_tenants rows] by (simp add: same_data_def)
    have lk: "log_ok t (hs t) (adb w3) \<and> cursor_ok t (hs t) (adb w3)" for t
      using ok d3 by (simp add: trails_def trail_def)
    have eq: "rows = concat (map (\<lambda>t. written batch (now div 1000) (hs t) t) (batch_tenants batch))"
      by (rule chain_tenants_Inr [OF lk rows])
    from ins have "insert_rows rows (adb w4) = Some (x, adb w2)"
      by (auto simp: aexec_def atake_def split: fault.splits option.splits)
    then have "insert_rows rows (adb w) = Some (x, adb w2)" using d3 d4 by simp
    from trail_insert [OF _ this [unfolded eq]] ok 2(3) b
    have "trails (\<lambda>t. hs t @ written batch (now div 1000) (hs t) t) w'" by (simp add: trails_def)
    moreover have "now = anow w (aticks w1)" using clk d3(3) by (simp add: aclock_def)
    ultimately show ?thesis by blast
  qed
qed

section \<open>Retention\<close>

lemma aexec_Inr:
  "aexec st w = (Inr x, w') \<Longrightarrow> st (adb w) = Some (x, adb w') \<and> same_objects w w'"
  by (auto simp: aexec_def atake_def same_objects_def split: fault.splits option.splits)

lemma tables_PruneTenant: "along same_objects (PruneTenant months t)"
  unfolding PruneTenant_def PruneTenant_tx_def periodOfTenant_def
  by (intro tables.along_rules tables_atx tables_aexec reads_tables [OF reads_aclock]
      reads_tables [OF reads_lock] reads_tables [OF reads_aquery])

lemma chained_tenant: "r \<in> set (chained t d) \<Longrightarrow> ar_tenant r = t \<and> ar_seq r \<noteq> None"
  by (simp add: chained_def)

text \<open>What a run of retention does to the tables of a tenant.\<close>

definition pruned :: "string \<Rightarrow> int \<Rightarrow> string \<Rightarrow> int \<Rightarrow> audit_db \<Rightarrow> audit_db" where
  "pruned t s p now d =
     d\<lparr>anchors := (anchors d)(t := Some \<lparr>an_first = s + 1, an_prev = p, an_pruned = now\<rparr>),
       audit_log := filter (\<lambda>r. \<not> removable t s r) (audit_log d)\<rparr>"

lemma chained_pruned: "chained u (pruned t s p now d) = filter (\<lambda>r. \<not> removable t s r) (chained u d)"
proof -
  let ?Q = "\<lambda>r. \<not> removable t s r"
  have "filter (\<lambda>r. ar_tenant r = u \<and> ar_seq r \<noteq> None) (filter ?Q (audit_log d)) =
      filter ?Q (filter (\<lambda>r. ar_tenant r = u \<and> ar_seq r \<noteq> None) (audit_log d))"
    by (simp add: conj_commute)
  then show ?thesis by (simp add: chained_def filter_sort pruned_def)
qed

text \<open>The boundary that a run of retention uses, with the clock at its reading \<open>n\<close>.\<close>

definition prune_cutoff :: "int \<Rightarrow> string \<Rightarrow> audit_world \<Rightarrow> nat \<Rightarrow> int" where
  "prune_cutoff months t w n =
     to_timestamptz (minus_months (anow w n)
       (case tenant_months (adb w) t of None \<Rightarrow> months | Some m \<Rightarrow> max m months))"

lemma PruneTenant_tx_Inr:
  assumes run: "PruneTenant_tx months t w = (Inr (k, c), w')"
  obtains (none) n where "last_old t (prune_cutoff months t w n) (adb w) = None" "k = 0" "adb w' = adb w" "c = True"
  | (rows) x n where "last_old t (prune_cutoff months t w n) (adb w) = Some x" "c = True"
      "length (ar_entry x) = chainHashLen"
      "adb w' = pruned t (the (ar_seq x)) (ar_entry x) (to_timestamptz (anow w n)) (adb w)"
      "k = int (length (filter (removable t (the (ar_seq x))) (audit_log (adb w))))"
proof -
  from run obtain w3 period w4 now w5 xo w6 where
    s1: "lock_chain (tenantAdvisoryKey t) w = (Inr (), w3)"
    and s2: "periodOfTenant months t w3 = (Inr period, w4)"
    and s3: "aclock w4 = (Inr now, w5)"
    and s4: "aquery (last_old t (to_timestamptz (minus_months now period))) w5 = (Inr xo, w6)"
    and s5: "(case xo of None \<Rightarrow> ret (0, True)
       | Some r \<Rightarrow> if length (ar_entry r) \<noteq> chainHashLen then fail (CorruptRow t (the (ar_seq r)))
         else bnd (aexec (upsert_anchor t (the (ar_seq r) + 1) (ar_entry r) (to_timestamptz now))) (\<lambda>_.
           bnd (aexec (delete_rows t (the (ar_seq r)))) (\<lambda>n. ret (n, True)))) w6 = (Inr (k, c), w')"
    by (auto simp: PruneTenant_tx_def)
  have reads_period: "reads (periodOfTenant months t)"
    unfolding periodOfTenant_def by (intro reads_rules)
  have d: "adb w6 = adb w" "adb w5 = adb w" "adb w3 = adb w" "anow w4 = anow w"
    using alongD [OF reads_lock s1] alongD [OF reads_period s2] alongD [OF reads_aclock s3] alongD [OF reads_aquery s4]
    by (simp_all add: same_data_def)
  have now: "now = anow w (aticks w4)" using s3 d(4) by (simp add: aclock_def)
  from s2 obtain m w7 where "aquery (\<lambda>d. tenant_months d t) w3 = (Inr m, w7)"
    and per: "period = (case m of None \<Rightarrow> months | Some months' \<Rightarrow> max months' months)"
    by (auto simp: periodOfTenant_def)
  then have "period = (case tenant_months (adb w) t of None \<Rightarrow> months | Some m \<Rightarrow> max m months)"
    using aquery_Inr d(3) by metis
  then have xo: "xo = last_old t (prune_cutoff months t w (aticks w4)) (adb w)"
    using aquery_Inr [OF s4] d now by (simp add: prune_cutoff_def)
  show thesis
  proof (cases xo)
    case None
    with s5 d xo show ?thesis by (intro none [of "aticks w4"]) simp_all
  next
    case (Some x)
    with s5 obtain w8 where len: "length (ar_entry x) = chainHashLen" and c: "c = True"
      and e1: "aexec (upsert_anchor t (the (ar_seq x) + 1) (ar_entry x) (to_timestamptz now)) w6 = (Inr (), w8)"
      and e2: "aexec (delete_rows t (the (ar_seq x))) w8 = (Inr k, w')"
      by (auto split: if_splits)
    from aexec_Inr [OF e1] d have w8: "adb w8 = (adb w)\<lparr>anchors := (anchors (adb w))
        (t := Some \<lparr>an_first = the (ar_seq x) + 1, an_prev = ar_entry x, an_pruned = to_timestamptz now\<rparr>)\<rparr>"
      by (auto simp: upsert_anchor_def split: if_splits)
    from aexec_Inr [OF e2] have "adb w' = pruned t (the (ar_seq x)) (ar_entry x) (to_timestamptz now) (adb w)"
      and "k = int (length (filter (removable t (the (ar_seq x))) (audit_log (adb w))))"
      by (auto simp: delete_rows_def pruned_def w8)
    then show ?thesis using rows [OF _ c len] xo Some now by simp
  qed
qed

lemma PruneTenant_cases:
  assumes run: "PruneTenant months t w = (r, w')"
  obtains (kept) "adb w' = adb w" "\<And>k. r = Inr k \<Longrightarrow> k = 0 \<and> (\<exists>n. last_old t (prune_cutoff months t w n) (adb w) = None)"
  | (rows) x n where "last_old t (prune_cutoff months t w n) (adb w) = Some x"
      "length (ar_entry x) = chainHashLen"
      "adb w' = pruned t (the (ar_seq x)) (ar_entry x) (to_timestamptz (anow w n)) (adb w)"
      "r = Inr (int (length (filter (removable t (the (ar_seq x))) (audit_log (adb w))))) \<or> r = Inl AuditDB"
proof (cases "t = []")
  case True
  with run show thesis using kept by (auto simp: PruneTenant_def)
next
  case False
  with run have "atx (PruneTenant_tx months t) w = (r, w')" by (simp add: PruneTenant_def)
  then show thesis
  proof (cases rule: atx_cases)
    case 1
    have "\<not> (PruneTenant_tx months t w1 = (Inr (k, False), w2))" for w1 k w2
      by (auto elim: PruneTenant_tx_Inr)
    then show ?thesis using kept 1 by blast
  next
    case (2 w1 k w2)
    have same: "adb w1 = adb w" "prune_cutoff months t w1 = prune_cutoff months t w" "anow w1 = anow w"
      using 2(1) by (auto simp: same_data_def prune_cutoff_def)
    from 2(2) show ?thesis
    proof (cases rule: PruneTenant_tx_Inr)
      case (none n)
      then show ?thesis using kept 2(3,4) unfolding same by auto
    next
      case (rows x n)
      then show ?thesis using that(2) [of n x] 2(3,4) unfolding same by simp
    qed
  qed
qed

lemma last_old_row:
  assumes log: "log_ok t h d" and cur: "cursor_ok t h d" and x: "last_old t cutoff d = Some x"
  obtains i where "i < length h" "scan_row t x = h ! i" "the (ar_seq x) = int i + 1"
    "int i + 1 \<le> exported_seq t d" "anchor_seq t d \<le> int i + 1"
    "\<And>j. nat (anchor_seq t d - 1) \<le> j \<Longrightarrow> j \<le> i \<Longrightarrow> cr_created (h ! j) < cutoff"
proof -
  let ?k = "nat (anchor_seq t d - 1)"
  let ?Q = "\<lambda>r. the (ar_seq r) < first_inside t cutoff d \<and> the (ar_seq r) \<le> exported_seq t d"
  have h: "linked t 1 chainGenesis h" and k: "1 \<le> anchor_seq t d" and c: "chain_of t d = drop ?k h"
    using log by (simp_all add: log_ok_def)
  from x have "x \<in> set (rev (filter ?Q (chained t d)))"
    unfolding last_old_def by (cases "rev (filter ?Q (chained t d))") simp_all
  then have mem: "x \<in> set (chained t d)" and Q: "?Q x" by auto
  then have "scan_row t x \<in> set (drop ?k h)" unfolding c [symmetric] by (simp add: chain_of_def)
  then obtain j where j: "j < length h - ?k" "scan_row t x = h ! (?k + j)" by (auto simp: in_set_conv_nth)
  let ?i = "?k + j"
  have i: "?i < length h" using j by simp
  have seq: "the (ar_seq x) = int ?i + 1" using linked_seq [OF h i] j(2) cr_seq_scan [of t x] by simp
  have old: "cr_created (h ! m) < cutoff" if m: "?k \<le> m" "m \<le> ?i" for m
  proof (rule ccontr)
    assume young: "\<not> cr_created (h ! m) < cutoff"
    have "m < length h" using m i by simp
    then have "h ! m \<in> set (chain_of t d)" unfolding c using m by (auto simp: in_set_conv_nth intro!: exI [of _ "m - ?k"])
    then obtain y where y: "y \<in> set (chained t d)" "scan_row t y = h ! m" by (auto simp: chain_of_def)
    have "cr_created (scan_row t y) = ar_created y" by (simp add: scan_row_def)
    then have ycr: "ar_created y \<ge> cutoff" using young unfolding y(2) by simp
    have yseq: "the (ar_seq y) = int m + 1" using linked_seq [OF h \<open>m < length h\<close>] y(2) cr_seq_scan [of t y] by simp
    have "first_inside t cutoff d \<le> the (ar_seq y)"
    proof -
      have srt: "sorted (map (\<lambda>r. the (ar_seq r)) (filter (\<lambda>r. ar_created r \<ge> cutoff) (chained t d)))"
        unfolding chained_def by (simp add: sorted_filter)
      have "y \<in> set (filter (\<lambda>r. ar_created r \<ge> cutoff) (chained t d))" using y(1) ycr by simp
      with srt show ?thesis unfolding first_inside_def
        by (cases "filter (\<lambda>r. ar_created r \<ge> cutoff) (chained t d)") auto
    qed
    moreover have "int m \<le> int ?i" using m(2) by (simp only: of_nat_le_iff)
    ultimately show False using Q seq yseq by linarith
  qed
  show thesis using that [OF i j(2) seq _ _ old] Q seq k by simp
qed

lemma trail_prune:
  assumes ok: "trail t h d b" and x: "last_old t cutoff d = Some x"
  shows "trail t h (pruned t (the (ar_seq x)) (ar_entry x) now d) b"
proof -
  have log: "log_ok t h d" and cur: "cursor_ok t h d" and obj: "objects_ok t h d b" using ok by (simp_all add: trail_def)
  obtain i where i: "i < length h" "scan_row t x = h ! i" "the (ar_seq x) = int i + 1"
    "int i + 1 \<le> exported_seq t d" "anchor_seq t d \<le> int i + 1" by (rule last_old_row [OF log cur x])
  let ?d = "pruned t (the (ar_seq x)) (ar_entry x) now d" and ?k = "nat (anchor_seq t d - 1)"
  have h: "linked t 1 chainGenesis h" and k: "1 \<le> anchor_seq t d" and c: "chain_of t d = drop ?k h"
    using log by (simp_all add: log_ok_def)
  have e: "exported_seq t ?d = exported_seq t d" "pending_of t ?d = pending_of t d"
    "anchor_seq t ?d = int i + 2" "anchor_hash t ?d = ar_entry x"
    by (simp_all add: pruned_def exported_seq_def pending_of_def anchor_seq_def anchor_hash_def i(3))
  have "chained t ?d = filter (\<lambda>r. \<not> removable t (the (ar_seq x)) r) (chained t d)"
    by (rule chained_pruned)
  also have "\<dots> = filter (\<lambda>r. int i + 1 < the (ar_seq r)) (chained t d)"
    by (rule filter_cong) (auto simp: removable_def i(3) dest!: chained_tenant)
  finally have "chain_of t ?d = filter (\<lambda>r. int i + 1 < cr_seq r) (chain_of t d)"
    using map_scan_filter [of t "\<lambda>s. int i + 1 < s" d] by (simp add: chain_of_def)
  also have "\<dots> = drop (nat (int i + 1 - (anchor_seq t d - 1))) (chain_of t d)"
    by (rule linked_filter_gt [of t _ "anchor_hash t d"]) (use log_ok_suffix(1) [OF log] in simp)
  also have "\<dots> = drop (Suc i) h"
  proof -
    have "nat (int i + 1 - (anchor_seq t d - 1)) + ?k = Suc i" using k i(5) by simp
    then show ?thesis unfolding c drop_drop by (simp only:)
  qed
  finally have chain: "chain_of t ?d = drop (Suc i) h" .
  have "ar_entry x = end_hash chainGenesis (take (Suc i) h)"
    using i(1,2) cr_entry_scan [of t x] by (simp add: take_Suc_conv_app_nth)
  moreover have "nat (int i + 2 - 1) = Suc i" by simp
  ultimately have "log_ok t h ?d" unfolding log_ok_def e chain using h i(4) by simp
  moreover have "cursor_ok t h ?d" using cur by (simp add: cursor_ok_def e)
  moreover have "objects_ok t h ?d b" using obj by (simp add: objects_ok_def e)
  ultimately show ?thesis by (simp add: trail_def)
qed

lemma trail_prune_other:
  assumes "trail u h d b" "u \<noteq> t" shows "trail u h (pruned t s p now d) b"
proof -
  let ?d = "pruned t s p now d"
  have "chained u ?d = filter (\<lambda>r. \<not> removable t s r) (chained u d)"
    by (rule chained_pruned)
  also have "\<dots> = chained u d"
    by (rule filter_True) (use assms(2) in \<open>auto simp: removable_def dest: chained_tenant\<close>)
  finally have "chain_of u ?d = chain_of u d" by (simp add: chain_of_def)
  moreover have "exported_seq u ?d = exported_seq u d" "pending_of u ?d = pending_of u d"
    "anchor_seq u ?d = anchor_seq u d" "anchor_hash u ?d = anchor_hash u d"
    using assms(2) by (simp_all add: pruned_def exported_seq_def pending_of_def anchor_seq_def anchor_hash_def)
  ultimately show ?thesis using assms(1) by (simp add: trail_def log_ok_def cursor_ok_def objects_ok_def)
qed

lemma prune_step:
  assumes ok: "trails hs w" and run: "PruneTenant months t w = (r, w')"
  shows "trails hs w'"
proof -
  have b: "bucket w' = bucket w" using alongD [OF tables_PruneTenant run] by (simp add: same_objects_def)
  from run show ?thesis
  proof (cases rule: PruneTenant_cases)
    case kept
    then show ?thesis using trails_same [OF ok _ b] by simp
  next
    case (rows x n)
    have "trail u (hs u) (adb w') (bucket w')" for u
      using ok trail_prune [OF _ rows(1)] trail_prune_other [of u] unfolding rows(3) b trails_def by (cases "u = t") auto
    then show ?thesis by (simp add: trails_def)
  qed
qed

end
