(* ===== verification/AuditSystem.thy ===== *)
theory AuditSystem
  imports AuditSteps
begin

text \<open>
  The audit trail as a system: writers, retention and tenant settings act on the tables in one
  transaction each; any number of exporters go through claim, load, put and advance, and may stop
  anywhere. The invariant relates every reachable state to the specification.
\<close>

section \<open>Steps\<close>

datatype exporter =
    Idle
  | Claimed string int int
  | Loaded string int int "exported_record list"
  | Stored string int int

record audit_sys =
  wld :: audit_world
  procs :: "nat \<Rightarrow> exporter"

definition after_claim :: "string \<Rightarrow> audit_err + (int \<times> int) option \<Rightarrow> exporter" where
  "after_claim t r = (case r of Inr (Some (lo, hi)) \<Rightarrow> Claimed t lo hi | _ \<Rightarrow> Idle)"

definition after_load :: "string \<Rightarrow> int \<Rightarrow> int \<Rightarrow> audit_err + exported_record list \<Rightarrow> exporter" where
  "after_load t lo hi r = (case r of Inr records \<Rightarrow> Loaded t lo hi records | Inl _ \<Rightarrow> Idle)"

definition after_put :: "string \<Rightarrow> int \<Rightarrow> int \<Rightarrow> audit_err + unit \<Rightarrow> exporter" where
  "after_put t lo hi r = (case r of Inr _ \<Rightarrow> Stored t lo hi | Inl _ \<Rightarrow> Idle)"

inductive audit_step :: "audit_sys \<Rightarrow> audit_sys \<Rightarrow> bool" where
  insert: "Writer_insert batch (wld s) = (r, w') \<Longrightarrow> audit_step s (s\<lparr>wld := w'\<rparr>)"
| prune: "PruneTenant months t (wld s) = (r, w') \<Longrightarrow> audit_step s (s\<lparr>wld := w'\<rparr>)"
| months: "SetTenantMonths install t m by_whom (wld s) = (r, w') \<Longrightarrow> audit_step s (s\<lparr>wld := w'\<rparr>)"
| claim: "procs s p = Idle \<Longrightarrow> t \<noteq> [] \<Longrightarrow> claimRange n t (wld s) = (r, w') \<Longrightarrow>
    audit_step s (s\<lparr>wld := w', procs := (procs s)(p := after_claim t r)\<rparr>)"
| load: "procs s p = Claimed t lo hi \<Longrightarrow> load_range t lo hi (wld s) = (r, w') \<Longrightarrow>
    audit_step s (s\<lparr>wld := w', procs := (procs s)(p := after_load t lo hi r)\<rparr>)"
| put: "procs s p = Loaded t lo hi records \<Longrightarrow> put_range pol t lo hi records (wld s) = (r, w') \<Longrightarrow>
    audit_step s (s\<lparr>wld := w', procs := (procs s)(p := after_put t lo hi r)\<rparr>)"
| move: "procs s p = Stored t lo hi \<Longrightarrow> aexec (advance t lo hi) (wld s) = (r, w') \<Longrightarrow>
    audit_step s (s\<lparr>wld := w', procs := (procs s)(p := Idle)\<rparr>)"
| crash: "audit_step s (s\<lparr>procs := (procs s)(p := Idle)\<rparr>)"
| environment: "audit_step s (s\<lparr>wld := (wld s)\<lparr>afaults := fs\<rparr>\<rparr>)"

inductive_cases audit_stepE: "audit_step s s'"

definition initial_sys :: "audit_sys \<Rightarrow> bool" where
  "initial_sys s \<longleftrightarrow>
     audit_log (adb (wld s)) = [] \<and> (\<forall>t. anchors (adb (wld s)) t = None) \<and>
     (\<forall>t. cursors (adb (wld s)) t = None) \<and> (\<forall>k. bucket (wld s) k = None) \<and> (\<forall>p. procs s p = Idle)"

definition reachable_sys :: "audit_sys \<Rightarrow> bool" where
  "reachable_sys s \<longleftrightarrow> (\<exists>s0. initial_sys s0 \<and> audit_step\<^sup>*\<^sup>* s0 s)"

section \<open>Claims\<close>

text \<open>A claimed range is the pending one, or it has been exported.\<close>

definition claimed :: "string \<Rightarrow> int \<Rightarrow> int \<Rightarrow> audit_world \<Rightarrow> bool" where
  "claimed t lo hi w \<longleftrightarrow>
     1 \<le> lo \<and> lo \<le> hi \<and>
     (pending_of t (adb w) = Some (lo, hi) \<or>
      bucket w (ExportObjectKey t lo hi) \<noteq> None \<and> hi \<le> exported_seq t (adb w))"

text \<open>What every step keeps of the export.\<close>

definition later :: "audit_world \<Rightarrow> audit_world \<Rightarrow> bool" where
  "later w w' \<longleftrightarrow>
     (\<forall>k. bucket w k \<noteq> None \<longrightarrow> bucket w' k \<noteq> None) \<and>
     (\<forall>t lo hi. claimed t lo hi w \<longrightarrow> claimed t lo hi w')"

fun proc_ok :: "(string \<Rightarrow> chain_row list) \<Rightarrow> audit_world \<Rightarrow> exporter \<Rightarrow> bool" where
  "proc_ok hs w Idle = True"
| "proc_ok hs w (Claimed t lo hi) = claimed t lo hi w"
| "proc_ok hs w (Loaded t lo hi records) \<longleftrightarrow>
     claimed t lo hi w \<and> map er_row records = span_of (hs t) lo hi"
| "proc_ok hs w (Stored t lo hi) \<longleftrightarrow> claimed t lo hi w \<and> bucket w (ExportObjectKey t lo hi) \<noteq> None"

definition sys_ok :: "(string \<Rightarrow> chain_row list) \<Rightarrow> audit_sys \<Rightarrow> bool" where
  "sys_ok hs s \<longleftrightarrow> trails hs (wld s) \<and> (\<forall>p. proc_ok hs (wld s) (procs s p))"

lemma claimed_bound:
  assumes "trails hs w" "claimed t lo hi w" shows "hi \<le> int (length (hs t))"
proof -
  have "cursor_ok t (hs t) (adb w)" using assms(1) by (simp add: trails_def trail_def)
  then show ?thesis using assms(2) by (auto simp: cursor_ok_def claimed_def)
qed

lemma later_refl: "later w w"
  by (simp add: later_def)

lemma later_same_cursors:
  assumes "cursors (adb w') = cursors (adb w)" "bucket w' = bucket w" shows "later w w'"
  using assms by (simp add: later_def claimed_def exported_seq_def pending_of_def)

lemma proc_ok_later:
  assumes "trails hs w" "later w w'" "proc_ok hs w q"
  shows "proc_ok (\<lambda>t. hs t @ ext t) w' q"
  using assms
proof (cases q)
  case (Loaded t lo hi records)
  with assms have c: "claimed t lo hi w" and r: "map er_row records = span_of (hs t) lo hi" by simp_all
  have "span_of (hs t @ ext t) lo hi = span_of (hs t) lo hi"
    using claimed_bound [OF assms(1) c] c by (intro span_append) (simp_all add: claimed_def)
  then show ?thesis using Loaded c r assms(2) by (simp add: later_def)
qed (auto simp: later_def)

text \<open>
  A step that changes one process keeps the invariant if the lists grow, the export goes on, and the
  process is right again.
\<close>

lemma sys_okI:
  assumes ok: "sys_ok hs s" and tr: "trails (\<lambda>t. hs t @ ext t) w'" and lat: "later (wld s) w'"
    and q: "\<And>p. procs s' p = procs s p \<or> proc_ok (\<lambda>t. hs t @ ext t) w' (procs s' p)" and w: "wld s' = w'"
  shows "sys_ok (\<lambda>t. hs t @ ext t) s'"
proof -
  have "proc_ok (\<lambda>t. hs t @ ext t) w' (procs s' p)" for p
    using q [of p] proc_ok_later [OF _ lat, of hs "procs s p" ext] ok by (auto simp: sys_ok_def)
  with tr w show ?thesis by (simp add: sys_ok_def)
qed

lemmas sys_ok_same = sys_okI [where ext = "\<lambda>_. []", simplified]

section \<open>The exporters\<close>

lemma reads_load_range: "reads (load_range t lo hi)"
  unfolding load_range_def readRange_def by (intro reads_rules)

lemma check_records_None:
  "check_records n prev rs = None \<Longrightarrow> i < length rs \<Longrightarrow> cr_seq (er_row (rs ! i)) = n + int i"
proof (induction rs arbitrary: n prev i)
  case (Cons r rs)
  then have r: "cr_seq (er_row r) = n" and rest: "check_records (n + 1) (Some (cr_entry (er_row r))) rs = None"
    by (auto split: if_splits)
  show ?case
  proof (cases i)
    case (Suc j)
    with Cons.IH [OF rest, of j] Cons.prems show ?thesis by simp
  qed (use r in simp)
qed simp

lemma load_range_Inr:
  assumes ok: "trail t h (adb w) b" and c: "1 \<le> lo" "lo \<le> hi" "hi \<le> int (length h)"
    and run: "load_range t lo hi w = (Inr records, w')"
  shows "map er_row records = span_of h lo hi"
proof -
  let ?k = "nat (anchor_seq t (adb w) - 1)"
  from run obtain w1 where q: "aquery (read_range t lo hi) w = (Inr records, w1)"
    and chk: "checkExportRange records lo hi = None"
    by (auto simp: load_range_def readRange_def split: option.splits)
  have rec: "records = read_range t lo hi (adb w)" using aquery_Inr [OF q] by simp
  from chk have len: "int (length records) = hi - lo + 1" and cr: "check_records lo None records = None"
    by (auto simp: checkExportRange_def split: if_splits)
  have h: "linked t 1 chainGenesis h" and ch: "chain_of t (adb w) = drop ?k h"
    using ok by (simp_all add: trail_def log_ok_def)
  have sl: "length (span_of h lo hi) = length records" using c len by (simp add: span_of_def)
  show ?thesis
  proof (rule nth_equalityI)
    fix i assume "i < length (map er_row records)"
    then have i: "i < length records" by simp
    let ?r = "er_row (records ! i)"
    have "?r \<in> er_row ` set records" using i by (intro imageI nth_mem)
    then have "?r \<in> set (chain_of t (adb w))" by (auto simp: rec read_range_def chain_of_def)
    then have "?r \<in> set h" unfolding ch by (rule in_set_dropD)
    then obtain j where j: "j < length h" "h ! j = ?r" by (auto simp: in_set_conv_nth)
    have "1 + int j = lo + int i" using linked_seq [OF h j(1)] check_records_None [OF cr i] j(2) by simp
    then have "j = nat (lo - 1) + i" using c by simp
    then show "map er_row records ! i = span_of h lo hi ! i"
      using i j sl c by (simp add: span_of_def)
  qed (use sl in simp)
qed

lemma tables_claimRange: "along same_objects (claimRange n t)"
  unfolding claimRange_def claimRange_tx_def
  by (intro tables.along_rules tables_atx tables_aexec reads_tables [OF reads_aquery])

text \<open>The next range starts right after the exported positions.\<close>

lemma unexported_rows:
  assumes ok: "trail t h d b"
  shows "map (scan_row t) (filter (\<lambda>r. exported_seq t d < the (ar_seq r)) (chained t d)) = drop (nat (exported_seq t d)) h"
proof -
  let ?e = "exported_seq t d" and ?k = "nat (anchor_seq t d - 1)"
  have ch: "chain_of t d = drop ?k h" and k: "1 \<le> anchor_seq t d"
    and ke: "anchor_seq t d - 1 \<le> ?e" and log: "log_ok t h d"
    using ok by (simp_all add: trail_def log_ok_def)
  have "map (scan_row t) (filter (\<lambda>r. ?e < the (ar_seq r)) (chained t d)) = filter (\<lambda>r. ?e < cr_seq r) (chain_of t d)"
    by (rule map_scan_filter)
  also have "\<dots> = drop (nat (?e - (anchor_seq t d - 1))) (chain_of t d)"
    by (rule linked_filter_gt [of t _ "anchor_hash t d"]) (use log_ok_suffix(1) [OF log] in simp)
  also have "\<dots> = drop (nat ?e) h"
  proof -
    have "nat (?e - (anchor_seq t d - 1)) + ?k = nat ?e" using k ke by simp
    then show ?thesis unfolding ch drop_drop by (simp only:)
  qed
  finally show ?thesis .
qed

lemma next_range_Some:
  assumes ok: "trail t h d b" and nr: "next_range t (exported_seq t d) n d = Some (lo, hi)"
  shows "lo = exported_seq t d + 1 \<and> lo \<le> hi \<and> hi \<le> int (length h)"
proof -
  let ?e = "exported_seq t d"
  let ?xs = "filter (\<lambda>r. ?e < the (ar_seq r)) (chained t d)"
  have h: "linked t 1 chainGenesis h" using ok by (simp add: trail_def log_ok_def)
  note xs = unexported_rows [OF ok]
  from nr obtain r rs where take: "take n ?xs = r # rs" and lohi: "lo = the (ar_seq r)" "hi = the (ar_seq (last (r # rs)))"
    by (auto simp: next_range_def split: list.splits)
  let ?zs = "take n (drop (nat ?e) h)"
  have zs: "map (scan_row t) (r # rs) = ?zs" using arg_cong [OF xs, of "take n"] take by (simp add: take_map)
  then have ne: "?zs \<noteq> []" by (metis list.distinct(1) list.map(2))
  have e0: "0 \<le> ?e" using ok by (simp add: trail_def log_ok_def)
  have seq: "cr_seq (?zs ! i) = ?e + 1 + int i" if "i < length ?zs" for i
  proof -
    have lt: "nat ?e + i < length h" "i < n" using that by auto
    then have "?zs ! i = h ! (nat ?e + i)" by simp
    then show ?thesis using linked_seq [OF h lt(1)] e0 by simp
  qed
  have "lo = cr_seq (hd ?zs)" using zs [symmetric] lohi(1) by simp
  also have "\<dots> = ?e + 1" using seq [of 0] ne by (simp add: hd_conv_nth)
  finally have lo: "lo = ?e + 1" .
  have "hi = cr_seq (last (map (scan_row t) (r # rs)))" unfolding lohi(2) by (subst last_map) simp_all
  also have "\<dots> = cr_seq (?zs ! (length ?zs - 1))" unfolding zs by (rule arg_cong [OF last_conv_nth [OF ne]])
  also have "\<dots> = ?e + 1 + int (length ?zs - 1)" by (rule seq) (use ne in auto)
  finally have hi: "hi = ?e + 1 + int (length ?zs - 1)" .
  have "0 < length ?zs" "nat ?e + length ?zs \<le> length h" using ne by auto
  then have "hi \<le> int (length h)" using hi e0 by linarith
  with lo hi show ?thesis by simp
qed

text \<open>Claiming keeps the lists, and leaves a pending range.\<close>

lemma trail_cursor:
  assumes "trail t h d b" "exported_seq t d' = exported_seq t d" "anchors d' = anchors d" "audit_log d' = audit_log d"
    "cursor_ok t h d'" "pending_of t d = None \<or> pending_of t d' = pending_of t d"
  shows "trail t h d' b"
proof -
  have "anchor_seq t d' = anchor_seq t d" "anchor_hash t d' = anchor_hash t d" "chain_of t d' = chain_of t d"
    using assms(3,4) by (simp_all add: anchor_seq_def anchor_hash_def chain_of_def chained_def)
  then have "log_ok t h d'" using assms(1,2) by (simp add: trail_def log_ok_def)
  moreover have "objects_ok t h d' b"
    using assms(1,6) unfolding trail_def objects_ok_def assms(2) by (metis option.distinct(1))
  ultimately show ?thesis using assms(5) by (simp add: trail_def)
qed

lemma create_cursor_Some:
  assumes "create_cursor t d = Some ((), d')"
  shows "\<exists>c. cursors d' t = Some c \<and> ec_exported c = exported_seq t d \<and> ec_pending c = pending_of t d"
    "audit_log d' = audit_log d" "anchors d' = anchors d" "\<And>u. u \<noteq> t \<Longrightarrow> cursors d' u = cursors d u"
    "exported_seq u d' = exported_seq u d" "pending_of u d' = pending_of u d"
  using assms by (auto simp: create_cursor_def new_cursor_def exported_seq_def pending_of_def split: if_splits option.splits)

lemma not_Some_pair: "(\<forall>a b. x \<noteq> Some (a, b)) \<longleftrightarrow> x = None"
  by (cases x) auto

lemma claimRange_cases:
  assumes run: "claimRange n t w = (r, w')"
  obtains (unchanged) "adb w' = adb w" "\<And>lo hi. r = Inr (Some (lo, hi)) \<Longrightarrow> pending_of t (adb w) = Some (lo, hi)"
     "r = Inr None \<Longrightarrow> pending_of t (adb w) = None \<and> next_range t (exported_seq t (adb w)) n (adb w) = None"
  | (range) lo hi where "pending_of t (adb w) = None" "next_range t (exported_seq t (adb w)) n (adb w) = Some (lo, hi)"
     "r = Inr (Some (lo, hi)) \<or> r = Inl AuditDB"
     "audit_log (adb w') = audit_log (adb w)" "anchors (adb w') = anchors (adb w)"
     "\<And>u. exported_seq u (adb w') = exported_seq u (adb w)"
     "\<And>u. u \<noteq> t \<Longrightarrow> pending_of u (adb w') = pending_of u (adb w)" "pending_of t (adb w') = Some (lo, hi)"
proof -
  have body: "\<exists>d1 c w3. create_cursor t (adb w1) = Some ((), d1) \<and> cursors d1 t = Some c \<and> adb w3 = d1 \<and>
      (case ec_pending c of Some rng \<Rightarrow> ret (Some rng, False)
       | None \<Rightarrow> bnd (aquery (next_range t (ec_exported c) n)) (\<lambda>rng.
           case rng of None \<Rightarrow> ret (None, False)
           | Some rng \<Rightarrow> bnd (aexec (set_pending t rng)) (\<lambda>_. ret (Some rng, True)))) w3 = (Inr y, w2)"
    if "claimRange_tx n t w1 = (Inr y, w2)" for w1 y w2
  proof -
    from that obtain w3 co w4 c where e: "aexec (create_cursor t) w1 = (Inr (), w3)"
      and q: "aquery (\<lambda>d. cursors d t) w3 = (Inr co, w4)" and co: "co = Some c"
      and rest: "(case ec_pending c of Some rng \<Rightarrow> ret (Some rng, False)
       | None \<Rightarrow> bnd (aquery (next_range t (ec_exported c) n)) (\<lambda>rng.
           case rng of None \<Rightarrow> ret (None, False)
           | Some rng \<Rightarrow> bnd (aexec (set_pending t rng)) (\<lambda>_. ret (Some rng, True)))) w4 = (Inr y, w2)"
      by (auto simp: claimRange_tx_def)
    show ?thesis
      by (rule exI [of _ "adb w3"], rule exI [of _ c], rule exI [of _ w4])
        (use aexec_Inr [OF e] aquery_Inr [OF q] co in \<open>simp add: same_data_def rest\<close>)
  qed
  from run have "atx (claimRange_tx n t) w = (r, w')" by (simp add: claimRange_def)
  then show thesis
  proof (cases rule: atx_cases)
    case 1
    have "pending_of t (adb w) = Some (lo, hi)" if r: "r = Inr (Some (lo, hi))" for lo hi
    proof -
      from 1(2) [OF r] obtain w1 w2 where same: "same_data w w1" and b: "claimRange_tx n t w1 = (Inr (Some (lo, hi), False), w2)" by blast
      from body [OF b] obtain d1 c w3 where d1: "create_cursor t (adb w1) = Some ((), d1)" "cursors d1 t = Some c"
        and "ec_pending c = Some (lo, hi)" by (auto split: option.splits)
      with create_cursor_Some(1) [OF d1(1)] same show ?thesis by (auto simp: same_data_def)
    qed
    moreover have "pending_of t (adb w) = None \<and> next_range t (exported_seq t (adb w)) n (adb w) = None" if r: "r = Inr None"
    proof -
      from 1(2) [OF r] obtain w1 w2 where same: "same_data w w1" and b: "claimRange_tx n t w1 = (Inr (None, False), w2)" by blast
      from body [OF b] obtain d1 c w3 rng w4 where d1: "create_cursor t (adb w1) = Some ((), d1)" "cursors d1 t = Some c" "adb w3 = d1"
        and p: "ec_pending c = None" and q: "aquery (next_range t (ec_exported c) n) w3 = (Inr rng, w4)" and "rng = None"
        by (auto simp: not_Some_pair split: option.splits)
      moreover have "next_range t (ec_exported c) n d1 = next_range t (ec_exported c) n (adb w1)"
        using create_cursor_Some(2) [OF d1(1)] by (simp add: next_range_def chained_def)
      ultimately show ?thesis using create_cursor_Some(1) [OF d1(1)] aquery_Inr [OF q] same by (auto simp: same_data_def)
    qed
    ultimately show ?thesis using unchanged 1(1) by blast
  next
    case (2 w1 y w2)
    from body [OF 2(2)] obtain d1 c w3 rng w4 where d1: "create_cursor t (adb w1) = Some ((), d1)" "cursors d1 t = Some c" "adb w3 = d1"
      and p: "ec_pending c = None" and q: "aquery (next_range t (ec_exported c) n) w3 = (Inr (Some rng), w4)"
      and e: "aexec (set_pending t rng) w4 = (Inr (), w2)" and y: "y = Some rng"
      by (auto simp: not_Some_pair split: option.splits)
    have w1: "adb w1 = adb w" using 2(1) by (simp add: same_data_def)
    have c: "ec_exported c = exported_seq t (adb w)" "pending_of t (adb w) = None"
      using create_cursor_Some(1) [OF d1(1)] d1(2) p w1 by auto
    have d4: "adb w4 = d1" "next_range t (ec_exported c) n d1 = Some rng"
      using aquery_Inr [OF q] d1(3) by (simp_all add: same_data_def)
    obtain lo hi where rng: "rng = (lo, hi)" by force
    have "next_range t (exported_seq t (adb w)) n (adb w) = Some (lo, hi)"
      using d4(2) c(1) create_cursor_Some(2) [OF d1(1)] w1 rng by (simp add: next_range_def chained_def)
    moreover have "adb w' = d1\<lparr>cursors := (cursors d1)(t := Some (c\<lparr>ec_pending := Some (lo, hi)\<rparr>))\<rparr>"
      using aexec_Inr [OF e] d4(1) 2(3) d1(2) rng by (auto simp: set_pending_def split: if_splits)
    moreover note create_cursor_Some [OF d1(1)]
    ultimately show ?thesis using range [of lo hi] c 2(4) y rng w1 d1(2)
      by (auto simp: exported_seq_def pending_of_def)
  qed
qed

lemma claim_step:
  assumes ok: "trails hs w" and run: "claimRange n t w = (r, w')"
  shows "trails hs w' \<and> later w w' \<and> proc_ok hs w' (after_claim t r)"
proof -
  have b: "bucket w' = bucket w" using alongD [OF tables_claimRange run] by (simp add: same_objects_def)
  have tr: "trail u (hs u) (adb w) (bucket w)" for u using ok by (simp add: trails_def)
  from run show ?thesis
  proof (cases rule: claimRange_cases)
    case unchanged
    have "claimed t lo hi w" if "r = Inr (Some (lo, hi))" for lo hi
    proof -
      have p: "pending_of t (adb w) = Some (lo, hi)" by (rule unchanged(2) [OF that])
      with tr [of t] have "lo = exported_seq t (adb w) + 1 \<and> lo \<le> hi" by (simp add: trail_def cursor_ok_def)
      moreover have "0 \<le> exported_seq t (adb w)" using tr [of t] by (simp add: trail_def log_ok_def)
      ultimately show ?thesis using p by (simp add: claimed_def)
    qed
    moreover have "later w w'" by (rule later_same_cursors) (simp_all add: unchanged(1) b)
    ultimately have "proc_ok hs w' (after_claim t r)"
      by (auto simp: after_claim_def later_def split: sum.splits option.splits)
    with \<open>later w w'\<close> show ?thesis using trails_same [OF ok unchanged(1) b] by simp
  next
    case (range lo hi)
    have nr: "lo = exported_seq t (adb w) + 1 \<and> lo \<le> hi \<and> hi \<le> int (length (hs t))"
      by (rule next_range_Some [OF tr range(2)])
    have e0: "0 \<le> exported_seq t (adb w)" using tr [of t] by (simp add: trail_def log_ok_def)
    have "trail u (hs u) (adb w') (bucket w')" for u
    proof (cases "u = t")
      case True
      show ?thesis unfolding b True
        by (rule trail_cursor [OF tr]) (use range nr tr [of t] in \<open>auto simp: trail_def cursor_ok_def\<close>)
    next
      case False
      show ?thesis unfolding b
        by (rule trail_cursor [OF tr]) (use range(4-7) False tr [of u] in \<open>auto simp: trail_def cursor_ok_def\<close>)
    qed
    then have "trails hs w'" by (simp add: trails_def)
    moreover have "later w w'"
      using range(1,6-8) b unfolding later_def claimed_def by (metis option.distinct(1))
    moreover have "claimed t lo hi w'" using range(8) nr e0 by (simp add: claimed_def)
    then have "proc_ok hs w' (after_claim t r)" using range(3) by (auto simp: after_claim_def)
    ultimately show ?thesis by simp
  qed
qed

lemma load_step:
  assumes ok: "trails hs w" and c: "claimed t lo hi w" and run: "load_range t lo hi w = (r, w')"
  shows "trails hs w' \<and> later w w' \<and> proc_ok hs w' (after_load t lo hi r)"
proof -
  have same: "adb w' = adb w" "bucket w' = bucket w" using alongD [OF reads_load_range run] by (simp_all add: same_data_def)
  have lat: "later w w'" by (rule later_same_cursors) (simp_all add: same)
  have "map er_row records = span_of (hs t) lo hi" if "r = Inr records" for records
    by (rule load_range_Inr [OF ok [unfolded trails_def, rule_format] _ _ claimed_bound [OF ok c] run [unfolded that]])
      (use c in \<open>simp_all add: claimed_def\<close>)
  with lat c have "proc_ok hs w' (after_load t lo hi r)"
    by (auto simp: after_load_def later_def split: sum.splits)
  with lat show ?thesis using trails_same [OF ok same] by simp
qed

text \<open>A put writes the same slice again, or the pending one for the first time.\<close>

lemma trail_put:
  assumes ok: "trail t h d b" and c: "1 \<le> lo" "lo \<le> hi" "pending_of t d = Some (lo, hi) \<or> b (ExportObjectKey t lo hi) \<noteq> None"
    and rec: "map er_row (so_records obj) = span_of h lo hi"
  shows "trail t h d (b(ExportObjectKey t lo hi := Some obj))"
proof -
  let ?b = "b(ExportObjectKey t lo hi := Some obj)"
  from ok obtain rs where rs: "consecutive 0 rs (exported_seq t d)"
    "\<forall>(lo, hi) \<in> set rs. b (ExportObjectKey t lo hi) \<noteq> None"
    and objs: "\<And>lo hi obj. 0 \<le> lo \<Longrightarrow> 0 \<le> hi \<Longrightarrow> b (ExportObjectKey t lo hi) = Some obj \<Longrightarrow>
       ((lo, hi) \<in> set rs \<or> pending_of t d = Some (lo, hi)) \<and> map er_row (so_records obj) = span_of h lo hi"
    by (auto simp: trail_def objects_ok_def)
  have "((lo', hi') \<in> set rs \<or> pending_of t d = Some (lo', hi')) \<and> map er_row (so_records o') = span_of h lo' hi'"
    if p: "0 \<le> lo'" "0 \<le> hi'" and o': "?b (ExportObjectKey t lo' hi') = Some o'" for lo' hi' o'
  proof (cases "ExportObjectKey t lo' hi' = ExportObjectKey t lo hi")
    case True
    with ExportObjectKey_inj [OF p _ _ this] c have eq: "lo' = lo" "hi' = hi" by simp_all
    have "(lo, hi) \<in> set rs \<or> pending_of t d = Some (lo, hi)" using c objs [of lo hi] by auto
    then show ?thesis using eq o' rec by auto
  next
    case False
    with o' show ?thesis using objs [OF p, of o'] by simp
  qed
  moreover have "\<forall>(lo, hi) \<in> set rs. ?b (ExportObjectKey t lo hi) \<noteq> None" using rs(2) by auto
  ultimately have "objects_ok t h d ?b" unfolding objects_ok_def using rs(1) by blast
  then show ?thesis using ok by (simp add: trail_def)
qed

lemma trail_put_other:
  assumes ok: "trail u h d b" "u \<noteq> t" "0 \<le> lo" "0 \<le> hi"
  shows "trail u h d (b(ExportObjectKey t lo hi := Some obj))"
proof -
  have "(b(ExportObjectKey t lo hi := Some obj)) (ExportObjectKey u lo' hi') = b (ExportObjectKey u lo' hi')"
    if "0 \<le> lo'" "0 \<le> hi'" for lo' hi'
    using ExportObjectKey_inj [OF that assms(3,4), of u t] assms(2) by auto
  moreover have "0 \<le> lo' \<and> 0 \<le> hi'" if "consecutive 0 rs n" "(lo', hi') \<in> set rs" for rs n lo' hi'
    using consecutive_bound [OF that(1)] that(2) by auto
  moreover from ok(1) obtain rs where rs: "consecutive 0 rs (exported_seq u d)"
    "\<forall>(lo, hi) \<in> set rs. b (ExportObjectKey u lo hi) \<noteq> None"
    and objs: "\<And>lo hi obj. 0 \<le> lo \<Longrightarrow> 0 \<le> hi \<Longrightarrow> b (ExportObjectKey u lo hi) = Some obj \<Longrightarrow>
       ((lo, hi) \<in> set rs \<or> pending_of u d = Some (lo, hi)) \<and> map er_row (so_records obj) = span_of h lo hi"
    by (auto simp: trail_def objects_ok_def)
  ultimately have "objects_ok u h d (b(ExportObjectKey t lo hi := Some obj))"
    unfolding objects_ok_def by (intro exI [of _ rs]) fastforce
  then show ?thesis using ok(1) by (simp add: trail_def)
qed

lemma put_range_cases:
  assumes "put_range pol t lo hi records w = (r, w')"
  obtains (failed) "same_data w w'" "r = Inl AuditStore"
  | (stored) obj where "adb w' = adb w" "bucket w' = (bucket w)(ExportObjectKey t lo hi := Some obj)" "so_records obj = records"
      "so_mode obj = ep_mode pol"
proof -
  from assms obtain now w1 where clk: "aclock w = (Inr now, w1)"
    and put: "PutLocked (ExportObjectKey t lo hi)
       \<lparr>so_records = records, so_mode = ep_mode pol, so_retain_until = now + ep_days pol * day_ns\<rparr> w1 = (r, w')"
    by (auto simp: put_range_def bnd_def aclock_def)
  have w1: "adb w1 = adb w" "bucket w1 = bucket w" "anow w1 = anow w" using alongD [OF reads_aclock clk] by (simp_all add: same_data_def)
  show thesis
  proof (cases "next_fault (afaults w1) = Fails")
    case True
    with put w1 show ?thesis by (intro failed) (auto simp: PutLocked_def atake_def same_data_def)
  next
    case False
    with put w1 show ?thesis
      by (intro stored [of "\<lparr>so_records = records, so_mode = ep_mode pol, so_retain_until = now + ep_days pol * day_ns\<rparr>"])
        (auto simp: PutLocked_def atake_def split: fault.splits)
  qed
qed

lemma put_step:
  assumes ok: "trails hs w" and c: "claimed t lo hi w" and rec: "map er_row records = span_of (hs t) lo hi"
    and run: "put_range pol t lo hi records w = (r, w')"
  shows "trails hs w' \<and> later w w' \<and> proc_ok hs w' (after_put t lo hi r)"
  using run
proof (cases rule: put_range_cases)
  case failed
  then show ?thesis using trails_same [OF ok] later_same_cursors [of w' w] by (simp add: same_data_def after_put_def)
next
  case (stored obj)
  have b: "1 \<le> lo" "lo \<le> hi" "pending_of t (adb w) = Some (lo, hi) \<or> bucket w (ExportObjectKey t lo hi) \<noteq> None"
    using c by (auto simp: claimed_def)
  have "trail u (hs u) (adb w') (bucket w')" for u
  proof (cases "u = t")
    case True
    show ?thesis unfolding stored(1,2) True
      by (rule trail_put [OF ok [unfolded trails_def, rule_format] b]) (simp add: stored(3) rec)
  next
    case False
    show ?thesis unfolding stored(1,2)
      by (rule trail_put_other [OF ok [unfolded trails_def, rule_format] False]) (use b in simp_all)
  qed
  then have "trails hs w'" by (simp add: trails_def)
  moreover have lat: "later w w'" by (auto simp: later_def claimed_def stored(1,2))
  moreover have "proc_ok hs w' (after_put t lo hi r)"
    using lat c by (auto simp: after_put_def later_def stored(2) split: sum.splits)
  ultimately show ?thesis by simp
qed

text \<open>The cursor moves over the pending range only when its object is there.\<close>

lemma consecutive_append: "consecutive m rs n \<Longrightarrow> n + 1 \<le> k \<Longrightarrow> consecutive m (rs @ [(n + 1, k)]) k"
  by (induction rs arbitrary: m) auto

lemma trail_advance:
  assumes ok: "trail t h d b" and p: "pending_of t d = Some (lo, hi)" and o': "b (ExportObjectKey t lo hi) \<noteq> None"
  shows "trail t h (d\<lparr>cursors := (cursors d)(t := Some \<lparr>ec_exported = hi, ec_pending = None\<rparr>)\<rparr>) b"
proof -
  let ?d = "d\<lparr>cursors := (cursors d)(t := Some \<lparr>ec_exported = hi, ec_pending = None\<rparr>)\<rparr>"
  have e: "exported_seq t ?d = hi" "pending_of t ?d = None" "anchor_seq t ?d = anchor_seq t d"
    "anchor_hash t ?d = anchor_hash t d" "chain_of t ?d = chain_of t d"
    by (simp_all add: exported_seq_def pending_of_def anchor_seq_def anchor_hash_def chain_of_def chained_def)
  have cur: "lo = exported_seq t d + 1" "lo \<le> hi" "hi \<le> int (length h)"
    using ok p by (auto simp: trail_def cursor_ok_def)
  from ok obtain rs where rs: "consecutive 0 rs (exported_seq t d)"
    "\<forall>(lo, hi) \<in> set rs. b (ExportObjectKey t lo hi) \<noteq> None"
    and objs: "\<And>lo hi obj. 0 \<le> lo \<Longrightarrow> 0 \<le> hi \<Longrightarrow> b (ExportObjectKey t lo hi) = Some obj \<Longrightarrow>
       ((lo, hi) \<in> set rs \<or> pending_of t d = Some (lo, hi)) \<and> map er_row (so_records obj) = span_of h lo hi"
    by (auto simp: trail_def objects_ok_def)
  have "consecutive 0 (rs @ [(lo, hi)]) hi" using consecutive_append [OF rs(1), of hi] cur by simp
  moreover have "\<forall>(lo, hi) \<in> set (rs @ [(lo, hi)]). b (ExportObjectKey t lo hi) \<noteq> None" using rs(2) o' by auto
  moreover have "((lo', hi') \<in> set (rs @ [(lo, hi)]) \<or> None = Some (lo', hi')) \<and> map er_row (so_records obj) = span_of h lo' hi'"
    if "0 \<le> lo'" "0 \<le> hi'" "b (ExportObjectKey t lo' hi') = Some obj" for lo' hi' obj
    using objs [OF that] p by auto
  ultimately have "objects_ok t h ?d b" unfolding objects_ok_def e by blast
  moreover have "log_ok t h ?d" using ok cur by (simp add: trail_def log_ok_def e)
  moreover have "cursor_ok t h ?d" using cur by (simp add: cursor_ok_def e)
  ultimately show ?thesis by (simp add: trail_def)
qed

lemma advance_cases:
  assumes "aexec (advance t lo hi) w = (r, w')"
  obtains (kept) "adb w' = adb w"
  | (moved) "pending_of t (adb w) = Some (lo, hi)"
      "adb w' = (adb w)\<lparr>cursors := (cursors (adb w))(t := Some \<lparr>ec_exported = hi, ec_pending = None\<rparr>)\<rparr>"
  using assms
  by (auto simp: aexec_def atake_def advance_def pending_of_def split: fault.splits option.splits if_splits)

lemma move_step:
  assumes ok: "trails hs w" and c: "claimed t lo hi w" and o': "bucket w (ExportObjectKey t lo hi) \<noteq> None"
    and run: "aexec (advance t lo hi) w = (r, w')"
  shows "trails hs w' \<and> later w w'"
proof -
  have b: "bucket w' = bucket w" using alongD [OF tables_aexec run] by (simp add: same_objects_def)
  from run show ?thesis
  proof (cases rule: advance_cases)
    case kept
    then show ?thesis using trails_same [OF ok kept b] later_same_cursors [of w' w] b by simp
  next
    case moved
    have tr: "trail u (hs u) (adb w) (bucket w)" for u using ok by (simp add: trails_def)
    have "trail u (hs u) (adb w') (bucket w')" for u
    proof (cases "u = t")
      case True
      show ?thesis unfolding moved(2) b True by (rule trail_advance [OF tr moved(1) o'])
    next
      case False
      then have "exported_seq u (adb w') = exported_seq u (adb w)" "pending_of u (adb w') = pending_of u (adb w)"
        by (simp_all add: moved(2) exported_seq_def pending_of_def)
      then show ?thesis unfolding b
        by (intro trail_cursor [OF tr]) (use tr [of u] in \<open>auto simp: moved(2) trail_def cursor_ok_def\<close>)
    qed
    moreover have "later w w'"
    proof -
      have e: "lo = exported_seq t (adb w) + 1" "lo \<le> hi" using tr [of t] moved(1) by (auto simp: trail_def cursor_ok_def)
      have "claimed u lo' hi' w'" if "claimed u lo' hi' w" for u lo' hi'
      proof (cases "u = t")
        case True
        with that moved(1) o' e show ?thesis
          by (auto simp: claimed_def b moved(2) exported_seq_def pending_of_def split: option.splits)
      next
        case False
        with that show ?thesis by (simp add: claimed_def b moved(2) exported_seq_def pending_of_def)
      qed
      then show ?thesis by (simp add: later_def b)
    qed
    ultimately show ?thesis by (simp add: trails_def)
  qed
qed

section \<open>Every step\<close>

lemma SetTenantMonths_keeps:
  assumes "SetTenantMonths install t m who w = (r, w')"
  shows "audit_log (adb w') = audit_log (adb w)" "anchors (adb w') = anchors (adb w)"
    "cursors (adb w') = cursors (adb w)" "bucket w' = bucket w"
  using assms
  by (auto simp: SetTenantMonths_def aexec_def atake_def upsert_months_def split: fault.splits option.splits if_splits)

lemma trails_tables:
  assumes "trails hs w" "audit_log (adb w') = audit_log (adb w)" "anchors (adb w') = anchors (adb w)"
    "cursors (adb w') = cursors (adb w)" "bucket w' = bucket w"
  shows "trails hs w'"
  using assms unfolding trails_def trail_def log_ok_def cursor_ok_def objects_ok_def
  by (simp add: exported_seq_def pending_of_def anchor_seq_def anchor_hash_def chain_of_def chained_def)

lemma initial_ok: "initial_sys s \<Longrightarrow> sys_ok (\<lambda>_. []) s"
  by (auto simp: initial_sys_def sys_ok_def trails_def trail_def log_ok_def cursor_ok_def objects_ok_def
      exported_seq_def pending_of_def anchor_seq_def anchor_hash_def chain_of_def chained_def intro: exI [of _ "[]"])

text \<open>The lists only grow, and only by a write.\<close>

lemma insert_cursors:
  assumes "Writer_insert batch w = (r, w')" shows "cursors (adb w') = cursors (adb w)"
proof (cases "batch = []")
  case False
  with assms have "atx (Writer_insert_tx batch) w = (r, w')" by (simp add: Writer_insert_def)
  then show ?thesis
  proof (cases rule: atx_cases)
    case (2 w1 x w2)
    from 2(2) obtain now w3 rows w4 where clk: "aclock w1 = (Inr now, w3)"
      and rows: "chain_tenants batch (now div 1000) (batch_tenants batch) w3 = (Inr rows, w4)"
      and ins: "aexec (insert_rows rows) w4 = (Inr x, w2)" by (auto simp: Writer_insert_tx_def)
    have "adb w4 = adb w" using alongD [OF reads_aclock clk] alongD [OF reads_chain_tenants rows] 2(1)
      by (simp add: same_data_def)
    moreover have "cursors d' = cursors d" if "insert_rows rows d = Some (i, d')" for d d' i
      using that by (auto simp: insert_rows_def split: if_splits)
    ultimately show ?thesis using aexec_Inr [OF ins] 2(3) by metis
  qed simp
qed (use assms in \<open>simp add: Writer_insert_def\<close>)

lemma insert_ok:
  assumes ok: "sys_ok hs s" and run: "Writer_insert batch (wld s) = (r, w')"
  shows "sys_ok hs (s\<lparr>wld := w'\<rparr>) \<and> (\<forall>x. r = Inr x \<longrightarrow> batch = []) \<or>
    (\<exists>c. sys_ok (\<lambda>t. hs t @ written batch c (hs t) t) (s\<lparr>wld := w'\<rparr>))"
proof -
  have tr: "trails hs (wld s)" using ok by (simp add: sys_ok_def)
  have b: "bucket w' = bucket (wld s)" using alongD [OF tables_insert run] by (simp add: same_objects_def)
  have lat: "later (wld s) w'" by (rule later_same_cursors [OF insert_cursors [OF run] b])
  from insert_step [OF tr run] show ?thesis
  proof (elim disjE conjE exE)
    assume "trails hs w'" "\<forall>x. r = Inr x \<longrightarrow> batch = []"
    then show ?thesis using sys_ok_same [OF ok _ lat, of "s\<lparr>wld := w'\<rparr>"] by simp
  next
    fix c assume "trails (\<lambda>t. hs t @ written batch c (hs t) t) w'"
    then have "sys_ok (\<lambda>t. hs t @ written batch c (hs t) t) (s\<lparr>wld := w'\<rparr>)"
      by (intro sys_okI [OF ok _ lat]) simp_all
    then show ?thesis by blast
  qed
qed

lemma prune_cursors:
  assumes "PruneTenant months t w = (r, w')" shows "cursors (adb w') = cursors (adb w)"
  using assms by (cases rule: PruneTenant_cases) (simp_all add: pruned_def)

lemma step_ok:
  assumes "audit_step s s'" "sys_ok hs s"
  shows "\<exists>ext. sys_ok (\<lambda>t. hs t @ ext t) s'"
proof -
  have ok: "trails hs (wld s)" and pr: "proc_ok hs (wld s) (procs s p)" for p using assms(2) by (simp_all add: sys_ok_def)
  have here: ?thesis if "sys_ok hs s'" using that by (intro exI [of _ "\<lambda>_. []"]) simp
  from assms(1) show ?thesis
  proof (cases rule: audit_step.cases)
    case (insert batch r w')
    from insert_ok [OF assms(2) insert(2)] show ?thesis
    proof (elim disjE conjE exE)
      fix c assume "sys_ok (\<lambda>t. hs t @ written batch c (hs t) t) (s\<lparr>wld := w'\<rparr>)"
      then show ?thesis unfolding insert(1) by (intro exI [of _ "\<lambda>t. written batch c (hs t) t"])
    qed (use here insert(1) in simp)
  next
    case (prune months t r w')
    have b: "bucket w' = bucket (wld s)" using alongD [OF tables_PruneTenant prune(2)] by (simp add: same_objects_def)
    show ?thesis
      by (rule here, rule sys_ok_same [OF assms(2) prune_step [OF ok prune(2)] later_same_cursors [OF prune_cursors [OF prune(2)] b]])
        (simp_all add: prune(1))
  next
    case (months install t m who r w')
    note k = SetTenantMonths_keeps [OF months(2)]
    show ?thesis
      by (rule here, rule sys_ok_same [OF assms(2) trails_tables [OF ok k] later_same_cursors [OF k(3,4)]])
        (simp_all add: months(1))
  next
    case (claim p t n r w')
    have "trails hs w'" "later (wld s) w'" "proc_ok hs w' (after_claim t r)" using claim_step [OF ok claim(4)] by simp_all
    then show ?thesis by (intro here sys_ok_same [OF assms(2)]) (simp_all add: claim(1))
  next
    case (load p t lo hi r w')
    have "claimed t lo hi (wld s)" using pr [of p] load(2) by simp
    from load_step [OF ok this load(3)] show ?thesis
      by (intro here sys_ok_same [OF assms(2)]) (simp_all add: load(1))
  next
    case (put p t lo hi records pol r w')
    have "claimed t lo hi (wld s)" "map er_row records = span_of (hs t) lo hi" using pr [of p] put(2) by simp_all
    from put_step [OF ok this put(3)] show ?thesis
      by (intro here sys_ok_same [OF assms(2)]) (simp_all add: put(1))
  next
    case (move p t lo hi r w')
    have "claimed t lo hi (wld s)" "bucket (wld s) (ExportObjectKey t lo hi) \<noteq> None" using pr [of p] move(2) by simp_all
    from move_step [OF ok this move(3)] show ?thesis
      by (intro here sys_ok_same [OF assms(2)]) (simp_all add: move(1))
  next
    case (crash p)
    show ?thesis
      by (rule here, rule sys_ok_same [OF assms(2) ok later_refl]) (simp_all add: crash)
  next
    case (environment fs)
    have "trails hs ((wld s)\<lparr>afaults := fs\<rparr>)" by (rule trails_same [OF ok]) simp_all
    moreover have "later (wld s) ((wld s)\<lparr>afaults := fs\<rparr>)" by (rule later_same_cursors) simp_all
    ultimately show ?thesis by (intro here sys_ok_same [OF assms(2)]) (simp_all add: environment)
  qed
qed

lemma steps_ok:
  assumes "audit_step\<^sup>*\<^sup>* s s'" "sys_ok hs s"
  shows "\<exists>ext. sys_ok (\<lambda>t. hs t @ ext t) s'"
  using assms
proof (induction rule: rtranclp_induct)
  case base
  then show ?case by (intro exI [of _ "\<lambda>_. []"]) simp
next
  case (step s1 s2)
  then obtain ext where "sys_ok (\<lambda>t. hs t @ ext t) s1" by blast
  from step_ok [OF step.hyps(2) this] obtain ext' where "sys_ok (\<lambda>t. (hs t @ ext t) @ ext' t) s2" by blast
  then show ?case by (intro exI [of _ "\<lambda>t. ext t @ ext' t"]) simp
qed

lemma reachable_ok: "reachable_sys s \<Longrightarrow> \<exists>hs. sys_ok hs s"
  unfolding reachable_sys_def using steps_ok [OF _ initial_ok] by blast

section \<open>Where a record is\<close>

text \<open>A position below the cursor is in one of the ranges.\<close>

lemma consecutive_covers:
  "consecutive m rs n \<Longrightarrow> m < q \<Longrightarrow> q \<le> n \<Longrightarrow> \<exists>(lo, hi) \<in> set rs. lo \<le> q \<and> q \<le> hi"
proof (induction rs arbitrary: m)
  case (Cons r rs)
  obtain lo hi where r: "r = (lo, hi)" by force
  show ?case
  proof (cases "q \<le> hi")
    case True
    with Cons.prems r show ?thesis by auto
  next
    case False
    with Cons.prems r have "\<exists>(lo, hi) \<in> set rs. lo \<le> q \<and> q \<le> hi" by (intro Cons.IH [of hi]) auto
    then show ?thesis by auto
  qed
qed simp

lemma drop_nth: "k \<le> i \<Longrightarrow> i < length h \<Longrightarrow> i - k < length (drop k h) \<and> drop k h ! (i - k) = h ! i"
  by simp

lemma drop_nth_mem: "k \<le> i \<Longrightarrow> i < length h \<Longrightarrow> h ! i \<in> set (drop k h)"
  using drop_nth nth_mem by metis

lemma span_nth:
  assumes "1 \<le> lo" "lo \<le> int i + 1" "int i + 1 \<le> hi" "i < length h"
  shows "h ! i \<in> set (span_of h lo hi)"
proof -
  let ?j = "i - nat (lo - 1)"
  have j: "?j < length (drop (nat (lo - 1)) h)" "drop (nat (lo - 1)) h ! ?j = h ! i"
    using drop_nth [of "nat (lo - 1)" i h] assms by auto
  moreover have "?j < nat (hi - lo + 1)" using assms by auto
  ultimately have "span_of h lo hi ! ?j = h ! i" "?j < length (span_of h lo hi)" by (simp_all add: span_of_def)
  then show ?thesis using nth_mem by metis
qed

text \<open>Every record of the specification is in the log or in an object.\<close>

lemma kept_somewhere:
  assumes ok: "sys_ok hs s" and r: "r \<in> set (hs t)"
  shows "r \<in> set (chain_of t (adb (wld s))) \<or>
    (\<exists>lo hi obj. bucket (wld s) (ExportObjectKey t lo hi) = Some obj \<and> r \<in> er_row ` set (so_records obj))"
proof -
  let ?h = "hs t" and ?d = "adb (wld s)" and ?b = "bucket (wld s)"
  have log: "log_ok t ?h ?d" and obj: "objects_ok t ?h ?d ?b"
    using ok by (simp_all add: sys_ok_def trails_def trail_def)
  from r obtain i where i: "i < length ?h" "r = ?h ! i" by (metis in_set_conv_nth)
  show ?thesis
  proof (cases "anchor_seq t ?d \<le> int i + 1")
    case True
    then have "r \<in> set (drop (nat (anchor_seq t ?d - 1)) ?h)"
      unfolding i(2) by (intro drop_nth_mem i(1)) simp
    with log show ?thesis by (simp add: log_ok_def)
  next
    case False
    with log have "int i + 1 \<le> exported_seq t ?d" by (simp add: log_ok_def)
    moreover from obj obtain rs where rs: "consecutive 0 rs (exported_seq t ?d)"
      "\<forall>(lo, hi) \<in> set rs. ?b (ExportObjectKey t lo hi) \<noteq> None"
      and objs: "\<And>lo hi obj. 0 \<le> lo \<Longrightarrow> 0 \<le> hi \<Longrightarrow> ?b (ExportObjectKey t lo hi) = Some obj \<Longrightarrow>
         map er_row (so_records obj) = span_of ?h lo hi"
      by (auto simp: objects_ok_def)
    ultimately obtain lo hi where lh: "(lo, hi) \<in> set rs" "lo \<le> int i + 1" "int i + 1 \<le> hi"
      using consecutive_covers [OF rs(1), of "int i + 1"] by auto
    have lo: "1 \<le> lo" "lo \<le> hi" using consecutive_bound [OF rs(1)] lh(1) by auto
    from rs(2) lh(1) obtain ob where ob: "?b (ExportObjectKey t lo hi) = Some ob" by auto
    have "r \<in> set (map er_row (so_records ob))"
      using objs [OF _ _ ob] span_nth [OF lo(1) lh(2,3) i(1)] lo i(2) by simp
    with ob show ?thesis by auto
  qed
qed

end
