(* ===== verification/AuditCatchUp.thy ===== *)
theory AuditCatchUp
  imports AuditSystem
begin

text \<open>
  Progress of the export: with a database and a bucket that work, a run of \<open>Export\<close> ends, and it
  leaves no record unexported.
\<close>

section \<open>One round\<close>

lemma next_range_None:
  assumes ok: "trail t h d b" and "0 < n" and "next_range t (exported_seq t d) n d = None"
  shows "exported_seq t d = int (length h)"
proof -
  have e: "0 \<le> exported_seq t d" "exported_seq t d \<le> int (length h)"
    using ok by (auto simp: trail_def log_ok_def cursor_ok_def)
  have "filter (\<lambda>r. exported_seq t d < the (ar_seq r)) (chained t d) = []"
    using assms(2,3) by (auto simp: next_range_def split: list.splits)
  with unexported_rows [OF ok] have "drop (nat (exported_seq t d)) h = []" by simp
  with e show ?thesis by simp
qed

lemma linked_take: "linked t n p rs \<Longrightarrow> linked t n p (take k rs)"
  by (metis append_take_drop_id linked_append)

lemma check_linked:
  "linked t n p (map er_row rs) \<Longrightarrow> prev = None \<or> prev = Some p \<Longrightarrow> check_records n prev rs = None"
  by (induction rs arbitrary: n p prev) auto

text \<open>The rows of a pending range are all there, and they pass the check.\<close>

lemma read_range_span:
  assumes ok: "trail t h d b" and p: "lo = exported_seq t d + 1" "lo \<le> hi" "hi \<le> int (length h)"
  shows "map er_row (read_range t lo hi d) = span_of h lo hi"
proof -
  let ?e = "exported_seq t d"
  have h: "linked t 1 chainGenesis h" and e0: "0 \<le> ?e" using ok by (auto simp: trail_def log_ok_def)
  have f: "(\<lambda>r. lo \<le> the (ar_seq r) \<and> the (ar_seq r) \<le> hi) =
      (\<lambda>r. the (ar_seq r) \<le> hi \<and> ?e < the (ar_seq r))" using p(1) by auto
  have "map er_row (read_range t lo hi d) =
      map (scan_row t) (filter (\<lambda>r. the (ar_seq r) \<le> hi \<and> ?e < the (ar_seq r)) (chained t d))"
    unfolding read_range_def f by simp
  also have "\<dots> = filter (\<lambda>r. cr_seq r \<le> hi) (map (scan_row t) (filter (\<lambda>r. ?e < the (ar_seq r)) (chained t d)))"
    by (simp add: filter_map o_def conj_commute)
  also have "\<dots> = filter (\<lambda>r. cr_seq r \<le> hi) (drop (nat ?e) h)" by (simp only: unexported_rows [OF ok])
  also have "\<dots> = take (nat (hi - ?e)) (drop (nat ?e) h)"
  proof (rule linked_filter_le)
    show "linked t (?e + 1) (end_hash chainGenesis (take (nat ?e) h)) (drop (nat ?e) h)"
      using linked_drop [OF h, of "nat ?e"] e0 p by (simp add: add.commute)
  qed
  also have "\<dots> = span_of h lo hi" using p(1) by (simp add: span_of_def)
  finally show ?thesis .
qed

lemma check_range:
  assumes ok: "trail t h d b" and p: "lo = exported_seq t d + 1" "lo \<le> hi" "hi \<le> int (length h)"
  shows "checkExportRange (read_range t lo hi d) lo hi = None"
proof -
  let ?e = "exported_seq t d"
  have h: "linked t 1 chainGenesis h" and e0: "0 \<le> ?e" using ok by (auto simp: trail_def log_ok_def)
  have len: "int (length (read_range t lo hi d)) = hi - lo + 1"
    using arg_cong [OF read_range_span [OF assms], of length] p e0 by (simp add: span_of_def)
  have "linked t lo (end_hash chainGenesis (take (nat ?e) h)) (drop (nat ?e) h)"
    using linked_drop [OF h, of "nat ?e"] e0 p by (simp add: add.commute)
  then have "linked t lo (end_hash chainGenesis (take (nat ?e) h)) (span_of h lo hi)"
    using p(1) by (simp add: span_of_def linked_take)
  then show ?thesis using check_linked [of t lo] read_range_span [OF assms] len
    by (simp add: checkExportRange_def)
qed

definition tenant_known :: "string \<Rightarrow> audit_db \<Rightarrow> bool" where
  "tenant_known t d \<longleftrightarrow> cursors d t \<noteq> None \<or> text_ok d t"

definition claim_in :: "string \<Rightarrow> int \<times> int \<Rightarrow> audit_world \<Rightarrow> audit_world" where
  "claim_in t rng w =
     w\<lparr>adb := (adb w)\<lparr>cursors := (cursors (adb w))(t := Some \<lparr>ec_exported = exported_seq t (adb w), ec_pending = Some rng\<rparr>)\<rparr>\<rparr>"

lemma cursors_triv: "cursors d t = Some c \<Longrightarrow> d\<lparr>cursors := (cursors d)(t := Some c)\<rparr> = (d :: audit_db)"
  by (cases d) (simp add: map_upd_triv)

lemma calm_claim:
  assumes "afaults w = []" "tenant_known t (adb w)" "trail t h (adb w) b"
  shows "claimRange n t w =
    (case pending_of t (adb w) of
       Some rng \<Rightarrow> (Inr (Some rng), w)
     | None \<Rightarrow>
         (case next_range t (exported_seq t (adb w)) n (adb w) of
            None \<Rightarrow> (Inr None, w)
          | Some rng \<Rightarrow> (Inr (Some rng), claim_in t rng w)))"
proof -
  let ?d = "adb w"
  from assms(2) obtain d1 where cr: "create_cursor t ?d = Some ((), d1)"
    by (cases "cursors ?d t") (auto simp: create_cursor_def tenant_known_def)
  from create_cursor_Some(1) [OF cr] obtain c where c: "cursors d1 t = Some c" "ec_exported c = exported_seq t ?d"
    "ec_pending c = pending_of t ?d" by blast
  have d1: "d1 = ?d\<lparr>cursors := (cursors ?d)(t := Some c)\<rparr>"
    using cr c cursors_triv [of ?d t] by (auto simp: create_cursor_def split: if_splits)
  have nr: "next_range t e n d1 = next_range t e n ?d" for e by (simp add: next_range_def chained_def d1)
  let ?w1 = "w\<lparr>adb := d1\<rparr>"
  have calm: "afaults ?w1 = []" using assms(1) by simp
  have body: "claimRange_tx n t w =
      (case pending_of t ?d of Some rng \<Rightarrow> (Inr (Some rng, False), ?w1)
       | None \<Rightarrow> (case next_range t (exported_seq t ?d) n ?d of None \<Rightarrow> (Inr (None, False), ?w1)
          | Some rng \<Rightarrow> bnd (aexec (set_pending t rng)) (\<lambda>_. ret (Some rng, True)) ?w1))"
    using c nr by (auto simp: claimRange_tx_def calm_bnd_aexec [where st = "create_cursor t", OF assms(1) cr] calm_bnd_aquery [OF calm]
        from_option_def calm_bnd ret_def split: option.splits)
  have set: "bnd (aexec (set_pending t rng)) (\<lambda>_. ret (Some rng, True)) ?w1 = (Inr (Some rng, True), claim_in t rng w)"
    if p: "pending_of t ?d = None" and n: "next_range t (exported_seq t ?d) n ?d = Some rng" for rng
  proof -
    have "fst rng \<le> snd rng" using next_range_Some [OF assms(3), of n "fst rng" "snd rng"] n by simp
    then have "set_pending t rng (adb ?w1) = Some ((), adb (claim_in t rng w))"
      using c p by (cases c) (auto simp: set_pending_def claim_in_def d1)
    from calm_aexec [where st = "set_pending t rng", OF calm this] show ?thesis by (simp add: ret_def claim_in_def)
  qed
  have rolled: "claimRange n t w = (Inr x, w)" if "claimRange_tx n t w = (Inr (x, False), ?w1)" for x
    using calm_atx [where body = "claimRange_tx n t", OF assms(1) that calm] by (cases w) (simp add: claimRange_def)
  have commit: "claimRange n t w = (Inr x, claim_in t rng w)"
    if "claimRange_tx n t w = (Inr (x, True), claim_in t rng w)" for x rng
    using calm_atx [where body = "claimRange_tx n t", OF assms(1) that] assms(1) by (simp add: claimRange_def claim_in_def)
  show ?thesis
  proof (cases "pending_of t ?d")
    case None
    then show ?thesis using body rolled commit set by (cases "next_range t (exported_seq t ?d) n ?d") simp_all
  next
    case (Some rng)
    then show ?thesis using body rolled by simp
  qed
qed

text \<open>The pending range is put into the bucket, and the cursor moves over it.\<close>

definition put_in :: "export_policy \<Rightarrow> string \<Rightarrow> int \<Rightarrow> int \<Rightarrow> audit_world \<Rightarrow> audit_world" where
  "put_in pol t lo hi w =
     w\<lparr>aticks := Suc (aticks w),
       bucket := (bucket w)(ExportObjectKey t lo hi := Some
         \<lparr>so_records = read_range t lo hi (adb w), so_mode = ep_mode pol,
          so_retain_until = anow w (aticks w) + ep_days pol * day_ns\<rparr>)\<rparr>"

definition done_in :: "export_policy \<Rightarrow> string \<Rightarrow> int \<Rightarrow> int \<Rightarrow> audit_world \<Rightarrow> audit_world" where
  "done_in pol t lo hi w =
     (put_in pol t lo hi w)
       \<lparr>adb := (adb w)\<lparr>cursors := (cursors (adb w))(t := Some \<lparr>ec_exported = hi, ec_pending = None\<rparr>)\<rparr>\<rparr>"

lemma calm_load:
  assumes "afaults w = []" "trail t h (adb w) b" "lo = exported_seq t (adb w) + 1" "lo \<le> hi" "hi \<le> int (length h)"
  shows "load_range t lo hi w = (Inr (read_range t lo hi (adb w)), w)"
  using check_range [OF assms(2-5)] by (simp add: load_range_def readRange_def calm_bnd_aquery [OF assms(1)] ret_def)

lemma calm_put:
  "afaults w = [] \<Longrightarrow> put_range pol t lo hi (read_range t lo hi (adb w)) w = (Inr (), put_in pol t lo hi w)"
  by (cases w) (simp add: put_range_def bnd_def aclock_def PutLocked_def atake_def put_in_def)

lemma calm_advance:
  assumes "afaults w = []" "pending_of t (adb w) = Some (lo, hi)"
  shows "aexec (advance t lo hi) (put_in pol t lo hi w) = (Inr (), done_in pol t lo hi w)"
proof -
  have "advance t lo hi (adb (put_in pol t lo hi w)) = Some ((), adb (done_in pol t lo hi w))"
    using assms(2) by (auto simp: advance_def done_in_def put_in_def pending_of_def split: option.splits)
  from calm_aexec [where st = "advance t lo hi", OF _ this] assms(1) show ?thesis
    by (simp add: done_in_def put_in_def)
qed

lemma calm_export_pending:
  assumes calm: "afaults w = []" and ok: "trails hs w" and p: "pending_of t (adb w) = Some (lo, hi)"
  shows "bnd (load_range t lo hi) (\<lambda>records. bnd (put_range pol t lo hi records) (\<lambda>_.
      bnd (aexec (advance t lo hi)) (\<lambda>_. ret (int (length records))))) w = (Inr (hi - lo + 1), done_in pol t lo hi w)"
    and "trails hs (done_in pol t lo hi w)"
proof -
  have tr: "trail t (hs t) (adb w) (bucket w)" using ok by (simp add: trails_def)
  then have r: "lo = exported_seq t (adb w) + 1" "lo \<le> hi" "hi \<le> int (length (hs t))" "0 \<le> exported_seq t (adb w)"
    using p by (auto simp: trail_def cursor_ok_def log_ok_def)
  have len: "int (length (read_range t lo hi (adb w))) = hi - lo + 1"
    using check_range [OF tr r(1-3)] by (auto simp: checkExportRange_def split: if_splits)
  show "bnd (load_range t lo hi) (\<lambda>records. bnd (put_range pol t lo hi records) (\<lambda>_.
      bnd (aexec (advance t lo hi)) (\<lambda>_. ret (int (length records))))) w = (Inr (hi - lo + 1), done_in pol t lo hi w)"
    by (simp add: bnd_def calm_load [OF calm tr r(1-3)] calm_put [OF calm] calm_advance [OF calm p] len ret_def)
  have c: "claimed t lo hi w" using p r by (simp add: claimed_def)
  from put_step [OF ok c read_range_span [OF tr r(1-3)] calm_put [OF calm]]
  have put: "trails hs (put_in pol t lo hi w)" "claimed t lo hi (put_in pol t lo hi w)"
    "bucket (put_in pol t lo hi w) (ExportObjectKey t lo hi) \<noteq> None" by (simp_all add: after_put_def)
  from move_step [OF put calm_advance [OF calm p]] show "trails hs (done_in pol t lo hi w)" by simp
qed

text \<open>A round brings the cursor forward, or the tenant is exported.\<close>

lemma calm_once:
  assumes calm: "afaults w = []" and known: "tenant_known t (adb w)" and ok: "trails hs w" and "t \<noteq> []" "0 < n"
  obtains (nothing_left) "ExportTenantOnce n pol t w = (Inr 0, w)" "exported_seq t (adb w) = int (length (hs t))"
      "pending_of t (adb w) = None"
  | (round) k w' where "ExportTenantOnce n pol t w = (Inr k, w')" "0 < k" "trails hs w'" "afaults w' = []"
      "exported_seq t (adb w) < exported_seq t (adb w')" "tenant_known t (adb w')"
      "audit_log (adb w') = audit_log (adb w)" "text_ok (adb w') = text_ok (adb w)"
      "\<And>u. u \<noteq> t \<Longrightarrow> cursors (adb w') u = cursors (adb w) u"
proof -
  have tr: "trail t (hs t) (adb w) (bucket w)" using ok by (simp add: trails_def)
  have export: thesis if v: "afaults v = []" "trails hs v" "pending_of t (adb v) = Some (lo, hi)"
      "claimRange n t w = (Inr (Some (lo, hi)), v)" "exported_seq t (adb v) = exported_seq t (adb w)"
      "audit_log (adb v) = audit_log (adb w)" "text_ok (adb v) = text_ok (adb w)"
      "\<And>u. u \<noteq> t \<Longrightarrow> cursors (adb v) u = cursors (adb w) u" for v lo hi
  proof -
    let ?w' = "done_in pol t lo hi v"
    have r: "lo = exported_seq t (adb v) + 1" "lo \<le> hi"
      using v(2,3) by (auto simp: trails_def trail_def cursor_ok_def)
    have "ExportTenantOnce n pol t w = (Inr (hi - lo + 1), ?w')"
      using \<open>t \<noteq> []\<close> calm_export_pending(1) [OF v(1-3)] v(4) by (simp add: ExportTenantOnce_def bnd_def [of "claimRange n t"])
    then show thesis
      using r v calm_export_pending(2) [OF v(1-3)]
      by (intro round [of "hi - lo + 1" ?w']) (simp_all add: done_in_def put_in_def exported_seq_def tenant_known_def)
  qed
  show thesis
  proof (cases "pending_of t (adb w)")
    case None
    show ?thesis
    proof (cases "next_range t (exported_seq t (adb w)) n (adb w)")
      case None': None
      have "claimRange n t w = (Inr None, w)" using calm_claim [OF calm known tr] None None' by simp
      then show ?thesis using nothing_left next_range_None [OF tr \<open>0 < n\<close> None'] None \<open>t \<noteq> []\<close>
        by (simp add: ExportTenantOnce_def bnd_def ret_def)
    next
      case (Some rng)
      obtain lo hi where rng: "rng = (lo, hi)" by force
      have run: "claimRange n t w = (Inr (Some (lo, hi)), claim_in t rng w)"
        using calm_claim [OF calm known tr] None Some rng by simp
      show ?thesis
        by (rule export [OF _ _ _ run]) (use calm claim_step [OF ok run] rng in
            \<open>simp_all add: claim_in_def pending_of_def exported_seq_def\<close>)
    qed
  next
    case (Some rng)
    obtain lo hi where rng: "rng = (lo, hi)" by force
    have "claimRange n t w = (Inr (Some (lo, hi)), w)" using calm_claim [OF calm known tr] Some rng by simp
    from export [OF calm ok _ this] Some rng show ?thesis by simp
  qed
qed

section \<open>A run\<close>

text \<open>A tenant is exported to its end; fuel for the rows that wait, one round that finds nothing, is enough.\<close>

lemma export_tenant_done:
  assumes "afaults w = []" "tenant_known t (adb w)" "trails hs w" "t \<noteq> []" "0 < n"
    and "int (length (hs t)) - exported_seq t (adb w) < int fuel"
  shows "\<exists>m w'. export_tenant fuel n pol t w = Some ((m, []), w') \<and> afaults w' = [] \<and> trails hs w' \<and>
    exported_seq t (adb w') = int (length (hs t)) \<and> audit_log (adb w') = audit_log (adb w) \<and>
    text_ok (adb w') = text_ok (adb w) \<and> (\<forall>u. u \<noteq> t \<longrightarrow> cursors (adb w') u = cursors (adb w) u)"
  using assms
proof (induction fuel arbitrary: w)
  case 0
  have "exported_seq t (adb w) \<le> int (length (hs t))"
    using 0(3) by (auto simp: trails_def trail_def cursor_ok_def)
  with 0(6) show ?case by simp
next
  case (Suc fuel)
  show ?case
  proof (cases rule: calm_once [OF Suc.prems(1-5), of pol])
    case 1
    then show ?thesis using Suc.prems(1,3) by simp
  next
    case (2 k w1)
    have "\<exists>m w'. export_tenant fuel n pol t w1 = Some ((m, []), w') \<and> afaults w' = [] \<and> trails hs w' \<and>
      exported_seq t (adb w') = int (length (hs t)) \<and> audit_log (adb w') = audit_log (adb w1) \<and>
      text_ok (adb w') = text_ok (adb w1) \<and> (\<forall>u. u \<noteq> t \<longrightarrow> cursors (adb w') u = cursors (adb w1) u)"
      by (rule Suc.IH) (use 2 Suc.prems in auto)
    then show ?thesis using 2 by auto
  qed
qed

text \<open>How much fuel one tenant needs at most.\<close>

lemma tenant_fuel:
  assumes "trails hs w" shows "int (length (hs t)) - exported_seq t (adb w) < int (length (audit_log (adb w)) + 1)"
proof -
  have log: "log_ok t (hs t) (adb w)" using assms by (simp add: trails_def trail_def)
  have "length (chain_of t (adb w)) \<le> length (audit_log (adb w))" by (simp add: chain_of_def chained_def)
  moreover have "int (length (hs t)) - (anchor_seq t (adb w) - 1) \<le> int (length (chain_of t (adb w)))"
    using log by (auto simp: log_ok_def)
  ultimately show ?thesis using log by (auto simp: log_ok_def)
qed

lemma export_tenants_done:
  assumes "afaults w = []" "trails hs w" "0 < n" "\<forall>t \<in> set ts. t \<noteq> [] \<and> text_ok (adb w) t"
    and "length (audit_log (adb w)) < fuel"
  shows "\<exists>m w'. export_tenants fuel n pol ts w = Some ((m, []), w') \<and> trails hs w' \<and>
    audit_log (adb w') = audit_log (adb w) \<and>
    (\<forall>t. exported_seq t (adb w) \<le> exported_seq t (adb w')) \<and>
    (\<forall>t \<in> set ts. exported_seq t (adb w') = int (length (hs t)))"
  using assms
proof (induction ts arbitrary: w)
  case (Cons t ts)
  have known: "tenant_known t (adb w)" using Cons.prems(4) by (simp add: tenant_known_def)
  have fuel: "int (length (hs t)) - exported_seq t (adb w) < int fuel"
    using tenant_fuel [OF Cons.prems(2), of t] Cons.prems(5) by simp
  have "t \<noteq> []" using Cons.prems(4) by simp
  from export_tenant_done [OF Cons.prems(1) known Cons.prems(2) this Cons.prems(3) fuel, of pol]
  obtain m w1 where one: "export_tenant fuel n pol t w = Some ((m, []), w1)" "afaults w1 = []" "trails hs w1"
    "exported_seq t (adb w1) = int (length (hs t))" "audit_log (adb w1) = audit_log (adb w)"
    "text_ok (adb w1) = text_ok (adb w)" "\<forall>u. u \<noteq> t \<longrightarrow> cursors (adb w1) u = cursors (adb w) u" by blast
  have "\<forall>t \<in> set ts. t \<noteq> [] \<and> text_ok (adb w1) t" "length (audit_log (adb w1)) < fuel"
    using Cons.prems(4,5) one by simp_all
  from Cons.IH [OF one(2,3) Cons.prems(3) this]
  obtain k w2 where more: "export_tenants fuel n pol ts w1 = Some ((k, []), w2)" "trails hs w2"
    "audit_log (adb w2) = audit_log (adb w1)" "\<forall>t. exported_seq t (adb w1) \<le> exported_seq t (adb w2)"
    "\<forall>t \<in> set ts. exported_seq t (adb w2) = int (length (hs t))" by blast
  have bound: "exported_seq u (adb v) \<le> int (length (hs u))" if "trails hs v" for u v
    using that by (simp add: trails_def trail_def cursor_ok_def)
  have "exported_seq u (adb w) \<le> exported_seq u (adb w1)" for u
  proof (cases "u = t")
    case True
    with one(4) bound [OF Cons.prems(2), of t] show ?thesis by simp
  next
    case False
    with one(7) show ?thesis by (simp add: exported_seq_def)
  qed
  then have "\<forall>u. exported_seq u (adb w) \<le> exported_seq u (adb w2)" using more(4) order_trans by blast
  moreover have "exported_seq t (adb w2) = int (length (hs t))"
    using one(4) more(4) [rule_format, of t] bound [OF more(2), of t] by simp
  ultimately show ?case using one more by auto
qed simp

lemma nothing_waits:
  assumes ok: "trails hs w" and all: "\<forall>t \<in> set (chained_tenants (adb w)). exported_seq t (adb w) = int (length (hs t))"
  shows "unexported (adb w) = []"
proof -
  have "q \<le> exported_seq (ar_tenant r) (adb w)" if r: "r \<in> set (audit_log (adb w))" "ar_seq r = Some q" for r q
  proof -
    let ?t = "ar_tenant r"
    have tr: "trail ?t (hs ?t) (adb w) (bucket w)" using ok by (simp add: trails_def)
    have "?t \<in> set (chained_tenants (adb w))" using r by (auto simp: chained_tenants_def)
    with all have e: "exported_seq ?t (adb w) = int (length (hs ?t))" by blast
    then have "filter (\<lambda>r. exported_seq ?t (adb w) < the (ar_seq r)) (chained ?t (adb w)) = []"
      using unexported_rows [OF tr] by simp
    moreover have "r \<in> set (chained ?t (adb w))" using r by (simp add: chained_def)
    ultimately show ?thesis using r(2) by (fastforce simp: filter_empty_conv)
  qed
  then show ?thesis by (auto simp: unexported_def filter_empty_conv linorder_not_less split: option.splits)
qed

lemma Export_done:
  assumes ok: "trails hs w" and calm: "afaults w = []" and "0 < n" "length (audit_log (adb w)) < fuel"
    and names: "\<forall>t \<in> set (chained_tenants (adb w)). t \<noteq> [] \<and> TrimSpace t = t \<and> text_ok (adb w) t"
  shows "\<exists>m w'. Export fuel n pol w = Some ((m, []), w') \<and> trails hs w' \<and> unexported (adb w') = [] \<and>
    audit_log (adb w') = audit_log (adb w)"
proof -
  have trim: "map TrimSpace (chained_tenants (adb w)) = chained_tenants (adb w)"
    by (rule map_idI) (use names in blast)
  have "\<forall>t \<in> set (chained_tenants (adb w)). t \<noteq> [] \<and> text_ok (adb w) t" using names by blast
  from export_tenants_done [OF calm ok assms(3) this assms(4), of pol]
  obtain m w' where run: "export_tenants fuel n pol (chained_tenants (adb w)) w = Some ((m, []), w')" "trails hs w'"
    "audit_log (adb w') = audit_log (adb w)"
    "\<forall>t \<in> set (chained_tenants (adb w)). exported_seq t (adb w') = int (length (hs t))" by blast
  have "chained_tenants (adb w') = chained_tenants (adb w)" using run(3) by (simp add: chained_tenants_def)
  with nothing_waits [OF run(2)] run(4) have "unexported (adb w') = []" by simp
  then show ?thesis using run by (simp add: Export_def calm_aquery [OF calm] trim)
qed

end
