(* ===== verification/AuditQueue.thy ===== *)
theory AuditQueue
  imports AuditSystem "HOL-Library.Multiset"
begin

text \<open>
  The queue in front of the audit trail (\<open>writer.go\<close>): any number of callers of \<open>Log\<close>, the
  goroutine that collects batches and writes them, \<open>Stop\<close>, and the cancelled context. One step is what
  runs between two operations on a channel or on the database. A \<open>select\<close> with several ready cases takes
  any of them. The bookkeeping lists \<open>accepted\<close>, \<open>durable\<close> and \<open>lost\<close> are not in the code: the events
  given to \<open>Log\<close>, the events of a write that succeeded, and the events that \<open>writeError\<close> reports as lost.
\<close>

section \<open>State\<close>

definition writerBufferSize :: nat where "writerBufferSize = 1000"

definition batchSize :: nat where "batchSize = 100"

text \<open>
  A caller has checked \<open>stopping\<close> and goes to send; it has sent and goes to check again; it takes what
  is queued; it writes events itself; it has returned.
\<close>

datatype caller =
    Checked audit_entry
  | Sent
  | Taking "audit_entry list"
  | Direct "audit_entry list"
  | Returned

text \<open>What the goroutine does after \<open>writeDirect\<close>.\<close>

datatype direct_next = Resume | TakeQueue | Finish

datatype run_phase =
    Collecting "audit_entry list"
  | Flushing "audit_entry list"
  | Backoff "audit_entry list"
  | Writing direct_next "audit_entry list"
  | Draining "audit_entry list"
  | Exited

record writer =
  sysw :: audit_sys
  buffer :: "audit_entry list"
  stopping :: bool
  cancelled :: bool
  run_state :: run_phase
  callers :: "caller list"
  accepted :: "audit_entry list"
  durable :: "audit_entry list"
  lost :: "audit_entry list"

section \<open>Steps\<close>

text \<open>\<open>Log\<close> looks at \<open>stopping\<close> first.\<close>

definition Log_first :: "audit_entry \<Rightarrow> writer \<Rightarrow> caller" where
  "Log_first ev q = (if stopping q then Direct [ev] else Checked ev)"

text \<open>After the send it looks again.\<close>

definition Log_again :: "writer \<Rightarrow> caller" where
  "Log_again q = (if stopping q then Taking [] else Returned)"

text \<open>A batch of \<open>writeDirect\<close> is written or lost.\<close>

definition settle :: "audit_err + unit \<Rightarrow> audit_entry list \<Rightarrow> audit_world \<Rightarrow> writer \<Rightarrow> writer" where
  "settle r evs w q =
     (case r of
        Inr _ \<Rightarrow> q\<lparr>sysw := (sysw q)\<lparr>wld := w\<rparr>, durable := durable q @ evs\<rparr>
      | Inl _ \<Rightarrow> q\<lparr>sysw := (sysw q)\<lparr>wld := w\<rparr>, lost := lost q @ evs\<rparr>)"

definition collected :: "audit_entry list \<Rightarrow> run_phase" where
  "collected batch = (if batchSize \<le> length batch then Flushing batch else Collecting batch)"

definition ticked :: "audit_entry list \<Rightarrow> run_phase" where
  "ticked batch = (if batch = [] then Collecting [] else Flushing batch)"

text \<open>A round of \<open>flushDurable\<close>: the batch is kept until it is written, or the context has ended.\<close>

definition flushed :: "audit_err + unit \<Rightarrow> audit_entry list \<Rightarrow> audit_world \<Rightarrow> writer \<Rightarrow> writer" where
  "flushed r batch w q =
     (case r of
        Inr _ \<Rightarrow> q\<lparr>sysw := (sysw q)\<lparr>wld := w\<rparr>, durable := durable q @ batch, run_state := Collecting []\<rparr>
      | Inl _ \<Rightarrow> q\<lparr>sysw := (sysw q)\<lparr>wld := w\<rparr>,
                   run_state := (if cancelled q then Writing Resume batch else Backoff batch)\<rparr>)"

fun after_direct :: "direct_next \<Rightarrow> run_phase" where
  "after_direct Resume = Collecting []"
| "after_direct TakeQueue = Draining []"
| "after_direct Finish = Exited"

abbreviation set_caller :: "nat \<Rightarrow> caller \<Rightarrow> writer \<Rightarrow> writer" where
  "set_caller i c q \<equiv> q\<lparr>callers := (callers q)[i := c]\<rparr>"

abbreviation caller_at :: "writer \<Rightarrow> nat \<Rightarrow> caller \<Rightarrow> bool" where
  "caller_at q i c \<equiv> i < length (callers q) \<and> callers q ! i = c"

inductive writer_step :: "writer \<Rightarrow> writer \<Rightarrow> bool" where
  call: "writer_step q (q\<lparr>callers := callers q @ [Log_first ev q], accepted := accepted q @ [ev]\<rparr>)"
| send: "caller_at q i (Checked ev) \<Longrightarrow> length (buffer q) < writerBufferSize \<Longrightarrow>
    writer_step q (set_caller i Sent (q\<lparr>buffer := buffer q @ [ev]\<rparr>))"
| refuse: "caller_at q i (Checked ev) \<Longrightarrow> stopping q \<Longrightarrow> writer_step q (set_caller i (Direct [ev]) q)"
| again: "caller_at q i Sent \<Longrightarrow> writer_step q (set_caller i (Log_again q) q)"
| take: "caller_at q i (Taking evs) \<Longrightarrow> buffer q = ev # rest \<Longrightarrow>
    writer_step q (set_caller i (Taking (evs @ [ev])) (q\<lparr>buffer := rest\<rparr>))"
| took: "caller_at q i (Taking evs) \<Longrightarrow> buffer q = [] \<Longrightarrow> writer_step q (set_caller i (Direct evs) q)"
| direct: "caller_at q i (Direct evs) \<Longrightarrow> evs \<noteq> [] \<Longrightarrow>
    Writer_flush (List.take batchSize evs) (wld (sysw q)) = (r, w) \<Longrightarrow>
    writer_step q (set_caller i (Direct (drop batchSize evs)) (settle r (List.take batchSize evs) w q))"
| return: "caller_at q i (Direct []) \<Longrightarrow> writer_step q (set_caller i Returned q)"
| receive: "run_state q = Collecting batch \<Longrightarrow> buffer q = ev # rest \<Longrightarrow>
    writer_step q (q\<lparr>buffer := rest, run_state := collected (batch @ [ev])\<rparr>)"
| tick: "run_state q = Collecting batch \<Longrightarrow> writer_step q (q\<lparr>run_state := ticked batch\<rparr>)"
| leave: "run_state q = Collecting batch \<Longrightarrow> stopping q \<or> cancelled q \<Longrightarrow>
    writer_step q (q\<lparr>run_state := Writing TakeQueue batch\<rparr>)"
| flush: "run_state q = Flushing batch \<Longrightarrow> Writer_flush batch (wld (sysw q)) = (r, w) \<Longrightarrow>
    writer_step q (flushed r batch w q)"
| timer: "run_state q = Backoff batch \<Longrightarrow> writer_step q (q\<lparr>run_state := Flushing batch\<rparr>)"
| give_up: "run_state q = Backoff batch \<Longrightarrow> stopping q \<or> cancelled q \<Longrightarrow>
    writer_step q (q\<lparr>run_state := Writing Resume batch\<rparr>)"
| run_direct: "run_state q = Writing n evs \<Longrightarrow> evs \<noteq> [] \<Longrightarrow>
    Writer_flush (List.take batchSize evs) (wld (sysw q)) = (r, w) \<Longrightarrow>
    writer_step q ((settle r (List.take batchSize evs) w q)\<lparr>run_state := Writing n (drop batchSize evs)\<rparr>)"
| run_direct_done: "run_state q = Writing n [] \<Longrightarrow> writer_step q (q\<lparr>run_state := after_direct n\<rparr>)"
| drain_take: "run_state q = Draining evs \<Longrightarrow> buffer q = ev # rest \<Longrightarrow>
    writer_step q (q\<lparr>buffer := rest, run_state := Draining (evs @ [ev])\<rparr>)"
| drained: "run_state q = Draining evs \<Longrightarrow> buffer q = [] \<Longrightarrow>
    writer_step q (q\<lparr>run_state := Writing Finish evs\<rparr>)"
| stop: "writer_step q (q\<lparr>stopping := True\<rparr>)"
| cancel: "writer_step q (q\<lparr>cancelled := True\<rparr>)"
| others: "audit_step (sysw q) s \<Longrightarrow> writer_step q (q\<lparr>sysw := s\<rparr>)"

definition initial_writer :: "writer \<Rightarrow> bool" where
  "initial_writer q \<longleftrightarrow>
     reachable_sys (sysw q) \<and> buffer q = [] \<and> \<not> stopping q \<and> \<not> cancelled q \<and> run_state q = Collecting [] \<and>
     callers q = [] \<and> accepted q = [] \<and> durable q = [] \<and> lost q = []"

definition reachable_writer :: "writer \<Rightarrow> bool" where
  "reachable_writer q \<longleftrightarrow> (\<exists>q0. initial_writer q0 \<and> writer_step\<^sup>*\<^sup>* q0 q)"

section \<open>Every event is accounted for\<close>

fun caller_holds :: "caller \<Rightarrow> audit_entry multiset" where
  "caller_holds (Checked ev) = {#ev#}"
| "caller_holds Sent = {#}"
| "caller_holds (Taking evs) = mset evs"
| "caller_holds (Direct evs) = mset evs"
| "caller_holds Returned = {#}"

fun runner_holds :: "run_phase \<Rightarrow> audit_entry multiset" where
  "runner_holds (Collecting batch) = mset batch"
| "runner_holds (Flushing batch) = mset batch"
| "runner_holds (Backoff batch) = mset batch"
| "runner_holds (Writing n evs) = mset evs"
| "runner_holds (Draining evs) = mset evs"
| "runner_holds Exited = {#}"

definition in_hand :: "writer \<Rightarrow> audit_entry multiset" where
  "in_hand q = runner_holds (run_state q) + sum_list (map caller_holds (callers q))"

definition accounted :: "writer \<Rightarrow> bool" where
  "accounted q \<longleftrightarrow> mset (accepted q) = mset (buffer q) + in_hand q + mset (durable q) + mset (lost q)"

lemma holds_update:
  assumes "i < length cs"
  shows "sum_list (map caller_holds (cs[i := c])) + caller_holds (cs ! i) = sum_list (map caller_holds cs) + caller_holds c"
  using assms
proof (induction cs arbitrary: i)
  case (Cons a cs)
  then show ?case by (cases i) (auto simp: ac_simps)
qed simp

lemma in_hand_update:
  assumes "i < length (callers q)" "callers q' = (callers q)[i := c]" "run_state q' = run_state q"
  shows "in_hand q' + caller_holds (callers q ! i) = in_hand q + caller_holds c"
  using holds_update [OF assms(1), of c] by (simp add: in_hand_def assms(2,3) ac_simps)

lemma holds_after: "runner_holds (after_direct n) = {#}"
  by (cases n) simp_all

lemma mset_take_drop: "mset (List.take n xs) + mset (drop n xs) = mset xs"
  by (metis append_take_drop_id mset_append)

lemma mset_take_drop': "a + mset (drop n xs) + (b + mset (List.take n xs)) = a + mset xs + (b :: 'a multiset)"
  unfolding mset_take_drop [of n xs, symmetric] by (simp only: ac_simps)

lemma accounted_caller:
  assumes "accounted q" "i < length (callers q)" "callers q' = (callers q)[i := c]" "run_state q' = run_state q"
    and "accepted q' = accepted q"
    and "mset (buffer q') + caller_holds c + (mset (durable q') + mset (lost q')) =
      mset (buffer q) + caller_holds (callers q ! i) + (mset (durable q) + mset (lost q))"
  shows "accounted q'"
proof -
  let ?h = "caller_holds (callers q ! i)"
  have "mset (buffer q') + in_hand q' + mset (durable q') + mset (lost q') + ?h =
      mset (buffer q') + (in_hand q' + ?h) + mset (durable q') + mset (lost q')" by (simp only: ac_simps)
  also have "\<dots> = in_hand q + (mset (buffer q') + caller_holds c + (mset (durable q') + mset (lost q')))"
    unfolding in_hand_update [OF assms(2-4)] by (simp only: ac_simps)
  also have "\<dots> = mset (buffer q) + in_hand q + mset (durable q) + mset (lost q) + ?h"
    unfolding assms(6) by (simp only: ac_simps)
  finally show ?thesis using assms(1,5) by (simp add: accounted_def)
qed

lemma accounted_runner:
  assumes "accounted q" "callers q' = callers q" "accepted q' = accepted q"
    and "mset (buffer q') + runner_holds (run_state q') + (mset (durable q') + mset (lost q')) =
      mset (buffer q) + runner_holds (run_state q) + (mset (durable q) + mset (lost q))"
  shows "accounted q'"
proof -
  let ?c = "sum_list (map caller_holds (callers q))"
  have "mset (buffer q') + in_hand q' + mset (durable q') + mset (lost q') =
      mset (buffer q') + runner_holds (run_state q') + (mset (durable q') + mset (lost q')) + ?c"
    unfolding in_hand_def assms(2) by (simp only: ac_simps)
  also have "\<dots> = mset (buffer q) + in_hand q + mset (durable q) + mset (lost q)"
    unfolding assms(4) in_hand_def by (simp only: ac_simps)
  finally show ?thesis using assms(1,3) by (simp add: accounted_def)
qed

lemma settle_fields [simp]:
  "callers (settle r evs w q) = callers q" "run_state (settle r evs w q) = run_state q"
  "accepted (settle r evs w q) = accepted q" "buffer (settle r evs w q) = buffer q"
  "stopping (settle r evs w q) = stopping q" "cancelled (settle r evs w q) = cancelled q"
  "sysw (settle r evs w q) = (sysw q)\<lparr>wld := w\<rparr>"
  by (simp_all add: settle_def split: sum.splits)

lemma settle_writes:
  "mset (durable (settle r evs w q)) + mset (lost (settle r evs w q)) = mset (durable q) + mset (lost q) + mset evs"
  by (simp add: settle_def split: sum.splits)

lemma accounted_step: "writer_step q q' \<Longrightarrow> accounted q \<Longrightarrow> accounted q'"
proof (induction rule: writer_step.induct)
  case (call q ev)
  then show ?case by (auto simp: accounted_def in_hand_def Log_first_def)
next
  case (send q i ev)
  show ?case by (rule accounted_caller [where q = q and i = i and c = Sent]) (use send in \<open>simp_all\<close>)
next
  case (refuse q i ev)
  show ?case by (rule accounted_caller [where q = q and i = i and c = "Direct [ev]"]) (use refuse in \<open>simp_all\<close>)
next
  case (again q i)
  show ?case by (rule accounted_caller [where q = q and i = i and c = "Log_again q"]) (use again in \<open>simp_all add: Log_again_def\<close>)
next
  case (take q i evs ev rest)
  show ?case by (rule accounted_caller [where q = q and i = i and c = "Taking (evs @ [ev])"]) (use take in \<open>simp_all\<close>)
next
  case (took q i evs)
  show ?case by (rule accounted_caller [where q = q and i = i and c = "Direct evs"]) (use took in \<open>simp_all\<close>)
next
  case (direct q i evs r w)
  let ?q = "settle r (List.take batchSize evs) w q"
  have "mset (durable ?q) + mset (lost ?q) = mset (durable q) + mset (lost q) + mset (List.take batchSize evs)"
    by (rule settle_writes)
  then show ?case
    using direct(1,4) mset_take_drop' [of "mset (buffer q)" batchSize evs "mset (durable q) + mset (lost q)"]
    by - (rule accounted_caller [where q = q and i = i and c = "Direct (drop batchSize evs)"], simp_all)
next
  case (return q i)
  show ?case by (rule accounted_caller [where q = q and i = i and c = Returned]) (use return in \<open>simp_all\<close>)
next
  case (receive q batch ev rest)
  show ?case by (rule accounted_runner [where q = q]) (use receive in \<open>simp_all add: collected_def\<close>)
next
  case (tick q batch)
  show ?case by (rule accounted_runner [where q = q]) (use tick in \<open>simp_all add: ticked_def\<close>)
next
  case (flush q batch r w)
  show ?case by (rule accounted_runner [where q = q]) (use flush in \<open>simp_all add: flushed_def split: sum.splits\<close>)
next
  case (run_direct q n evs r w)
  let ?q = "settle r (List.take batchSize evs) w q"
  have "mset (durable ?q) + mset (lost ?q) = mset (durable q) + mset (lost q) + mset (List.take batchSize evs)"
    by (rule settle_writes)
  then show ?case
    using run_direct(1,4) mset_take_drop' [of "mset (buffer q)" batchSize evs "mset (durable q) + mset (lost q)"]
    by - (rule accounted_runner [where q = q], simp_all)
next
  case (run_direct_done q n)
  show ?case by (rule accounted_runner [where q = q]) (use run_direct_done in \<open>simp_all add: holds_after\<close>)
qed (simp_all add: accounted_def in_hand_def)

lemma accounted_reachable:
  assumes "reachable_writer q" shows "accounted q"
proof -
  from assms obtain q0 where "initial_writer q0" and steps: "writer_step\<^sup>*\<^sup>* q0 q" by (auto simp: reachable_writer_def)
  then have "accounted q0" by (simp add: initial_writer_def accounted_def in_hand_def)
  with steps show ?thesis by (induction rule: rtranclp_induct) (auto intro: accounted_step)
qed

section \<open>A written event is in the trail\<close>

text \<open>A row that records the event.\<close>

definition records_event :: "audit_entry \<Rightarrow> chain_row \<Rightarrow> bool" where
  "records_event ev r \<longleftrightarrow> (\<exists>created seq prev. r = new_row (ae_tenant ev) created seq prev ev)"

lemma new_rows_record:
  "ev \<in> set evs \<Longrightarrow> \<exists>seq prev. new_row t c seq prev ev \<in> set (new_rows t c n p evs)"
  by (induction evs arbitrary: n p) (auto, blast)

lemma written_records:
  assumes "ev \<in> set batch" shows "\<exists>r \<in> set (written batch c h (ae_tenant ev)). records_event ev r"
proof -
  have "ev \<in> set (byTenant batch (ae_tenant ev))" using assms by (simp add: byTenant_def)
  from new_rows_record [OF this] show ?thesis unfolding written_def records_event_def by blast
qed

definition recorded :: "writer \<Rightarrow> bool" where
  "recorded q \<longleftrightarrow> (\<exists>hs. sys_ok hs (sysw q) \<and>
     (\<forall>ev \<in> set (durable q). \<exists>r \<in> set (hs (ae_tenant ev)). records_event ev r))"

lemma recorded_same: "recorded q \<Longrightarrow> sysw q' = sysw q \<Longrightarrow> durable q' = durable q \<Longrightarrow> recorded q'"
  by (simp add: recorded_def)

lemma recorded_step_sys:
  assumes "recorded q" "audit_step (sysw q) s" shows "recorded (q\<lparr>sysw := s\<rparr>)"
proof -
  from assms(1) obtain hs where ok: "sys_ok hs (sysw q)"
    and d: "\<forall>ev \<in> set (durable q). \<exists>r \<in> set (hs (ae_tenant ev)). records_event ev r" by (auto simp: recorded_def)
  from step_ok [OF assms(2) ok] obtain ext where "sys_ok (\<lambda>t. hs t @ ext t) s" by blast
  with d show ?thesis unfolding recorded_def by (intro exI [of _ "\<lambda>t. hs t @ ext t"]) fastforce
qed

lemma recorded_flush:
  assumes rec: "recorded q" and run: "Writer_flush evs (wld (sysw q)) = (r, w)"
    and q': "sysw q' = (sysw q)\<lparr>wld := w\<rparr>" "durable q' = (case r of Inr _ \<Rightarrow> durable q @ evs | Inl _ \<Rightarrow> durable q)"
  shows "recorded q'"
proof -
  from rec obtain hs where ok: "sys_ok hs (sysw q)"
    and d: "\<forall>ev \<in> set (durable q). \<exists>r \<in> set (hs (ae_tenant ev)). records_event ev r" by (auto simp: recorded_def)
  from run obtain r0 where ins: "Writer_insert evs (wld (sysw q)) = (r0, w)" and r: "\<And>x. r = Inr x \<Longrightarrow> \<exists>y. r0 = Inr y"
    by (auto simp: Writer_flush_def bnd_def split: prod.splits sum.splits)
  from insert_ok [OF ok ins] show ?thesis
  proof (elim disjE conjE exE)
    assume new: "sys_ok hs ((sysw q)\<lparr>wld := w\<rparr>)" and none: "\<forall>x. r0 = Inr x \<longrightarrow> evs = []"
    have "durable q' = durable q" using none r q'(2) by (auto split: sum.splits)
    with new d q'(1) show ?thesis by (auto simp: recorded_def)
  next
    fix c assume new: "sys_ok (\<lambda>t. hs t @ written evs c (hs t) t) ((sysw q)\<lparr>wld := w\<rparr>)"
    have "\<exists>r \<in> set (hs (ae_tenant ev) @ written evs c (hs (ae_tenant ev)) (ae_tenant ev)). records_event ev r"
      if "ev \<in> set (durable q')" for ev
    proof -
      have "ev \<in> set (durable q) \<or> ev \<in> set evs" using that q'(2) by (auto split: sum.splits)
      then show ?thesis using d written_records [of ev evs c "hs (ae_tenant ev)"] by fastforce
    qed
    with new q'(1) show ?thesis unfolding recorded_def by (intro exI [of _ "\<lambda>t. hs t @ written evs c (hs t) t"]) simp
  qed
qed

lemma recorded_step: "writer_step q q' \<Longrightarrow> recorded q \<Longrightarrow> recorded q'"
proof (induction rule: writer_step.induct)
  case (direct q i evs r w)
  show ?case by (rule recorded_flush [OF direct(4,3)]) (simp_all add: settle_def split: sum.splits)
next
  case (flush q batch r w)
  show ?case by (rule recorded_flush [OF flush(3,2)]) (simp_all add: flushed_def split: sum.splits)
next
  case (run_direct q n evs r w)
  show ?case by (rule recorded_flush [OF run_direct(4,3)]) (simp_all add: settle_def split: sum.splits)
next
  case (others q s)
  then show ?case by (intro recorded_step_sys)
qed (simp_all add: recorded_def)

lemma recorded_reachable:
  assumes "reachable_writer q" shows "recorded q"
proof -
  from assms obtain q0 where "initial_writer q0" and steps: "writer_step\<^sup>*\<^sup>* q0 q" by (auto simp: reachable_writer_def)
  then have "recorded q0" using reachable_ok by (auto simp: initial_writer_def recorded_def)
  with steps show ?thesis by (induction rule: rtranclp_induct) (auto intro: recorded_step)
qed

section \<open>What is left behind\<close>

fun leaving :: "run_phase \<Rightarrow> bool" where
  "leaving (Collecting batch) = False"
| "leaving (Flushing batch) = False"
| "leaving (Backoff batch) = False"
| "leaving (Writing n evs) = True"
| "leaving (Draining evs) = True"
| "leaving Exited = True"

text \<open>The queue has been taken for the last time.\<close>

fun taken :: "run_phase \<Rightarrow> bool" where
  "taken (Writing n evs) = (n = Finish)"
| "taken Exited = True"
| "taken _ = False"

fun will_take :: "caller \<Rightarrow> bool" where
  "will_take Sent = True"
| "will_take (Taking evs) = True"
| "will_take _ = False"

fun writes_itself :: "caller \<Rightarrow> bool" where
  "writes_itself (Taking evs) = True"
| "writes_itself (Direct evs) = True"
| "writes_itself _ = False"

definition tidy :: "writer \<Rightarrow> bool" where
  "tidy q \<longleftrightarrow>
     length (buffer q) \<le> writerBufferSize \<and>
     (\<not> stopping q \<longrightarrow> (\<forall>c \<in> set (callers q). \<not> writes_itself c)) \<and>
     (\<not> stopping q \<and> \<not> cancelled q \<longrightarrow> lost q = [] \<and> \<not> leaving (run_state q)) \<and>
     (taken (run_state q) \<and> buffer q \<noteq> [] \<and> \<not> cancelled q \<longrightarrow> (\<exists>c \<in> set (callers q). will_take c))"

lemma set_update_other: "c \<in> set cs \<Longrightarrow> c \<noteq> cs ! i \<Longrightarrow> c \<in> set (cs[i := x])"
  by (metis in_set_conv_nth length_list_update nth_list_update_neq)

lemma writes_update:
  "\<forall>c \<in> set cs. \<not> writes_itself c \<Longrightarrow> \<not> writes_itself x \<Longrightarrow> \<forall>c \<in> set (cs[i := x]). \<not> writes_itself c"
  using set_update_subset_insert [of cs i x] by auto

lemma will_update:
  "\<exists>c \<in> set cs. will_take c \<Longrightarrow> \<not> will_take (cs ! i) \<Longrightarrow> \<exists>c \<in> set (cs[i := x]). will_take c"
  using set_update_other by metis

lemma will_updated: "i < length cs \<Longrightarrow> will_take x \<Longrightarrow> \<exists>c \<in> set (cs[i := x]). will_take c"
  using set_update_memI by metis

lemma taken_leaving: "taken r \<Longrightarrow> leaving r"
  by (cases r) auto

lemma tidy_caller:
  assumes "tidy q" "callers q' = (callers q)[i := x]" "i < length (callers q)" "run_state q' = run_state q"
    and "stopping q' = stopping q" "cancelled q' = cancelled q" "length (buffer q') \<le> writerBufferSize"
    and "writes_itself x \<Longrightarrow> stopping q" "lost q' = lost q \<or> stopping q \<or> cancelled q"
    and "will_take x \<or> \<not> will_take (callers q ! i) \<and> (buffer q' \<noteq> [] \<longrightarrow> buffer q \<noteq> []) \<or> buffer q' = [] \<or> \<not> stopping q"
  shows "tidy q'"
proof -
  have "\<forall>c \<in> set (callers q'). \<not> writes_itself c" if "\<not> stopping q"
    unfolding assms(2) by (rule writes_update) (use assms(1,8) that in \<open>auto simp: tidy_def\<close>)
  moreover have "\<exists>c \<in> set (callers q'). will_take c" if t: "taken (run_state q)" "buffer q' \<noteq> []" "\<not> cancelled q"
  proof -
    have "stopping q" using assms(1) t taken_leaving by (auto simp: tidy_def)
    with assms(10) t(2) consider "will_take x" | "\<not> will_take (callers q ! i)" "buffer q \<noteq> []" by blast
    then show ?thesis unfolding assms(2)
    proof cases
      case 1
      then show "\<exists>c \<in> set ((callers q)[i := x]). will_take c" using assms(3) by (rule will_updated [rotated])
    next
      case 2
      then show "\<exists>c \<in> set ((callers q)[i := x]). will_take c"
        using assms(1) t by (intro will_update) (auto simp: tidy_def)
    qed
  qed
  ultimately show ?thesis using assms(1,4-7,9) by (auto simp: tidy_def)
qed

lemma tidy_stopping: "tidy q \<Longrightarrow> i < length (callers q) \<Longrightarrow> writes_itself (callers q ! i) \<Longrightarrow> stopping q"
  using nth_mem [of i "callers q"] by (auto simp: tidy_def)

lemma tidy_step: "writer_step q q' \<Longrightarrow> tidy q \<Longrightarrow> tidy q'"
proof (induction rule: writer_step.induct)
  case (call q ev)
  then show ?case by (auto simp: tidy_def Log_first_def)
next
  case (send q i ev)
  show ?case by (rule tidy_caller [where q = q and i = i and x = Sent]) (use send in simp_all)
next
  case (refuse q i ev)
  show ?case by (rule tidy_caller [where q = q and i = i and x = "Direct [ev]"]) (use refuse in \<open>simp_all add: tidy_def\<close>)
next
  case (again q i)
  show ?case by (rule tidy_caller [where q = q and i = i and x = "Log_again q"])
      (use again in \<open>simp_all add: tidy_def Log_again_def split: if_splits\<close>)
next
  case (take q i evs ev rest)
  have "stopping q" by (rule tidy_stopping [of q i]) (use take in simp_all)
  then show ?case by - (rule tidy_caller [where q = q and i = i and x = "Taking (evs @ [ev])"], use take in \<open>simp_all add: tidy_def\<close>)
next
  case (took q i evs)
  have "stopping q" by (rule tidy_stopping [of q i]) (use took in simp_all)
  then show ?case by - (rule tidy_caller [where q = q and i = i and x = "Direct evs"], use took in \<open>simp_all add: tidy_def\<close>)
next
  case (direct q i evs r w)
  have "stopping q" by (rule tidy_stopping [of q i]) (use direct in simp_all)
  then show ?case by - (rule tidy_caller [where q = q and i = i and x = "Direct (drop batchSize evs)"], use direct in \<open>simp_all add: tidy_def\<close>)
next
  case (return q i)
  show ?case by (rule tidy_caller [where q = q and i = i and x = Returned]) (use return in \<open>simp_all add: tidy_def\<close>)
next
  case (receive q batch ev rest)
  then show ?case by (auto simp: tidy_def collected_def)
next
  case (tick q batch)
  then show ?case by (auto simp: tidy_def ticked_def)
next
  case (flush q batch r w)
  then show ?case by (auto simp: tidy_def flushed_def split: sum.splits)
next
  case (run_direct q n evs r w)
  then show ?case by (auto simp: tidy_def)
next
  case (run_direct_done q n)
  then show ?case by (cases n) (auto simp: tidy_def)
qed (auto simp: tidy_def)

lemma tidy_reachable:
  assumes "reachable_writer q" shows "tidy q"
proof -
  from assms obtain q0 where "initial_writer q0" and steps: "writer_step\<^sup>*\<^sup>* q0 q" by (auto simp: reachable_writer_def)
  then have "tidy q0" by (simp add: initial_writer_def tidy_def)
  with steps show ?thesis by (induction rule: rtranclp_induct) (auto intro: tidy_step)
qed

end
