(* ===== verification/AuditProperties.thy ===== *)
theory AuditProperties
  imports AuditCatchUp AuditQueue
begin

text \<open>
  The properties of the audit trail: no interleaving of writers, retention and exporters breaks a
  chain, loses a record or exports it twice; a change that keeps a later hash is found; a write
  appends; retention removes exactly what is old and exported; the export catches up; and no event given
  to the queue disappears.
\<close>

section \<open>A trail for the witnesses\<close>

definition empty_audit_db :: audit_db where
  "empty_audit_db =
     \<lparr>audit_log = [], anchors = \<lambda>_. None, cursors = \<lambda>_. None, tenant_months = \<lambda>_. None,
      next_row_id = 1, text_ok = \<lambda>_. True\<rparr>"

definition demo_audit :: audit_world where
  "demo_audit = \<lparr>adb = empty_audit_db, bucket = \<lambda>_. None, afaults = [],
      anow = \<lambda>n. if n < 2 then 0 else 63072000000000000, aticks = 0\<rparr>"

definition demo_sys :: audit_sys where
  "demo_sys = \<lparr>wld = demo_audit, procs = \<lambda>_. Idle\<rparr>"

definition demo_entry :: "string \<Rightarrow> audit_entry" where
  "demo_entry a =
     \<lparr>ae_tenant = ''acme'', ae_actor = ''u1'', ae_actor_type = [], ae_action = a, ae_target_type = ''team'',
      ae_target_id = ''t1'', ae_decision = [], ae_metadata = []\<rparr>"

lemma demo_initial: "initial_sys demo_sys"
  by (simp add: initial_sys_def demo_sys_def demo_audit_def empty_audit_db_def)

lemma demo_reachable: "reachable_sys demo_sys"
  unfolding reachable_sys_def using demo_initial by blast

definition demo_batch :: "audit_entry list" where
  "demo_batch = [demo_entry ''create'', demo_entry ''delete'']"

definition demo_chain_rows :: "chain_row list" where
  "demo_chain_rows = new_rows ''acme'' 0 0 chainGenesis demo_batch"

definition demo_filled :: audit_world where
  "demo_filled = demo_audit\<lparr>adb := empty_audit_db\<lparr>audit_log := number_rows 1 demo_chain_rows, next_row_id := 3\<rparr>, aticks := Suc 0\<rparr>"

text \<open>A write of two events to an empty trail.\<close>

lemma demo_insert: "Writer_insert demo_batch demo_audit = (Inr 1, demo_filled)"
proof -
  have tenants: "batch_tenants demo_batch = [''acme'']"
    by (simp add: batch_tenants_def demo_batch_def demo_entry_def)
  have mine: "byTenant demo_batch ''acme'' = demo_batch"
    by (simp add: byTenant_def demo_batch_def demo_entry_def)
  let ?w = "demo_audit\<lparr>aticks := Suc 0\<rparr>"
  have calm: "afaults ?w = []" "afaults demo_audit = []" by (simp_all add: demo_audit_def)
  have empty: "adb ?w = empty_audit_db" by (simp add: demo_audit_def)
  have "chainHead ''acme'' ?w = (Inr (0, chainGenesis), ?w)"
    by (simp add: chainHead_def chainAnchor_def calm_rules [OF calm(1)] empty newest_def chained_def
        empty_audit_db_def bnd_def ret_def)
  then have "chain_tenant demo_batch 0 ''acme'' ?w = (Inr demo_chain_rows, ?w)"
    by (simp add: chain_tenant_def calm_rules [OF calm(1)] bnd_def ret_def mine demo_chain_rows_def)
  then have rows: "chain_tenants demo_batch 0 [''acme''] ?w = (Inr demo_chain_rows, ?w)"
    by (simp add: bnd_def ret_def)
  have "insert_rows demo_chain_rows (adb ?w) = Some (1, empty_audit_db\<lparr>audit_log := number_rows 1 demo_chain_rows, next_row_id := 3\<rparr>)"
    unfolding empty
    by (simp add: insert_rows_def storable_def positions_free_def empty_audit_db_def demo_chain_rows_def demo_batch_def)
  from calm_aexec [where st = "insert_rows demo_chain_rows", OF calm(1) this]
  have ins: "aexec (insert_rows demo_chain_rows) ?w = (Inr 1, demo_filled)" by (simp add: demo_filled_def)
  have clk: "aclock demo_audit = (Inr 0, ?w)" by (simp add: aclock_def demo_audit_def)
  have "Writer_insert_tx demo_batch demo_audit = (Inr (1, True), demo_filled)"
    by (simp add: Writer_insert_tx_def bnd_def clk tenants rows ins ret_def del: chain_tenants.simps)
  from calm_atx [where body = "Writer_insert_tx demo_batch", OF calm(2) this]
  show ?thesis by (simp add: Writer_insert_def demo_batch_def demo_filled_def demo_audit_def)
qed

lemma demo_filled_reachable: "reachable_sys (demo_sys\<lparr>wld := demo_filled\<rparr>)"
proof -
  have "audit_step demo_sys (demo_sys\<lparr>wld := demo_filled\<rparr>)"
    by (rule audit_step.insert [of demo_batch _ "Inr 1"]) (simp add: demo_insert demo_sys_def)
  then show ?thesis unfolding reachable_sys_def using demo_initial by blast
qed

text \<open>It is exported by one exporter, step by step, and pruned two years later.\<close>

definition demo_policy :: export_policy where
  "demo_policy = \<lparr>ep_mode = ''GOVERNANCE'', ep_days = 400\<rparr>"

definition demo_exported :: audit_world where
  "demo_exported = done_in demo_policy ''acme'' 1 2 (claim_in ''acme'' (1, 2) demo_filled)"

definition demo_pruned :: audit_world where
  "demo_pruned =
     demo_exported\<lparr>aticks := Suc (Suc (Suc 0)),
       adb := pruned ''acme'' 2 (cr_entry (last demo_chain_rows)) 63072000000000 (adb demo_exported)\<rparr>"

lemma demo_chain: "chain_of ''acme'' (adb demo_filled) = demo_chain_rows"
  by (simp add: chain_of_def chained_def demo_filled_def demo_audit_def empty_audit_db_def
      demo_chain_rows_def demo_batch_def stored_row_def scan_row_def coalesce_text_def new_row_def unhashed_row_def demo_entry_def)

lemma demo_next: "next_range ''acme'' 0 500 (adb demo_filled) = Some (1, 2)"
  by (simp add: next_range_def chained_def demo_filled_def demo_audit_def empty_audit_db_def
      demo_chain_rows_def demo_batch_def stored_row_def new_row_def unhashed_row_def)

lemma demo_export_steps: "audit_step\<^sup>*\<^sup>* (demo_sys\<lparr>wld := demo_filled\<rparr>) (demo_sys\<lparr>wld := demo_exported\<rparr>)"
proof -
  let ?t = "''acme''" and ?w = demo_filled
  let ?c = "claim_in ?t (1, 2) ?w"
  let ?p = "put_in demo_policy ?t 1 2 ?c"
  obtain hs where ok: "trails hs ?w" using reachable_ok [OF demo_filled_reachable] by (auto simp: sys_ok_def)
  have calm: "afaults ?w = []" "afaults ?c = []" by (simp_all add: claim_in_def demo_filled_def demo_audit_def)
  have none: "pending_of ?t (adb ?w) = None" "exported_seq ?t (adb ?w) = 0"
    by (simp_all add: pending_of_def exported_seq_def demo_filled_def demo_audit_def empty_audit_db_def)
  have "tenant_known ?t (adb ?w)"
    by (simp add: tenant_known_def demo_filled_def demo_audit_def empty_audit_db_def)
  from calm_claim [OF calm(1) this ok [unfolded trails_def, rule_format], of 500] none demo_next
  have claim: "claimRange 500 ?t ?w = (Inr (Some (1, 2)), ?c)" by simp
  have okc: "trails hs ?c" using claim_step [OF ok claim] by simp
  have c: "pending_of ?t (adb ?c) = Some (1, 2)" "exported_seq ?t (adb ?c) = 0"
    by (simp_all add: claim_in_def pending_of_def exported_seq_def none(2) [unfolded exported_seq_def])
  have "cursor_ok ?t (hs ?t) (adb ?c)" using okc by (simp add: trails_def trail_def)
  with c have len: "2 \<le> int (length (hs ?t))" by (simp add: cursor_ok_def)
  have load: "load_range ?t 1 2 ?c = (Inr (read_range ?t 1 2 (adb ?c)), ?c)"
    by (rule calm_load [OF calm(2) okc [unfolded trails_def, rule_format]]) (use c len in simp_all)
  let ?s = "\<lambda>w e. \<lparr>wld = w, procs = (\<lambda>_. Idle)(0 := e)\<rparr>"
  have "audit_step (demo_sys\<lparr>wld := ?w\<rparr>) (?s ?c (Claimed ?t 1 2))"
    using audit_step.claim [of "demo_sys\<lparr>wld := ?w\<rparr>" 0 ?t 500] claim
    by (simp add: demo_sys_def after_claim_def)
  moreover have "audit_step (?s ?c (Claimed ?t 1 2)) (?s ?c (Loaded ?t 1 2 (read_range ?t 1 2 (adb ?c))))"
    using audit_step.load [of "?s ?c (Claimed ?t 1 2)" 0 ?t 1 2] load by (simp add: after_load_def)
  moreover have "audit_step (?s ?c (Loaded ?t 1 2 (read_range ?t 1 2 (adb ?c)))) (?s ?p (Stored ?t 1 2))"
    using audit_step.put [of "?s ?c (Loaded ?t 1 2 (read_range ?t 1 2 (adb ?c)))" 0 ?t 1 2 "read_range ?t 1 2 (adb ?c)" demo_policy]
      calm_put [OF calm(2), of demo_policy ?t 1 2] by (simp add: after_put_def)
  moreover have "audit_step (?s ?p (Stored ?t 1 2)) (demo_sys\<lparr>wld := demo_exported\<rparr>)"
    using audit_step.move [of "?s ?p (Stored ?t 1 2)" 0 ?t 1 2] calm_advance [OF calm(2) c(1), of demo_policy]
    by (simp add: demo_sys_def demo_exported_def fun_upd_idem)
  ultimately show ?thesis
    by (blast intro: converse_rtranclp_into_rtranclp [of audit_step])
qed

lemma demo_year: "year_of 719892 = 1972"
  by (simp add: year_of_def days_before_year_def find_year.simps [of _ 1967] find_year.simps [of _ 1968]
      find_year.simps [of _ 1969] find_year.simps [of _ 1970] find_year.simps [of _ 1971] find_year.simps [of _ 1972])

lemma demo_cutoff: "to_timestamptz (minus_months 63072000000000000 13) = 28857600000000"
proof -
  have "nat (63072000000000000 div day_ns + int unix_epoch_days) = 719892" by (simp add: day_ns_def unix_epoch_days_def)
  moreover have "719892 - days_before_year 1972 = 0" by (simp add: days_before_year_def)
  moreover have "month_of l 0 = 0" "days_before_month l ! 0 = 0" for l by (simp_all add: month_of_def days_before_month_def)
  moreover have "date_day 1970 11 0 = 719496"
    by (simp add: date_day_def year_start_def leap_year_def days_before_month_def)
  ultimately have "minus_months 63072000000000000 13 = 28857600000000000"
    by (simp add: minus_months_def Let_def demo_year) (simp add: unix_epoch_days_def day_ns_def)
  then show ?thesis by (simp add: to_timestamptz_def)
qed

lemma calm_period:
  "afaults w = [] \<Longrightarrow> periodOfTenant months t w =
     (Inr (case tenant_months (adb w) t of None \<Rightarrow> months | Some m \<Rightarrow> max m months), w)"
  by (simp add: periodOfTenant_def calm_bnd_aquery ret_def)

lemma calm_prune:
  assumes calm: "afaults w = []" and x: "last_old t (prune_cutoff months t w (aticks w)) (adb w) = Some x"
    and ok: "t \<noteq> []" "length (ar_entry x) = chainHashLen" "0 \<le> the (ar_seq x)"
  shows "PruneTenant months t w =
    (Inr (int (length (filter (removable t (the (ar_seq x))) (audit_log (adb w))))),
     w\<lparr>aticks := Suc (aticks w),
       adb := pruned t (the (ar_seq x)) (ar_entry x) (to_timestamptz (anow w (aticks w))) (adb w)\<rparr>)"
proof -
  let ?now = "anow w (aticks w)" and ?s = "the (ar_seq x)" and ?w1 = "w\<lparr>aticks := Suc (aticks w)\<rparr>"
  let ?d = "(adb w)\<lparr>anchors := (anchors (adb w))(t := Some \<lparr>an_first = ?s + 1, an_prev = ar_entry x, an_pruned = to_timestamptz ?now\<rparr>)\<rparr>"
  let ?k = "int (length (filter (removable t ?s) (audit_log (adb w))))"
  let ?w3 = "?w1\<lparr>adb := pruned t ?s (ar_entry x) (to_timestamptz ?now) (adb w)\<rparr>"
  have calm1: "afaults ?w1 = []" "afaults (?w1\<lparr>adb := ?d\<rparr>) = []" using calm by simp_all
  have "upsert_anchor t (?s + 1) (ar_entry x) (to_timestamptz ?now) (adb ?w1) = Some ((), ?d)"
    using ok by (simp add: upsert_anchor_def chainHashLen_def)
  note up = calm_aexec [where st = "upsert_anchor t (?s + 1) (ar_entry x) (to_timestamptz ?now)", OF calm1(1) this]
  have "delete_rows t ?s (adb (?w1\<lparr>adb := ?d\<rparr>)) = Some (?k, adb ?w3)" by (simp add: delete_rows_def pruned_def)
  note del = calm_aexec [where st = "delete_rows t ?s", OF calm1(2) this]
  have clk: "aclock w = (Inr ?now, ?w1)" by (simp add: aclock_def)
  have "PruneTenant_tx months t w = (Inr (?k, True), ?w3)"
    using x ok(2) unfolding prune_cutoff_def
    by (simp add: PruneTenant_tx_def bnd_def calm_lock [OF calm] calm_period [OF calm] clk calm_aquery [OF calm1(1)] up del ret_def)
  from calm_atx [where body = "PruneTenant_tx months t", OF calm this] calm ok(1) show ?thesis
    by (simp add: PruneTenant_def)
qed

lemma demo_prune: "PruneTenant 13 ''acme'' demo_exported = (Inr 2, demo_pruned)"
proof -
  let ?t = "''acme''" and ?w = demo_exported
  have w: "afaults ?w = []" "aticks ?w = Suc (Suc 0)" "anow ?w (Suc (Suc 0)) = 63072000000000000" "tenant_months (adb ?w) ?t = None"
    "audit_log (adb ?w) = number_rows 1 demo_chain_rows" "exported_seq ?t (adb ?w) = 2"
    by (simp_all add: demo_exported_def done_in_def put_in_def claim_in_def demo_filled_def demo_audit_def empty_audit_db_def
        exported_seq_def)
  have c: "prune_cutoff 13 ?t ?w (Suc (Suc 0)) = 28857600000000" by (simp add: prune_cutoff_def w demo_cutoff)
  let ?x = "stored_row 2 (last demo_chain_rows)"
  have x: "ar_seq ?x = Some 2" "ar_entry ?x = cr_entry (last demo_chain_rows)"
    by (simp_all add: demo_chain_rows_def demo_batch_def stored_row_def)
  have rows: "chained ?t (adb ?w) = number_rows 1 demo_chain_rows" "\<forall>r \<in> set (number_rows 1 demo_chain_rows). ar_created r = 0"
    "number_rows 1 demo_chain_rows = [stored_row 1 (hd demo_chain_rows), ?x]" "filter (removable ?t 2) (number_rows 1 demo_chain_rows) = number_rows 1 demo_chain_rows"
    "ar_seq (stored_row 1 (hd demo_chain_rows)) = Some 1"
    by (simp_all add: chained_def w demo_chain_rows_def demo_batch_def stored_row_def removable_def)
  have "filter (\<lambda>r. 28857600000000 \<le> ar_created r) (number_rows 1 demo_chain_rows) = []"
    using rows(2) by (simp add: filter_empty_conv)
  then have "last_old ?t 28857600000000 (adb ?w) = Some ?x"
    unfolding last_old_def first_inside_def w(6) rows(1) by (simp add: rows(3,5) x(1))
  moreover have "length (ar_entry ?x) = chainHashLen"
    unfolding x(2) by (simp add: demo_chain_rows_def demo_batch_def new_row_entry computeEntryHash_def chainHashLen_def)
  moreover have "to_timestamptz 63072000000000000 = 63072000000000" by (simp add: to_timestamptz_def)
  moreover have "length (number_rows 1 demo_chain_rows) = 2" by (simp add: demo_chain_rows_def demo_batch_def)
  ultimately show ?thesis
    using calm_prune [of ?w ?t 13 ?x] unfolding c x option.sel w(1,2,3,5) rows(4) demo_pruned_def by simp
qed

lemma demo_prune_step: "audit_step (demo_sys\<lparr>wld := demo_exported\<rparr>) (demo_sys\<lparr>wld := demo_pruned\<rparr>)"
  using audit_step.prune [of 13 "''acme''" "demo_sys\<lparr>wld := demo_exported\<rparr>"] demo_prune by simp

section \<open>Integrity\<close>

lemma VerifyChain_report:
  assumes "VerifyChain t w = (Inr rp, w')"
  shows "Intact rp \<longleftrightarrow> linked t (anchor_seq t (adb w)) (anchor_hash t (adb w)) (chain_of t (adb w))"
proof -
  from assms obtain n w1 fp w2 rows w3 where q: "aquery (unchained t) w = (Inr n, w1)"
    and a: "chainAnchor t w1 = (Inr fp, w2)" and r: "aquery (chain_of t) w2 = (Inr rows, w3)"
    and rp: "rp = verify_rows (fst fp) (snd fp) rows
      \<lparr>rp_tenant = t, rp_chained = 0, rp_unchained = n, rp_first = fst fp, rp_break = ChainIntact, rp_break_seq = 0\<rparr>"
    by (auto simp: VerifyChain_def split: if_splits prod.splits)
  have d1: "adb w1 = adb w" using aquery_Inr [OF q] by (simp add: same_data_def)
  have d2: "adb w2 = adb w" using alongD [OF reads_chainAnchor a] d1 by (simp add: same_data_def)
  obtain f p where fp: "fp = (f, p)" by force
  have "f = anchor_seq t (adb w)" "p = anchor_hash t (adb w)" using chainAnchor_Inr [of t w1 f p w2] a d1 fp by simp_all
  moreover have "rows = chain_of t (adb w)" using aquery_Inr [OF r] d2 by simp
  moreover have "\<forall>r \<in> set (chain_of t (adb w)). cr_tenant r = t" by (auto simp: chain_of_def scan_row_def)
  ultimately show ?thesis unfolding Intact_def rp fp by (simp add: verify_rows_intact)
qed

lemma VerifyChain_answers:
  assumes "sys_ok hs s" "t \<noteq> []" "afaults (wld s) = []"
  shows "\<exists>rp. VerifyChain t (wld s) = (Inr rp, wld s)"
proof -
  let ?w = "wld s" and ?d = "adb (wld s)"
  have log: "log_ok t (hs t) ?d" using assms(1) by (simp add: sys_ok_def trails_def trail_def)
  then have "1 \<le> anchor_seq t ?d" by (simp add: log_ok_def)
  moreover have "length (anchor_hash t ?d) = chainHashLen"
  proof -
    have "linked t 1 chainGenesis (take (nat (anchor_seq t ?d - 1)) (hs t))"
      using log linked_append [of t 1 chainGenesis "take (nat (anchor_seq t ?d - 1)) (hs t)"]
      by (metis append_take_drop_id log_ok_def)
    from length_end_hash [OF this] log show ?thesis by (simp add: log_ok_def chainGenesis_def)
  qed
  ultimately have "\<not> (an_first a < 1 \<or> length (an_prev a) \<noteq> chainHashLen)" if "anchors ?d t = Some a" for a
    using that by (simp add: anchor_seq_def anchor_hash_def)
  then obtain f p where anchor: "chainAnchor t ?w = (Inr (f, p), ?w)"
    by (cases "anchors ?d t") (auto simp: chainAnchor_def calm_rules [OF assms(3)] ret_def)
  show ?thesis
    by (simp add: VerifyChain_def assms(2) calm_rules [OF assms(3)] bnd_def anchor ret_def)
qed

text \<open>
  C8: in every state that writers, retention, settings and exporters can reach together, with any
  failure of the database on the way, \<open>VerifyChain\<close> finds the chain of every tenant intact; and when
  the database works it gives its report.
\<close>

theorem audit_chain_verifies:
  assumes "reachable_sys s" "t \<noteq> []"
  shows "(\<forall>rp w'. VerifyChain t (wld s) = (Inr rp, w') \<longrightarrow> Intact rp) \<and>
    (afaults (wld s) = [] \<longrightarrow> (\<exists>rp w'. VerifyChain t (wld s) = (Inr rp, w')))"
proof -
  obtain hs where ok: "sys_ok hs s" using reachable_ok [OF assms(1)] by blast
  then have "log_ok t (hs t) (adb (wld s))" by (simp add: sys_ok_def trails_def trail_def)
  from log_ok_suffix(1) [OF this] VerifyChain_report VerifyChain_answers [OF ok assms(2)] show ?thesis by blast
qed

theorem audit_chain_verifies_witness:
  "\<exists>rp w'. VerifyChain ''acme'' demo_filled = (Inr rp, w') \<and> Intact rp"
  using audit_chain_verifies [OF demo_filled_reachable, of "''acme''"]
  by (simp add: demo_filled_def demo_audit_def) blast

text \<open>
  C12: whoever changes or removes rows of a chain without a new hash in every later row is found out.
  When the chains of a tenant in two tables both verify from the same anchor, and the rows at one
  place of them have the same hash, all rows up to that place are the same; otherwise two of the rows are
  a collision of SHA-256.
\<close>

theorem tampering_is_found:
  assumes "VerifyChain t w = (Inr rp, w1)" "Intact rp" "VerifyChain t v = (Inr rq, v1)" "Intact rq"
    and "anchors (adb v) t = anchors (adb w) t"
    and "i < length (chain_of t (adb v))" "i < length (chain_of t (adb w))"
    and "cr_entry (chain_of t (adb v) ! i) = cr_entry (chain_of t (adb w) ! i)"
    and "\<forall>r \<in> set (chain_of t (adb v)) \<union> set (chain_of t (adb w)). row_ok r"
  shows "take (Suc i) (chain_of t (adb v)) = take (Suc i) (chain_of t (adb w)) \<or>
    collision (chain_of t (adb v)) (chain_of t (adb w))"
proof -
  let ?v = "take (Suc i) (chain_of t (adb v))" and ?w = "take (Suc i) (chain_of t (adb w))"
  let ?n = "anchor_seq t (adb w)" and ?p = "anchor_hash t (adb w)"
  have "anchor_seq t (adb v) = ?n" "anchor_hash t (adb v) = ?p"
    using assms(5) by (simp_all add: anchor_seq_def anchor_hash_def)
  then have l: "linked t ?n ?p ?v" "linked t ?n ?p ?w"
    using VerifyChain_report [OF assms(1)] VerifyChain_report [OF assms(3)] assms(2,4) by (auto intro: linked_take)
  have "end_hash ?p ?v = end_hash ?p ?w" using assms(6-8) by (simp add: take_Suc_conv_app_nth)
  then have "?v = ?w \<or> collision ?v ?w"
    by (intro linked_unique [OF l]) (use assms(6,7,9) in \<open>auto dest: in_set_takeD\<close>)
  then show ?thesis by (auto simp: collision_def dest: in_set_takeD)
qed

lemma demo_rows_ok: "r \<in> set demo_chain_rows \<Longrightarrow> row_ok r"
  by (auto simp: demo_chain_rows_def demo_batch_def row_ok_def new_row_def unhashed_row_def demo_entry_def short_def
      chainGenesis_def chainHashLen_def computeEntryHash_def)

theorem tampering_is_found_witness:
  "(\<exists>rp w1. VerifyChain ''acme'' demo_filled = (Inr rp, w1) \<and> Intact rp) \<and> length demo_chain_rows = 2 \<and>
   (take 2 (chain_of ''acme'' (adb demo_filled)) = demo_chain_rows \<or> collision demo_chain_rows demo_chain_rows)"
proof -
  obtain hs where ok: "sys_ok hs (demo_sys\<lparr>wld := demo_filled\<rparr>)" using reachable_ok [OF demo_filled_reachable] by blast
  have "afaults demo_filled = []" by (simp add: demo_filled_def demo_audit_def)
  with VerifyChain_answers [OF ok, of "''acme''"]
  obtain rp where run: "VerifyChain ''acme'' demo_filled = (Inr rp, demo_filled)" by auto
  have "log_ok ''acme'' (hs ''acme'') (adb demo_filled)" using ok by (simp add: sys_ok_def trails_def trail_def)
  from log_ok_suffix(1) [OF this] VerifyChain_report [OF run] have intact: "Intact rp" by simp
  have len: "length demo_chain_rows = 2" by (simp add: demo_chain_rows_def demo_batch_def)
  from tampering_is_found [OF run intact run intact, of 1] demo_rows_ok run intact len show ?thesis
    by (auto simp: demo_chain)
qed

section \<open>Nothing is lost, nothing is exported twice\<close>

lemma consecutive_disjoint:
  assumes "consecutive m rs n" "(lo, hi) \<in> set rs" "(lo', hi') \<in> set rs" "lo \<le> q" "q \<le> hi" "lo' \<le> q" "q \<le> hi'"
  shows "lo = lo' \<and> hi = hi'"
  using assms
proof (induction rs arbitrary: m)
  case (Cons r rs)
  obtain a b where r: "r = (a, b)" by force
  with Cons.prems(1) have rest: "consecutive b rs n" by simp
  then have "\<forall>(x, y) \<in> set rs. b < x" using consecutive_bound by fastforce
  then show ?case using Cons.IH [OF rest] Cons.prems(2-) r by fastforce
qed simp

lemma span_seq:
  assumes h: "linked t 1 chainGenesis h" and lo: "1 \<le> lo" and r: "r \<in> set (span_of h lo hi)"
  shows "lo \<le> cr_seq r \<and> cr_seq r \<le> hi"
proof -
  from r obtain j where j: "j < nat (hi - lo + 1)" "nat (lo - 1) + j < length h" "r = h ! (nat (lo - 1) + j)"
    by (auto simp: span_of_def in_set_conv_nth)
  then show ?thesis using linked_seq [OF h j(2)] lo by auto
qed

text \<open>
  C3: no record is lost. A record of a tenant's chain that is in the database is, after whatever
  writers, retention, settings, exporters, crashes and failures come, still in the database or in an
  exported object of that tenant.
\<close>

theorem no_record_lost:
  assumes "reachable_sys s" "audit_step\<^sup>*\<^sup>* s s'" "r \<in> set (chain_of t (adb (wld s)))"
  shows "r \<in> set (chain_of t (adb (wld s'))) \<or>
    (\<exists>lo hi obj. bucket (wld s') (ExportObjectKey t lo hi) = Some obj \<and> r \<in> er_row ` set (so_records obj))"
proof -
  obtain hs where "sys_ok hs s" using reachable_ok [OF assms(1)] by blast
  with steps_ok [OF assms(2)] obtain ext where ok: "sys_ok hs s" "sys_ok (\<lambda>t. hs t @ ext t) s'" by blast
  then have "r \<in> set (hs t @ ext t)"
    using assms(3) by (auto simp: sys_ok_def trails_def trail_def log_ok_def dest: in_set_dropD)
  from kept_somewhere [OF ok(2) this] show ?thesis .
qed

theorem no_record_lost_witness:
  "chain_of ''acme'' (adb demo_pruned) = [] \<and>
   (\<exists>lo hi obj. bucket demo_pruned (ExportObjectKey ''acme'' lo hi) = Some obj \<and>
      hd demo_chain_rows \<in> er_row ` set (so_records obj))"
proof -
  have "audit_step\<^sup>*\<^sup>* (demo_sys\<lparr>wld := demo_filled\<rparr>) (demo_sys\<lparr>wld := demo_pruned\<rparr>)"
    using demo_export_steps demo_prune_step by (rule rtranclp.rtrancl_into_rtrancl)
  moreover have "hd demo_chain_rows \<in> set (chain_of ''acme'' (adb demo_filled))"
    unfolding demo_chain by (simp add: demo_chain_rows_def demo_batch_def)
  moreover have "chain_of ''acme'' (adb demo_pruned) = []"
    by (simp add: chain_of_def demo_pruned_def chained_pruned)
      (simp add: chained_def demo_exported_def done_in_def put_in_def claim_in_def demo_filled_def demo_audit_def
        empty_audit_db_def demo_chain_rows_def demo_batch_def stored_row_def removable_def)
  ultimately show ?thesis using no_record_lost [OF demo_filled_reachable, of "demo_sys\<lparr>wld := demo_pruned\<rparr>" "hd demo_chain_rows" "''acme''"]
    by simp
qed

text \<open>
  C13: no record is exported twice. Two objects of a tenant that both hold a record of the same
  position are the same object, whatever the exporters did, and its records are of the positions that its
  name says.
\<close>

theorem exported_once:
  assumes "reachable_sys s" "0 \<le> lo" "0 \<le> hi" "0 \<le> lo'" "0 \<le> hi'"
    and "bucket (wld s) (ExportObjectKey t lo hi) = Some a" "bucket (wld s) (ExportObjectKey t lo' hi') = Some b"
    and "x \<in> set (so_records a)" "y \<in> set (so_records b)" "cr_seq (er_row x) = cr_seq (er_row y)"
  shows "lo = lo' \<and> hi = hi' \<and> a = b \<and> lo \<le> cr_seq (er_row x) \<and> cr_seq (er_row x) \<le> hi"
proof -
  obtain hs where ok: "sys_ok hs s" using reachable_ok [OF assms(1)] by blast
  let ?h = "hs t" and ?d = "adb (wld s)" and ?b = "bucket (wld s)" and ?q = "cr_seq (er_row x)"
  have log: "linked t 1 chainGenesis ?h" and cur: "cursor_ok t ?h ?d" and obj: "objects_ok t ?h ?d ?b"
    using ok by (simp_all add: sys_ok_def trails_def trail_def log_ok_def)
  from obj obtain rs where rs: "consecutive 0 rs (exported_seq t ?d)"
    and objs: "\<And>lo hi obj. 0 \<le> lo \<Longrightarrow> 0 \<le> hi \<Longrightarrow> ?b (ExportObjectKey t lo hi) = Some obj \<Longrightarrow>
       ((lo, hi) \<in> set rs \<or> pending_of t ?d = Some (lo, hi)) \<and> map er_row (so_records obj) = span_of ?h lo hi"
    by (auto simp: objects_ok_def)
  note A = objs [OF assms(2,3,6)] and B = objs [OF assms(4,5,7)]
  have bound: "1 \<le> u \<and> v \<le> exported_seq t ?d \<or> 1 \<le> u \<and> exported_seq t ?d < u \<and> pending_of t ?d = Some (u, v)"
    if "(u, v) \<in> set rs \<or> pending_of t ?d = Some (u, v)" for u v
    using that consecutive_bound [OF rs] cur by (auto simp: cursor_ok_def)
  have "er_row x \<in> set (span_of ?h lo hi)" "er_row y \<in> set (span_of ?h lo' hi')"
    using assms(8,9) A B by (metis image_eqI set_map)+
  then have q: "lo \<le> ?q \<and> ?q \<le> hi" "lo' \<le> ?q \<and> ?q \<le> hi'"
    using span_seq [OF log] bound A B assms(10) by metis+
  have "lo = lo' \<and> hi = hi'"
  proof (cases "(lo, hi) \<in> set rs \<and> (lo', hi') \<in> set rs")
    case True
    then show ?thesis using consecutive_disjoint [OF rs] q by blast
  next
    case False
    have "(lo, hi) \<in> set rs \<Longrightarrow> hi \<le> exported_seq t ?d" "(lo', hi') \<in> set rs \<Longrightarrow> hi' \<le> exported_seq t ?d"
      using consecutive_bound [OF rs] by auto
    moreover have "pending_of t ?d = Some (u, v) \<Longrightarrow> u = exported_seq t ?d + 1" for u v
      using cur by (simp add: cursor_ok_def)
    ultimately show ?thesis using False A B q by force
  qed
  then show ?thesis using assms(6,7) q by auto
qed

theorem exported_once_witness:
  "\<exists>a x. bucket demo_exported (ExportObjectKey ''acme'' 1 2) = Some a \<and> x \<in> set (so_records a) \<and>
     1 \<le> cr_seq (er_row x) \<and> cr_seq (er_row x) \<le> 2"
proof -
  have "reachable_sys (demo_sys\<lparr>wld := demo_exported\<rparr>)"
    using demo_filled_reachable demo_export_steps unfolding reachable_sys_def by (meson rtranclp_trans)
  moreover obtain a where a: "bucket demo_exported (ExportObjectKey ''acme'' 1 2) = Some a"
    "so_records a = read_range ''acme'' 1 2 (adb (claim_in ''acme'' (1, 2) demo_filled))"
    by (simp add: demo_exported_def done_in_def put_in_def)
  moreover have "so_records a \<noteq> []"
    by (simp add: a(2) read_range_def chained_def claim_in_def demo_filled_def demo_audit_def empty_audit_db_def
        demo_chain_rows_def demo_batch_def stored_row_def)
  then have "hd (so_records a) \<in> set (so_records a)" by simp
  ultimately show ?thesis
    using exported_once [of "demo_sys\<lparr>wld := demo_exported\<rparr>" 1 2 1 2 "''acme''" a a "hd (so_records a)" "hd (so_records a)"]
    by auto
qed

section \<open>Writing\<close>

lemma insert_anchors:
  assumes "Writer_insert batch w = (r, w')" shows "anchors (adb w') = anchors (adb w)"
proof (cases "batch = []")
  case False
  with assms have "atx (Writer_insert_tx batch) w = (r, w')" by (simp add: Writer_insert_def)
  then show ?thesis
  proof (cases rule: atx_cases)
    case (2 w1 x w2)
    from 2(2) obtain now w3 rows w4 where clk: "aclock w1 = (Inr now, w3)"
      and rows: "chain_tenants batch (now div 1000) (batch_tenants batch) w3 = (Inr rows, w4)"
      and ins: "aexec (insert_rows rows) w4 = (Inr x, w2)" by (auto simp: Writer_insert_tx_def)
    have "adb w4 = adb w" using alongD [OF reads_aclock clk] alongD [OF reads_chain_tenants rows] 2(1)
      by (simp add: same_data_def)
    moreover have "anchors d' = anchors d" if "insert_rows rows d = Some (i, d')" for d d' i
      using that by (auto simp: insert_rows_def split: if_splits)
    ultimately show ?thesis using aexec_Inr [OF ins] 2(3) by metis
  qed simp
qed (use assms in \<open>simp add: Writer_insert_def\<close>)

text \<open>
  C14: a write appends. After \<open>insert\<close> the chain of every tenant is its old chain followed by one row for
  each event of the batch of that tenant, in their order, at the next positions, each with the hash of
  the row before it; or the call failed and every chain is as it was.
\<close>

theorem Writer_insert_appends:
  assumes "reachable_sys s" "Writer_insert batch (wld s) = (r, w')"
  shows "(\<exists>n. \<forall>t. chain_of t (adb w') = chain_of t (adb (wld s)) @
       new_rows t (anow (wld s) n div 1000) (anchor_seq t (adb (wld s)) + int (length (chain_of t (adb (wld s)))) - 1)
         (end_hash (anchor_hash t (adb (wld s))) (chain_of t (adb (wld s)))) (byTenant batch t)) \<or>
    (\<exists>e. r = Inl e) \<and> (\<forall>t. chain_of t (adb w') = chain_of t (adb (wld s)))"
proof -
  obtain hs where ok: "trails hs (wld s)" using reachable_ok [OF assms(1)] by (auto simp: sys_ok_def)
  let ?d = "adb (wld s)"
  have a: "anchor_seq t (adb w') = anchor_seq t ?d" for t
    using insert_anchors [OF assms(2)] by (simp add: anchor_seq_def)
  have log: "chain_of t (adb v) = drop (nat (anchor_seq t (adb v) - 1)) (h t)" if "trails h v" for t h v
    using that by (simp add: trails_def trail_def log_ok_def)
  from insert_step [OF ok assms(2)] show ?thesis
  proof (elim disjE conjE exE)
    assume new: "trails hs w'" "\<forall>x. r = Inr x \<longrightarrow> batch = []"
    have same: "chain_of t (adb w') = chain_of t ?d" for t using log [OF new(1)] log [OF ok] a by simp
    show ?thesis
    proof (cases r)
      case (Inr x)
      with new(2) have "byTenant batch t = []" for t by (simp add: byTenant_def)
      then show ?thesis using same by simp
    qed (use same in simp)
  next
    fix c n assume new: "trails (\<lambda>t. hs t @ written batch c (hs t) t) w'" and c: "c = anow (wld s) n div 1000"
    have "chain_of t (adb w') = chain_of t ?d @ new_rows t (anow (wld s) n div 1000)
        (anchor_seq t ?d + int (length (chain_of t ?d)) - 1)
        (end_hash (anchor_hash t ?d) (chain_of t ?d)) (byTenant batch t)" for t
    proof -
      have tr: "log_ok t (hs t) ?d" "cursor_ok t (hs t) ?d" using ok by (simp_all add: trails_def trail_def)
      let ?k = "nat (anchor_seq t ?d - 1)"
      have le: "?k \<le> length (hs t)" by (rule log_ok_prefix [OF tr])
      have "end_hash chainGenesis (hs t) = end_hash (anchor_hash t ?d) (chain_of t ?d)"
        using tr(1) end_hash_append [of chainGenesis "take ?k (hs t)" "drop ?k (hs t)"] by (simp add: log_ok_def)
      moreover have "1 \<le> anchor_seq t ?d" using tr(1) by (simp add: log_ok_def)
      then have "int (length (hs t)) = anchor_seq t ?d + int (length (chain_of t ?d)) - 1"
        using tr(1) le by (simp add: log_ok_def of_nat_diff)
      moreover have "chain_of t (adb w') = chain_of t ?d @ written batch c (hs t) t"
        using log [OF new, of t] log [OF ok, of t] le by (simp add: a)
      ultimately show ?thesis by (simp only: written_def c)
    qed
    then show ?thesis by blast
  qed
qed

theorem Writer_insert_appends_witness:
  "\<exists>n. chain_of ''acme'' (adb demo_filled) = chain_of ''acme'' (adb demo_audit) @
     new_rows ''acme'' (anow demo_audit n div 1000) (anchor_seq ''acme'' (adb demo_audit) + int (length (chain_of ''acme'' (adb demo_audit))) - 1)
       (end_hash (anchor_hash ''acme'' (adb demo_audit)) (chain_of ''acme'' (adb demo_audit))) (byTenant demo_batch ''acme'')"
  using Writer_insert_appends [OF demo_reachable, of demo_batch "Inr 1" demo_filled] demo_insert by (auto simp: demo_sys_def)

section \<open>Retention\<close>

text \<open>
  A row may be removed: it is exported, and it and every row of the chain before it are older than the
  boundary.
\<close>

definition expired :: "string \<Rightarrow> int \<Rightarrow> audit_db \<Rightarrow> audit_row \<Rightarrow> bool" where
  "expired t cutoff d x \<longleftrightarrow>
     ar_tenant x = t \<and>
     (case ar_seq x of
        None \<Rightarrow> False
      | Some q \<Rightarrow> q \<le> exported_seq t d \<and> (\<forall>y \<in> set (chained t d). the (ar_seq y) \<le> q \<longrightarrow> ar_created y < cutoff))"

lemma first_inside_le:
  assumes "y \<in> set (chained t d)" "cutoff \<le> ar_created y" shows "first_inside t cutoff d \<le> the (ar_seq y)"
proof -
  have srt: "sorted (map (\<lambda>r. the (ar_seq r)) (filter (\<lambda>r. ar_created r \<ge> cutoff) (chained t d)))"
    unfolding chained_def by (simp add: sorted_filter)
  have "y \<in> set (filter (\<lambda>r. ar_created r \<ge> cutoff) (chained t d))" using assms by simp
  with srt show ?thesis unfolding first_inside_def
    by (cases "filter (\<lambda>r. ar_created r \<ge> cutoff) (chained t d)") auto
qed

lemma expired_iff:
  assumes "exported_seq t d < 9223372036854775807" "x \<in> set (audit_log d)"
  shows "expired t cutoff d x \<longleftrightarrow>
    x \<in> set (filter (\<lambda>r. the (ar_seq r) < first_inside t cutoff d \<and> the (ar_seq r) \<le> exported_seq t d) (chained t d))"
    (is "_ \<longleftrightarrow> ?R")
proof
  assume e: "expired t cutoff d x"
  then obtain q where q: "ar_tenant x = t" "ar_seq x = Some q" "q \<le> exported_seq t d"
    and old: "\<And>y. y \<in> set (chained t d) \<Longrightarrow> the (ar_seq y) \<le> q \<Longrightarrow> ar_created y < cutoff"
    by (auto simp: expired_def split: option.splits)
  have "x \<in> set (chained t d)" using q assms(2) by (simp add: chained_def)
  moreover have "q < first_inside t cutoff d"
  proof (cases "filter (\<lambda>r. ar_created r \<ge> cutoff) (chained t d)")
    case Nil
    then show ?thesis using q assms(1) by (simp add: first_inside_def)
  next
    case (Cons y ys)
    then have "y \<in> set (filter (\<lambda>r. ar_created r \<ge> cutoff) (chained t d))" by simp
    then have "y \<in> set (chained t d)" "cutoff \<le> ar_created y" by simp_all
    with old [of y] have "q < the (ar_seq y)" by linarith
    then show ?thesis using Cons by (simp add: first_inside_def)
  qed
  ultimately show ?R using q by simp
next
  assume ?R
  then have x: "x \<in> set (chained t d)" "the (ar_seq x) < first_inside t cutoff d" "the (ar_seq x) \<le> exported_seq t d" by auto
  have "ar_created y < cutoff" if "y \<in> set (chained t d)" "the (ar_seq y) \<le> the (ar_seq x)" for y
    using first_inside_le [OF that(1), of cutoff] that(2) x(2) by force
  then show "expired t cutoff d x" using chained_tenant [OF x(1)] x(3) by (auto simp: expired_def)
qed

lemma removable_expired:
  assumes "exported_seq t d < 9223372036854775807" "last_old t cutoff d = Some x" "y \<in> set (audit_log d)"
  shows "removable t (the (ar_seq x)) y \<longleftrightarrow> expired t cutoff d y"
proof -
  let ?f = "filter (\<lambda>r. the (ar_seq r) < first_inside t cutoff d \<and> the (ar_seq r) \<le> exported_seq t d) (chained t d)"
  from assms(2) obtain ys where f: "?f = ys @ [x]" unfolding last_old_def
    by (cases ?f rule: rev_cases) auto
  have x: "x \<in> set ?f" unfolding f by simp
  have srt: "sorted (map (\<lambda>r. the (ar_seq r)) ?f)" unfolding chained_def by (simp add: sorted_filter)
  have le: "the (ar_seq r) \<le> the (ar_seq x)" if "r \<in> set ?f" for r
    using srt that unfolding f by (auto simp: sorted_append)
  show ?thesis
  proof
    assume r: "removable t (the (ar_seq x)) y"
    then have "y \<in> set (chained t d)" "the (ar_seq y) \<le> the (ar_seq x)"
      using assms(3) by (auto simp: removable_def chained_def split: option.splits)
    then have "y \<in> set ?f" using x by auto
    then show "expired t cutoff d y" using expired_iff [OF assms(1,3)] by blast
  next
    assume "expired t cutoff d y"
    then have "y \<in> set ?f" using expired_iff [OF assms(1,3)] by blast
    from this le [OF this] show "removable t (the (ar_seq x)) y"
      using chained_tenant [of y t d] by (auto simp: removable_def)
  qed
qed

lemma nothing_expired:
  assumes "exported_seq t d < 9223372036854775807" "last_old t cutoff d = None" "y \<in> set (audit_log d)"
  shows "\<not> expired t cutoff d y"
  using assms(2) unfolding expired_iff [OF assms(1,3)] last_old_def
  by (auto simp: filter_empty_conv split: list.splits)

text \<open>
  C15: a successful run of retention removes the expired rows of the tenant and nothing else, and
  counts them: rows that are exported, and that are older than the boundary, as is every row before
  them. The boundary is the number of months of the tenant or of the install back from now, whichever
  is more. A failed run removes the same rows or none.
\<close>

theorem PruneTenant_exact:
  assumes "PruneTenant months t w = (r, w')" "exported_seq t (adb w) < 9223372036854775807"
  shows "\<exists>n. case r of
      Inr k \<Rightarrow> audit_log (adb w') = filter (\<lambda>x. \<not> expired t (prune_cutoff months t w n) (adb w) x) (audit_log (adb w)) \<and>
        k = int (length (filter (expired t (prune_cutoff months t w n) (adb w)) (audit_log (adb w))))
    | Inl _ \<Rightarrow> audit_log (adb w') = audit_log (adb w) \<or>
        audit_log (adb w') = filter (\<lambda>x. \<not> expired t (prune_cutoff months t w n) (adb w) x) (audit_log (adb w))"
  using assms(1)
proof (cases rule: PruneTenant_cases)
  case kept
  show ?thesis
  proof (cases r)
    case (Inr k)
    with kept(2) obtain n where n: "k = 0" "last_old t (prune_cutoff months t w n) (adb w) = None" by blast
    note no = nothing_expired [OF assms(2) n(2)]
    have "filter (\<lambda>x. \<not> expired t (prune_cutoff months t w n) (adb w) x) (audit_log (adb w)) = audit_log (adb w)"
      using no by (simp add: filter_id_conv)
    moreover have "filter (expired t (prune_cutoff months t w n) (adb w)) (audit_log (adb w)) = []"
      using no by (simp add: filter_empty_conv)
    ultimately show ?thesis using Inr n(1) kept(1) by (intro exI [of _ n]) simp
  qed (use kept(1) in simp)
next
  case (rows x n)
  let ?e = "expired t (prune_cutoff months t w n) (adb w)"
  have eq: "filter (removable t (the (ar_seq x))) (audit_log (adb w)) = filter ?e (audit_log (adb w))"
    "filter (\<lambda>y. \<not> removable t (the (ar_seq x)) y) (audit_log (adb w)) = filter (\<lambda>y. \<not> ?e y) (audit_log (adb w))"
    using removable_expired [OF assms(2) rows(1)] by (auto intro!: filter_cong)
  show ?thesis using rows(3,4) unfolding eq
    by (intro exI [of _ n]) (auto simp: pruned_def eq(2))
qed

theorem PruneTenant_exact_witness:
  "\<exists>n. audit_log (adb demo_pruned) =
      filter (\<lambda>x. \<not> expired ''acme'' (prune_cutoff 13 ''acme'' demo_exported n) (adb demo_exported) x) (audit_log (adb demo_exported)) \<and>
    2 = int (length (filter (expired ''acme'' (prune_cutoff 13 ''acme'' demo_exported n) (adb demo_exported)) (audit_log (adb demo_exported))))"
  using PruneTenant_exact [OF demo_prune]
  by (simp add: exported_seq_def demo_exported_def done_in_def)

section \<open>Progress\<close>



section \<open>Reading while retention runs\<close>

text \<open>
  The verifier reads the anchor and the rows in two statements. When retention removes rows between
  them and leaves some, an untouched chain is reported to miss positions.
\<close>

lemma verify_races_prune:
  assumes "trails hs w" "last_old t cutoff (adb w) = Some x"
    and "d = pruned t (the (ar_seq x)) (ar_entry x) now (adb w)" "chain_of t d \<noteq> []"
  shows "rp_break (verify_rows (anchor_seq t (adb w)) (anchor_hash t (adb w)) (chain_of t d) rp) = ChainBreakMissing"
proof -
  have tr: "trail t (hs t) (adb w) (bucket w)" using assms(1) by (simp add: trails_def)
  then have "log_ok t (hs t) (adb w)" "cursor_ok t (hs t) (adb w)" by (simp_all add: trail_def)
  from last_old_row [OF this assms(2)] obtain i where i: "the (ar_seq x) = int i + 1" "anchor_seq t (adb w) \<le> int i + 1" by metis
  have "log_ok t (hs t) d" using trail_prune [OF tr assms(2)] assms(3) by (simp add: trail_def)
  moreover have "anchor_seq t d = int i + 2" using i(1) assms(3) by (simp add: anchor_seq_def pruned_def)
  ultimately have "linked t (int i + 2) (anchor_hash t d) (chain_of t d)" using log_ok_suffix(1) by metis
  with assms(4) i(2) show ?thesis by (cases "chain_of t d") (auto simp: Let_def)
qed

section \<open>The queue\<close>

definition demo_writer :: "bool \<Rightarrow> bool \<Rightarrow> audit_world \<Rightarrow> audit_entry list \<Rightarrow> run_phase \<Rightarrow> caller list \<Rightarrow> audit_entry list \<Rightarrow> audit_entry list \<Rightarrow> writer" where
  "demo_writer st ca w b r cs acc dur =
     \<lparr>sysw = demo_sys\<lparr>wld := w\<rparr>, buffer = b, stopping = st, cancelled = ca, run_state = r, callers = cs,
      accepted = acc, durable = dur, lost = []\<rparr>"

lemma demo_writer_initial: "initial_writer (demo_writer False False demo_audit [] (Collecting []) [] [] [])"
  using demo_reachable by (simp add: initial_writer_def demo_writer_def demo_sys_def)

lemma stepI: "writer_step\<^sup>*\<^sup>* q0 q \<Longrightarrow> writer_step q q' \<Longrightarrow> q' = q'' \<Longrightarrow> writer_step\<^sup>*\<^sup>* q0 q''"
  by auto

text \<open>Two callers log an event each, and the goroutine writes them in one batch.\<close>

lemma demo_writer_flushed:
  "writer_step\<^sup>*\<^sup>* (demo_writer False False demo_audit [] (Collecting []) [] [] [])
     (demo_writer False False demo_filled [] (Collecting []) [Returned, Returned] demo_batch demo_batch)"
proof -
  let ?a = "demo_entry ''create''" and ?b = "demo_entry ''delete''"
  let ?q = "demo_writer False False demo_audit"
  have "writer_step\<^sup>*\<^sup>* (?q [] (Collecting []) [] [] []) (?q [] (Collecting []) [Checked ?a] [?a] [])"
    by (rule stepI [OF rtranclp.rtrancl_refl writer_step.call [of _ ?a]]) (simp_all add: demo_writer_def Log_first_def)
  then have "writer_step\<^sup>*\<^sup>* (?q [] (Collecting []) [] [] []) (?q [] (Collecting []) [Checked ?a, Checked ?b] demo_batch [])"
    by (rule stepI [OF _ writer_step.call [of _ ?b]]) (simp_all add: demo_writer_def Log_first_def demo_batch_def)
  then have "writer_step\<^sup>*\<^sup>* (?q [] (Collecting []) [] [] []) (?q [?a] (Collecting []) [Sent, Checked ?b] demo_batch [])"
    by (rule stepI [OF _ writer_step.send [of 0 _ ?a]]) (simp_all add: demo_writer_def writerBufferSize_def)
  then have "writer_step\<^sup>*\<^sup>* (?q [] (Collecting []) [] [] []) (?q [?a, ?b] (Collecting []) [Sent, Sent] demo_batch [])"
    by (rule stepI [OF _ writer_step.send [of 1 _ ?b]]) (simp_all add: demo_writer_def writerBufferSize_def)
  then have "writer_step\<^sup>*\<^sup>* (?q [] (Collecting []) [] [] []) (?q [?a, ?b] (Collecting []) [Returned, Sent] demo_batch [])"
    by (rule stepI [OF _ writer_step.again [of 0]]) (simp_all add: demo_writer_def Log_again_def)
  then have "writer_step\<^sup>*\<^sup>* (?q [] (Collecting []) [] [] []) (?q [?a, ?b] (Collecting []) [Returned, Returned] demo_batch [])"
    by (rule stepI [OF _ writer_step.again [of 1]]) (simp_all add: demo_writer_def Log_again_def)
  then have "writer_step\<^sup>*\<^sup>* (?q [] (Collecting []) [] [] []) (?q [?b] (Collecting [?a]) [Returned, Returned] demo_batch [])"
    by (rule stepI [OF _ writer_step.receive [of _ "[]" ?a "[?b]"]]) (simp_all add: demo_writer_def collected_def batchSize_def)
  then have "writer_step\<^sup>*\<^sup>* (?q [] (Collecting []) [] [] []) (?q [] (Collecting demo_batch) [Returned, Returned] demo_batch [])"
    by (rule stepI [OF _ writer_step.receive [of _ "[?a]" ?b "[]"]])
      (simp_all add: demo_writer_def collected_def batchSize_def demo_batch_def)
  then have "writer_step\<^sup>*\<^sup>* (?q [] (Collecting []) [] [] []) (?q [] (Flushing demo_batch) [Returned, Returned] demo_batch [])"
    by (rule stepI [OF _ writer_step.tick [of _ demo_batch]]) (simp_all add: demo_writer_def ticked_def demo_batch_def)
  then show ?thesis
    by (rule stepI [OF _ writer_step.flush [of _ demo_batch "Inr ()" demo_filled]])
      (simp_all add: demo_writer_def flushed_def Writer_flush_def demo_insert)
qed

text \<open>\<open>Stop\<close>, and the goroutine leaves.\<close>

lemma demo_writer_stopped:
  "reachable_writer (demo_writer True False demo_filled [] Exited [Returned, Returned] demo_batch demo_batch)"
proof -
  let ?start = "demo_writer False False demo_audit [] (Collecting []) [] [] []"
  let ?q = "\<lambda>r. demo_writer True False demo_filled [] r [Returned, Returned] demo_batch demo_batch"
  have "writer_step\<^sup>*\<^sup>* ?start (?q (Collecting []))"
    by (rule stepI [OF demo_writer_flushed writer_step.stop]) (simp add: demo_writer_def)
  then have "writer_step\<^sup>*\<^sup>* ?start (?q (Writing TakeQueue []))"
    by (rule stepI [OF _ writer_step.leave [of _ "[]"]]) (simp_all add: demo_writer_def)
  then have "writer_step\<^sup>*\<^sup>* ?start (?q (Draining []))"
    by (rule stepI [OF _ writer_step.run_direct_done [of _ TakeQueue]]) (simp_all add: demo_writer_def)
  then have "writer_step\<^sup>*\<^sup>* ?start (?q (Writing Finish []))"
    by (rule stepI [OF _ writer_step.drained [of _ "[]"]]) (simp_all add: demo_writer_def)
  then have "writer_step\<^sup>*\<^sup>* ?start (?q Exited)"
    by (rule stepI [OF _ writer_step.run_direct_done [of _ Finish]]) (simp_all add: demo_writer_def)
  then show ?thesis using demo_writer_initial by (auto simp: reachable_writer_def)
qed

text \<open>
  C9: an event that \<open>Log\<close> accepts is accounted for, in every interleaving of callers, the goroutine,
  \<open>Stop\<close>, a cancelled context, and everything else that happens to the trail. It is in the queue, in the
  hands of a caller or of the goroutine, written, or reported as lost; and it is reported as lost only
  when the writer stops. A written event has a row in the log or in an exported object.
\<close>

theorem Log_accounted:
  assumes "reachable_writer q"
  shows "mset (accepted q) = mset (buffer q) + in_hand q + mset (durable q) + mset (lost q) \<and>
    (\<not> stopping q \<and> \<not> cancelled q \<longrightarrow> lost q = []) \<and>
    (\<forall>ev \<in> set (durable q). \<exists>r. records_event ev r \<and>
       (r \<in> set (chain_of (ae_tenant ev) (adb (wld (sysw q)))) \<or>
        (\<exists>lo hi obj. bucket (wld (sysw q)) (ExportObjectKey (ae_tenant ev) lo hi) = Some obj \<and>
           r \<in> er_row ` set (so_records obj))))"
proof -
  obtain hs where hs: "sys_ok hs (sysw q)" "\<forall>ev \<in> set (durable q). \<exists>r \<in> set (hs (ae_tenant ev)). records_event ev r"
    using recorded_reachable [OF assms] by (auto simp: recorded_def)
  have "\<exists>r. records_event ev r \<and>
       (r \<in> set (chain_of (ae_tenant ev) (adb (wld (sysw q)))) \<or>
        (\<exists>lo hi obj. bucket (wld (sysw q)) (ExportObjectKey (ae_tenant ev) lo hi) = Some obj \<and>
           r \<in> er_row ` set (so_records obj)))" if ev: "ev \<in> set (durable q)" for ev
  proof -
    from hs(2) ev obtain r where "r \<in> set (hs (ae_tenant ev))" "records_event ev r" by blast
    with kept_somewhere [OF hs(1) this(1)] show ?thesis by (intro exI [of _ r] conjI)
  qed
  moreover have "\<not> stopping q \<and> \<not> cancelled q \<longrightarrow> lost q = []" using tidy_reachable [OF assms] by (simp add: tidy_def)
  ultimately show ?thesis using accounted_reachable [OF assms] by (simp add: accounted_def)
qed

theorem Log_accounted_witness:
  "\<exists>r. records_event (demo_entry ''create'') r \<and>
     (r \<in> set (chain_of ''acme'' (adb demo_filled)) \<or>
      (\<exists>lo hi obj. bucket demo_filled (ExportObjectKey ''acme'' lo hi) = Some obj \<and> r \<in> er_row ` set (so_records obj)))"
proof -
  have "demo_entry ''create'' \<in> set demo_batch" "ae_tenant (demo_entry ''create'') = ''acme''"
    by (simp_all add: demo_batch_def demo_entry_def)
  then show ?thesis using Log_accounted [OF demo_writer_stopped] unfolding demo_writer_def demo_sys_def by fastforce
qed



text \<open>
  A cancelled context is different: the goroutine leaves while \<open>stopping\<close> is open, so a later \<open>Log\<close> still
  queues its event and returns. No step takes it from the queue until somebody calls \<open>Stop\<close>.
\<close>

lemma cancelled_writer_strands:
  "reachable_writer (demo_writer False True demo_audit [demo_entry ''create''] Exited [Returned] [demo_entry ''create''] [])"
proof -
  let ?start = "demo_writer False False demo_audit [] (Collecting []) [] [] []" and ?a = "demo_entry ''create''"
  let ?q = "\<lambda>b r cs acc. demo_writer False True demo_audit b r cs acc []"
  have "writer_step\<^sup>*\<^sup>* ?start (?q [] (Collecting []) [] [])"
    by (rule stepI [OF rtranclp.rtrancl_refl writer_step.cancel]) (simp add: demo_writer_def)
  then have "writer_step\<^sup>*\<^sup>* ?start (?q [] (Writing TakeQueue []) [] [])"
    by (rule stepI [OF _ writer_step.leave [of _ "[]"]]) (simp_all add: demo_writer_def)
  then have "writer_step\<^sup>*\<^sup>* ?start (?q [] (Draining []) [] [])"
    by (rule stepI [OF _ writer_step.run_direct_done [of _ TakeQueue]]) (simp_all add: demo_writer_def)
  then have "writer_step\<^sup>*\<^sup>* ?start (?q [] (Writing Finish []) [] [])"
    by (rule stepI [OF _ writer_step.drained [of _ "[]"]]) (simp_all add: demo_writer_def)
  then have "writer_step\<^sup>*\<^sup>* ?start (?q [] Exited [] [])"
    by (rule stepI [OF _ writer_step.run_direct_done [of _ Finish]]) (simp_all add: demo_writer_def)
  then have "writer_step\<^sup>*\<^sup>* ?start (?q [] Exited [Checked ?a] [?a])"
    by (rule stepI [OF _ writer_step.call [of _ ?a]]) (simp_all add: demo_writer_def Log_first_def)
  then have "writer_step\<^sup>*\<^sup>* ?start (?q [?a] Exited [Sent] [?a])"
    by (rule stepI [OF _ writer_step.send [of 0 _ ?a]]) (simp_all add: demo_writer_def writerBufferSize_def)
  then have "writer_step\<^sup>*\<^sup>* ?start (?q [?a] Exited [Returned] [?a])"
    by (rule stepI [OF _ writer_step.again [of 0]]) (simp_all add: demo_writer_def Log_again_def)
  then show ?thesis using demo_writer_initial by (auto simp: reachable_writer_def)
qed

lemma stranded_stays:
  assumes "writer_step q q'" "tidy q" "run_state q = Exited" "\<not> stopping q" "ev \<in> set (buffer q)"
  shows "ev \<in> set (buffer q') \<and> run_state q' = Exited"
proof -
  have no: "\<not> writes_itself (callers q ! i)" if "i < length (callers q)" for i
    using tidy_stopping [OF assms(2) that] assms(4) by blast
  from assms(1) show ?thesis
  proof (cases rule: writer_step.cases)
    case (take i evs ev rest)
    then show ?thesis using no [of i] by simp
  qed (use assms(3,5) in auto)
qed

end
