(* ===== verification/Spec2Isabelle.thy ===== *)
theory Spec2Isabelle
  imports MissionGraph ReconcilerProperties JobNodeProperties SagaProperties AuditProperties
begin

text \<open>
  Gibson: a verification library of the daemon (\<open>src/\<close>), in five parts that are written in one style.

  \<^bold>\<open>The program.\<close> A mission is a graph of nodes, checked and drawn by
  \<open>internal/engine/mission/graph\<close>. A node that hands work to a bank of always-on members opens a job in
  the job store (\<open>internal/platform/job\<close>), waits for the member's turns and closes the job on the report
  of its verifier (\<open>internal/engine/jobnode\<close>). Banks and members live in the bank store
  (\<open>internal/platform/bank\<close>), and a reconciler (\<open>internal/engine/bank\<close>) keeps each bank at its size and
  gives the jobs of dead members back. Both stores are in the tenant's own database. The saga runner
  (\<open>pkg/platform/saga\<close>) takes the steps that set up a tenant in dependency order. What happens is
  recorded in the audit trail (\<open>internal/platform/audit\<close>): a hash chain for each tenant, written through
  a queue, exported to a locked bucket, and pruned after the retention period.

  \<^bold>\<open>How it is modelled.\<close> Go functions are HOL functions with the names of the source. Code that
  reads or writes is a function of a world that returns an error or a value (\<open>Effects\<close>); a world holds the
  tables, a clock, and the list of outcomes that the next calls of the driver have: a call works, fails, or
  has its effect while the reply is lost. A transaction is rolled back on an error. Loops whose end
  depends on the world have fuel, and running out of it is the value \<open>None\<close>. \<open>Prelude\<close> has what the
  sources use of the language: byte strings, 32- and 64-bit integers that wrap around, IEEE comparison,
  sorted slices, maps. \<open>PageToken\<close> and \<open>Sha256\<close> have what they use of the standard library:
  RFC 3339 times, base64, and the hash, checked on the test vector of ``abc''.

  \<^bold>\<open>Mission graph\<close> (\<open>MissionModel\<close>, \<open>GraphAnalysis\<close>, \<open>GraphCorrectness\<close>, \<open>MissionGraph\<close>; \<open>graph.go\<close>,
  \<open>analysis.go\<close>). The node index, the edges, the searches for cycles, orphans and nested for-each, the
  \<open>starts_from\<close> rules, and the projection with ranks and layout. \<open>Validate\<close> accepts exactly the sound
  definitions; a reported cycle is one; ranks increase along edges; nodes are not drawn over each other.
  The searches are total functions with measures.

  \<^bold>\<open>Stores\<close> (\<open>JobTypes\<close>, \<open>BankTypes\<close>, \<open>TenantDB\<close>, \<open>JobStore\<close>, \<open>BankStore\<close>; the specifications \<open>JobSpec\<close> and
  \<open>BankSpec\<close>; \<open>JobInvariant\<close>, \<open>JobProperties\<close>, \<open>BankProperties\<close>). One definition for each operation and
  each statement, over the five tables with their constraints. Every operation, whatever the driver
  does, takes one step of the specification or changes nothing, in its own tenant; over any history
  inputs and events are numbered without gaps and a closed job stays closed. The locales \<open>db_reflexive\<close> and
  \<open>db_preorder\<close> are the interface between the combinators and a relation on the tables; \<open>keyset\<close> is the
  interface of paging. \<open>StoreFrame\<close> says what operations leave alone.

  \<^bold>\<open>Reconciler\<close> (\<open>BankReconciler\<close>, \<open>ReconcilerSteps\<close>, \<open>DrainOrder\<close>, \<open>MemberPages\<close>, \<open>ReconcilerCalm\<close>,
  \<open>ReconcilerConverges\<close>, \<open>ReconcilerProperties\<close>; \<open>reconciler.go\<close>, \<open>runner.go\<close>). The pass over a bank, a tenant
  and all tenants, with a launcher that may fail. The locales \<open>closing_store\<close> and \<open>reconciler_store\<close> are what a
  pass needs of the stores; they are interpreted on the steps of both. A pass keeps the invariant
  whatever fails, and brings the bank to its count when nothing does. The fuel of \<open>allMembers\<close> counts
  pages: one more than the bank has members is enough.

  \<^bold>\<open>Job node\<close> (\<open>JobNode\<close>, \<open>NodeTurns\<close>, \<open>JobNodeProperties\<close>; \<open>executor.go\<close>, \<open>inputs.go\<close>). The loop of turns and
  verdicts over the job store. What others do to the tables between two polls is a list of batches in the
  world, one for each poll, so waiting is recursion on that list; its end is the end of the context. A node that returns
  without an error closed its job on the last report, and on every other way out the job is closed or the error
  says that closing failed.

  \<^bold>\<open>Saga\<close> (\<open>SagaTopo\<close>, \<open>SagaRunner\<close>, \<open>SagaProperties\<close>). The topological sort, the startup check, conditions,
  and a run with its retry decision. A step is a record of functions of the object. The conversion of a
  float that is out of range, which Go leaves to the platform, is a parameter. The sort succeeds exactly on
  acyclic input; a step starts after its requirements.

  \<^bold>\<open>Audit trail\<close> (\<open>Sha256\<close>, \<open>AuditChain\<close>, \<open>AuditWriter\<close>, \<open>AuditRetention\<close>, \<open>AuditExport\<close>; the specification
  \<open>AuditTrail\<close>; \<open>AuditSteps\<close>, \<open>AuditSystem\<close>, \<open>AuditCatchUp\<close>, \<open>AuditQueue\<close>, \<open>AuditProperties\<close>; \<open>chain.go\<close>,
  \<open>writer.go\<close>, \<open>sync_writer.go\<close>, \<open>retention.go\<close>, \<open>export.go\<close>). The specification of a tenant is one list of
  rows that only grows; the log is its end, the exported objects are slices from its start. The step
  relation \<open>audit_step\<close> interleaves writers, retention, settings, and any number of exporters that may stop
  between any two of their steps; \<open>writer_step\<close> adds the callers of \<open>Log\<close>, the goroutine of the writer,
  \<open>Stop\<close> and the cancelled context. The locale \<open>kept\<close> is the interface between actions and what they keep.
  The fuel of \<open>Export\<close> counts rounds for a tenant: one more than the log has rows is enough. The
  hash is the real one, so statements about tampering have a collision as their other case.

  \<^bold>\<open>Environment.\<close> Random ids and tenant id checks, the JSON of messages, the launcher, the work of a saga
  step, the verifier of a node, and which texts the database accepts are parameters or fields of a world.
  Texts of errors, logs and metrics are left out.

  \<^bold>\<open>Not modelled.\<close> Of the modelled packages: the wire forms (\<open>ToProto\<close>), the listing query, live tail and S3
  client of the audit package, the tickers that start periodic runs. Of the rest of the daemon: clients of
  external services (OpenFGA, Redis, Neo4j, vector stores, model providers, identity and mail services,
  the vault), the gRPC handlers and the wiring, numerical belief inference, the evaluators of CUE and CEL,
  configuration and observability; they are I/O or third-party code. Other packages with logic of their
  own, such as the event-sourced brain engine, the request authorization and the budget checks, are
  independent of the parts above and are not covered.
\<close>

end
